(* ===== verification/Prelude.thy ===== *)
theory Prelude
  imports Main "HOL-Library.Word"
begin

text \<open>
  Shared vocabulary of the development: the machine integer types of the C++ code, the
  collections of rewrite rules that the component theories extend, and generic facts on
  words, lists and option values that more than one component needs.
\<close>

unbundle bit_operations_syntax

type_synonym u8 = "8 word"
type_synonym u16 = "16 word"
type_synonym u32 = "32 word"
type_synonym u64 = "64 word"
type_synonym byte = "8 word"

named_theorems unat_rules \<open>unsigned words read as natural numbers\<close>

subsection \<open>Unsigned 64-bit arithmetic read as natural numbers\<close>

lemma unat_u64_less [simp]: "unat (x :: u64) < 18446744073709551616"
proof -
  have "unat x < 2 ^ LENGTH(64)" by (rule unsigned_less)
  then show ?thesis by simp
qed

lemma unat_u64_le: "unat (x :: u64) \<le> 18446744073709551615"
  using unat_u64_less [of x] by linarith

lemma unat_add_u64 [unat_rules]:
  "unat x + unat y < 18446744073709551616 \<Longrightarrow> unat (x + y :: u64) = unat x + unat y"
  by (simp add: unat_word_ariths)

lemma unat_sub_u64 [unat_rules]: "y \<le> x \<Longrightarrow> unat (x - y :: u64) = unat x - unat y"
  by (rule unat_sub)

lemma unat_mult_u64 [unat_rules]:
  "unat x * unat y < 18446744073709551616 \<Longrightarrow> unat (x * y :: u64) = unat x * unat y"
  by (simp add: unat_word_ariths)

lemma unat_Suc_u64 [unat_rules]: "unat x < unat (y :: u64) \<Longrightarrow> unat (x + 1 :: u64) = Suc (unat x)"
proof -
  assume "unat x < unat y"
  then have "unat x + 1 < 18446744073709551616"
    using unat_u64_less [of y] by linarith
  then show ?thesis using unat_add_u64 [of x 1] by simp
qed

lemma word_eq_iff_unat: "(x :: 'a::len word) = y \<longleftrightarrow> unat x = unat y"
  by (rule word_unat_eq_iff)

lemma unat_of_nat_u64 [unat_rules]:
  "n < 18446744073709551616 \<Longrightarrow> unat (of_nat n :: u64) = n"
  by (simp add: unat_of_nat)

subsection \<open>Division that rounds up\<close>

lemma div_round_up:
  assumes "0 < (v :: nat)"
  shows "(a + (v - Suc 0)) div v = (if a mod v = 0 then a div v else Suc (a div v))"
proof -
  have a: "a + (v - Suc 0) = (a mod v + (v - Suc 0)) + a div v * v"
    using mod_div_mult_eq [of a v] by simp
  have "(a + (v - Suc 0)) div v = (a mod v + (v - Suc 0)) div v + a div v"
    unfolding a using assms by (simp only: div_mult_self1 neq0_conv)
  moreover have "(a mod v + (v - Suc 0)) div v = (if a mod v = 0 then 0 else 1)"
  proof (cases "a mod v = 0")
    case False
    then obtain w where w: "a mod v = Suc w" by (cases "a mod v") auto
    then have "a mod v + (v - Suc 0) = v + w" using assms by simp
    moreover have "w < v" using w mod_less_divisor [OF assms, of a] by simp
    ultimately show ?thesis using False assms by (simp only: div_add_self1) simp
  qed (use assms in simp)
  ultimately show ?thesis by simp
qed

subsection \<open>Lists\<close>

lemma in_set_tlD: "x \<in> set (tl xs) \<Longrightarrow> x \<in> set xs"
  by (cases xs) auto

lemma distinct_hd_tl [simp]: "distinct xs \<Longrightarrow> hd xs \<notin> set (tl xs)"
  by (cases xs) auto

lemma distinct_last_butlast [simp]: "distinct xs \<Longrightarrow> last xs \<notin> set (butlast xs)"
  by (induction xs) (auto dest: in_set_butlastD)

lemma find_dropWhile:
  "find (\<lambda>x. \<not> P x) xs = (if dropWhile P xs = [] then None else Some (hd (dropWhile P xs)))"
  by (induction xs) auto

subsection \<open>Data refinement\<close>

text \<open>
  A component is a partial step function: \<open>None\<close> is a failed assertion or a null dereference,
  \<open>Some (s', r)\<close> the new state and the value the operation returns.  \<open>run\<close> performs a sequence
  of operations; \<open>arun\<close> is the same for a total abstract step, and \<open>runnable\<close> says that each
  operation is called where its precondition holds.
\<close>

fun run :: "('o \<Rightarrow> 's \<Rightarrow> ('s \<times> 'r) option) \<Rightarrow> 'o list \<Rightarrow> 's \<Rightarrow> ('s \<times> 'r list) option" where
  "run step [] s = Some (s, [])"
| "run step (a # as) s =
     (case step a s of None \<Rightarrow> None
      | Some (s', r) \<Rightarrow> map_option (map_prod id (Cons r)) (run step as s'))"

fun arun :: "('o \<Rightarrow> 'a \<Rightarrow> 'a \<times> 'r) \<Rightarrow> 'o list \<Rightarrow> 'a \<Rightarrow> 'a \<times> 'r list" where
  "arun astep [] x = (x, [])"
| "arun astep (a # as) x =
     (let (y, r) = astep a x; (z, rs) = arun astep as y in (z, r # rs))"

fun runnable :: "('o \<Rightarrow> 'a \<Rightarrow> bool) \<Rightarrow> ('o \<Rightarrow> 'a \<Rightarrow> 'a \<times> 'r) \<Rightarrow> 'o list \<Rightarrow> 'a \<Rightarrow> bool" where
  "runnable pre astep [] x \<longleftrightarrow> True"
| "runnable pre astep (a # as) x \<longleftrightarrow> pre a x \<and> runnable pre astep as (fst (astep a x))"

locale data_refinement =
  fixes rel :: "'s \<Rightarrow> 'a \<Rightarrow> bool"
    and step :: "'o \<Rightarrow> 's \<Rightarrow> ('s \<times> 'r) option"
    and astep :: "'o \<Rightarrow> 'a \<Rightarrow> 'a \<times> 'r"
    and pre :: "'o \<Rightarrow> 'a \<Rightarrow> bool"
  assumes refines: "rel s x \<Longrightarrow> pre a x \<Longrightarrow>
    \<exists>s'. step a s = Some (s', snd (astep a x)) \<and> rel s' (fst (astep a x))"
begin

lemma run_refines:
  "rel s x \<Longrightarrow> runnable pre astep as x \<Longrightarrow>
    \<exists>s'. run step as s = Some (s', snd (arun astep as x)) \<and> rel s' (fst (arun astep as x))"
proof (induction as arbitrary: s x)
  case (Cons a as)
  then obtain s1 where 1: "step a s = Some (s1, snd (astep a x))" "rel s1 (fst (astep a x))"
    using refines by fastforce
  obtain s2 where "run step as s1 = Some (s2, snd (arun astep as (fst (astep a x))))"
    "rel s2 (fst (arun astep as (fst (astep a x))))"
    using Cons.IH [OF 1(2)] Cons.prems by auto
  with 1 show ?case by (auto split: prod.splits)
qed simp

text \<open>In particular no operation fails and the results are those of the abstract steps.\<close>

lemma run_results:
  "rel s x \<Longrightarrow> runnable pre astep as x \<Longrightarrow>
    map_option snd (run step as s) = Some (snd (arun astep as x))"
  using run_refines by fastforce

end

end
