(* ===== verification/Utility.thy ===== *)
theory Utility
  imports Prelude
begin

text \<open>
  The integer helpers of src/common/utility.h: saturating addition and subtraction and
  alignment.  All values are 64-bit words, so wrap-around is the one of the code.
\<close>

subsection \<open>Definitions\<close>

definition sat_add :: "u64 \<Rightarrow> u64 \<Rightarrow> u64" where
  "sat_add x y =
     (let z = x + y; c = (if 2 ^ 64 \<le> unat x + unat y then 1 else 0) in (- c) OR z)"

definition sat_sub :: "u64 \<Rightarrow> u64 \<Rightarrow> u64" where
  "sat_sub x y = (let z = x - y; c = x < y in if c then 0 else z)"

definition align_down :: "u64 \<Rightarrow> u64 \<Rightarrow> u64" where
  "align_down x alignment = x AND NOT (alignment - 1)"

definition align_up :: "u64 \<Rightarrow> u64 \<Rightarrow> u64" where
  "align_up x alignment = align_down (x + alignment - 1) alignment"

subsection \<open>Saturating arithmetic\<close>

lemma unat_sat_add [unat_rules]:
  "unat (sat_add x y) = min (unat x + unat y) 18446744073709551615"
proof (cases "2 ^ 64 \<le> unat x + unat y")
  case True
  then have "sat_add x y = - 1"
    by (simp add: sat_add_def)
  with True show ?thesis
    by (simp add: unsigned_minus_1_eq_mask mask_eq_exp_minus_1 min_def)
next
  case False
  then show ?thesis
    by (simp add: sat_add_def unat_add_u64 min_def)
qed

lemma unat_sat_sub [unat_rules]: "unat (sat_sub x y) = unat x - unat y"
  by (auto simp: sat_sub_def unat_sub_u64 word_less_nat_alt word_le_nat_alt)

end
