(* ===== verification/Range_Split.thy ===== *)
theory Range_Split
  imports Utility
begin

text \<open>
  Splitting a file range into blocks: src/fs/range-split.h and src/fs/range-split-vi.h.
  The CRTP base \<open>basic_range_split<Derived>\<close> calls the three operations \<open>divide\<close>,
  \<open>multiply\<close> and \<open>get_length\<close> of its derived class; they are the record
  \<open>splitter\<close> here, and the locale \<open>block_splitter\<close> states what the base class relies on.
  It is interpreted for the fixed interval, the power-of-two interval and the variable
  intervals.  All offsets are 64-bit words that wrap around as in the code.
\<close>

subsection \<open>Sub-ranges\<close>

record sub_range =
  sr_i :: u64
  sr_offset :: u64
  sr_length :: u64

definition sr_assign :: "u64 \<Rightarrow> u64 \<Rightarrow> u64 \<Rightarrow> sub_range" where
  "sr_assign i offset len = \<lparr>sr_i = i, sr_offset = offset, sr_length = len\<rparr>"

definition sr_end :: "sub_range \<Rightarrow> u64" where
  "sr_end r = sr_offset r + sr_length r"

definition sr_bool :: "sub_range \<Rightarrow> bool" where
  "sr_bool r \<longleftrightarrow> 0 < sr_length r"

definition sr_clear :: "sub_range \<Rightarrow> sub_range" where
  "sr_clear r = r\<lparr>sr_length := 0\<rparr>"

subsection \<open>The base class\<close>

record splitter =
  divide :: "u64 \<Rightarrow> u64 \<times> u64 \<times> u64"
  multiply :: "u64 \<Rightarrow> u64 \<Rightarrow> u64"
  get_length :: "u64 \<Rightarrow> u64"

record basic_range_split =
  rs_begin :: u64
  rs_end :: u64
  abegin :: u64
  aend :: u64
  apbegin :: u64
  apend :: u64
  begin_remainder :: u64
  end_remainder :: u64
  small_note :: sub_range
  preface :: sub_range
  first_part :: sub_range
  postface :: sub_range

definition is_aligned :: "basic_range_split \<Rightarrow> bool" where
  "is_aligned rs \<longleftrightarrow> begin_remainder rs = 0 \<and> end_remainder rs = 0"

definition is_aligned_at :: "splitter \<Rightarrow> u64 \<Rightarrow> bool" where
  "is_aligned_at ops x = (case divide ops x of (down, rem, up) \<Rightarrow> multiply ops down 0 = x)"

definition aligned_begin_offset :: "splitter \<Rightarrow> basic_range_split \<Rightarrow> u64" where
  "aligned_begin_offset ops rs = multiply ops (abegin rs) 0"

definition aligned_end_offset :: "splitter \<Rightarrow> basic_range_split \<Rightarrow> u64" where
  "aligned_end_offset ops rs = multiply ops (aend rs) 0"

definition aligned_length :: "splitter \<Rightarrow> basic_range_split \<Rightarrow> u64" where
  "aligned_length ops rs = multiply ops (aend rs - abegin rs) 0"

text \<open>
  \<open>init\<close>: the four sub-ranges start as the default-constructed \<open>(0, 0, 0)\<close>, so a call of
  \<open>clear\<close> leaves exactly that value.
\<close>

definition rs_init :: "splitter \<Rightarrow> u64 \<Rightarrow> u64 \<Rightarrow> basic_range_split" where
  "rs_init ops offset len =
     (let e = offset + len;
          (ab, br, apb) = divide ops offset;
          (ape, er, ae) = divide ops e;
          none = sr_clear (sr_assign 0 0 0);
          mk = (\<lambda>sn pre fst post.
            \<lparr>rs_begin = offset, rs_end = e, abegin = ab, aend = ae, apbegin = apb, apend = ape,
             begin_remainder = br, end_remainder = er, small_note = sn, preface = pre,
             first_part = fst, postface = post\<rparr>)
      in if ab + 1 = ae then
           (let fst = sr_assign ab br len
            in if ab \<noteq> apb then
                 (if ae \<noteq> ape then mk fst none fst none else mk none fst fst none)
               else
                 (if ae \<noteq> ape then mk none none fst fst else mk none none fst none))
         else
           (let pre = (if ab = apb then none else sr_assign ab br (get_length ops ab - br));
                fst = (if sr_bool pre then pre else sr_assign apb 0 (get_length ops apb));
                post = (if ae = ape then none else sr_assign ape 0 er)
            in mk none pre fst post))"

text \<open>
  The two iterators, as the list of sub-ranges a range-based loop visits.  Both loops stop
  only at equality with the end index and the index wraps around.
\<close>

lemma unat_dist_step: "i \<noteq> e \<Longrightarrow> unat (e - (i + 1) :: u64) < unat (e - i)"
proof -
  assume "i \<noteq> e"
  then have "0 < e - i" by (simp add: word_neq_0_conv [symmetric])
  then have "unat (e - i - 1) < unat (e - i)"
    by (metis less_irrefl measure_unat)
  then show ?thesis by (simp add: algebra_simps)
qed

function aligned_iter :: "splitter \<Rightarrow> u64 \<Rightarrow> u64 \<Rightarrow> sub_range list" where
  "aligned_iter ops i e =
     (if i = e then [] else sr_assign i 0 (get_length ops i) # aligned_iter ops (i + 1) e)"
  by pat_completeness auto
termination
  by (relation "measure (\<lambda>(ops, i, e). unat (e - i))") (auto simp: unat_dist_step)

definition aligned_parts :: "splitter \<Rightarrow> basic_range_split \<Rightarrow> sub_range list" where
  "aligned_parts ops rs =
     aligned_iter ops (apbegin rs) (if sr_bool (small_note rs) then apbegin rs else apend rs)"

definition all_next :: "splitter \<Rightarrow> basic_range_split \<Rightarrow> sub_range \<Rightarrow> sub_range" where
  "all_next ops rs it =
     (let it1 = it\<lparr>sr_offset := 0, sr_i := sr_i it + 1\<rparr>
      in if sr_i it1 \<noteq> aend rs then
           (let pf = (sr_bool (postface rs) \<and> sr_i (postface rs) = sr_i it1)
            in it1\<lparr>sr_length := if pf then sr_length (postface rs) else get_length ops (sr_i it1)\<rparr>)
         else it1)"

lemma all_next_i [simp]: "sr_i (all_next ops rs it) = sr_i it + 1"
  by (simp add: all_next_def Let_def)

function all_iter :: "splitter \<Rightarrow> basic_range_split \<Rightarrow> sub_range \<Rightarrow> sub_range list" where
  "all_iter ops rs it =
     (if sr_i it = aend rs then [] else it # all_iter ops rs (all_next ops rs it))"
  by pat_completeness auto
termination
  by (relation "measure (\<lambda>(ops, rs, it). unat (aend rs - sr_i it))") (auto simp: unat_dist_step)

definition all_parts :: "splitter \<Rightarrow> basic_range_split \<Rightarrow> sub_range list" where
  "all_parts ops rs = all_iter ops rs (first_part rs)"

declare aligned_iter.simps [simp del] all_iter.simps [simp del]

text \<open>The loop over the parts by category, as the header's own example writes it.\<close>

definition parts_by_category :: "splitter \<Rightarrow> basic_range_split \<Rightarrow> sub_range list" where
  "parts_by_category ops rs =
     (if sr_bool (small_note rs) then [small_note rs]
      else (if sr_bool (preface rs) then [preface rs] else []) @
           aligned_parts ops rs @
           (if sr_bool (postface rs) then [postface rs] else []))"

subsection \<open>The three derived classes\<close>

definition fixed_ops :: "u64 \<Rightarrow> splitter" where
  "fixed_ops interval =
     \<lparr>divide = (\<lambda>x. (x div interval, x mod interval, (x + interval - 1) div interval)),
      multiply = (\<lambda>i x. i * interval + x),
      get_length = (\<lambda>_. interval)\<rparr>"

definition range_split :: "u64 \<Rightarrow> u64 \<Rightarrow> u64 \<Rightarrow> basic_range_split" where
  "range_split offset len interval = rs_init (fixed_ops interval) offset len"

text \<open>\<open>__builtin_ffsl\<close>: one plus the index of the least significant set bit, 0 for 0.\<close>

definition builtin_ffsl :: "u64 \<Rightarrow> nat" where
  "builtin_ffsl x = (case filter (bit x) [0..<64] of [] \<Rightarrow> 0 | i # _ \<Rightarrow> Suc i)"

definition power2_ops :: "u64 \<Rightarrow> splitter" where
  "power2_ops interval =
     (let interval_shift = builtin_ffsl interval - 1; mask = interval - 1
      in \<lparr>divide = (\<lambda>x. (drop_bit interval_shift x, x AND mask,
                         drop_bit interval_shift (x + mask))),
          multiply = (\<lambda>i x. push_bit interval_shift i + x),
          get_length = (\<lambda>_. interval)\<rparr>)"

text \<open>The constructor asserts that the interval is a power of two.\<close>

definition range_split_power2 :: "u64 \<Rightarrow> u64 \<Rightarrow> u64 \<Rightarrow> basic_range_split option" where
  "range_split_power2 offset len interval =
     (let x = interval AND (interval - 1)
      in if 0 < interval \<and> x = 0 then Some (rs_init (power2_ops interval) offset len)
         else None)"

text \<open>
  \<open>std::upper_bound\<close> on an ascending array: the number of leading elements that are not
  greater than \<open>x\<close>.
\<close>

definition upper_bound :: "u64 list \<Rightarrow> u64 \<Rightarrow> nat" where
  "upper_bound key_points x = length (takeWhile (\<lambda>k. k \<le> x) key_points)"

definition vi_ops :: "u64 list \<Rightarrow> splitter" where
  "vi_ops key_points =
     \<lparr>divide = (\<lambda>x. let i = upper_bound key_points x;
                        round_down = of_nat i - 1;
                        remainder = x - key_points ! (i - 1)
                    in (round_down, remainder, if 0 < remainder then of_nat i else round_down)),
      multiply = (\<lambda>i x. key_points ! unat i + x),
      get_length = (\<lambda>i. key_points ! (unat i + 1) - key_points ! unat i)\<rparr>"

definition ascending :: "u64 list \<Rightarrow> bool" where
  "ascending key_points = list_all (\<lambda>i. \<not> key_points ! i \<le> key_points ! (i - 1)) [1..<length key_points]"

definition range_split_vi :: "u64 \<Rightarrow> u64 \<Rightarrow> u64 list \<Rightarrow> basic_range_split option" where
  "range_split_vi offset len key_points =
     (let n = length key_points
      in if 3 \<le> n \<and> key_points ! 0 = 0 \<and> key_points ! (n - 1) = - 1 \<and> ascending key_points
         then Some (rs_init (vi_ops key_points) offset len) else None)"

subsection \<open>What it means that parts cover a range\<close>

text \<open>
  \<open>tiles bnd lo hi ps\<close>: each part is non-empty and lies inside its block, and the parts
  follow each other without gap or overlap from the absolute position \<open>lo\<close> to \<open>hi\<close>;
  \<open>bnd n\<close> is the position where block \<open>n\<close> begins.
\<close>

fun tiles :: "(nat \<Rightarrow> nat) \<Rightarrow> nat \<Rightarrow> nat \<Rightarrow> sub_range list \<Rightarrow> bool" where
  "tiles bnd lo hi [] \<longleftrightarrow> lo = hi"
| "tiles bnd lo hi (p # ps) \<longleftrightarrow>
     bnd (unat (sr_i p)) + unat (sr_offset p) = lo \<and>
     lo + unat (sr_length p) \<le> bnd (Suc (unat (sr_i p))) \<and>
     0 < unat (sr_length p) \<and>
     tiles bnd (lo + unat (sr_length p)) hi ps"

lemma tiles_append: "tiles bnd lo mid ps \<Longrightarrow> tiles bnd mid hi qs \<Longrightarrow> tiles bnd lo hi (ps @ qs)"
  by (induction bnd lo mid ps rule: tiles.induct) auto

subsection \<open>The two loops\<close>

lemma aligned_iter_Nil [simp]: "aligned_iter ops e e = []"
  by (subst aligned_iter.simps) simp

lemma aligned_iter_step:
  "i \<noteq> e \<Longrightarrow> aligned_iter ops i e = sr_assign i 0 (get_length ops i) # aligned_iter ops (i + 1) e"
  by (subst aligned_iter.simps) simp

lemma aligned_iter_single [simp]:
  "aligned_iter ops i (i + 1) = [sr_assign i 0 (get_length ops i)]"
  by (simp add: aligned_iter_step)

lemma length_aligned_iter: "length (aligned_iter ops i e) = unat (e - i)"
proof (induction ops i e rule: aligned_iter.induct)
  case (1 ops i e)
  show ?case
  proof (cases "i = e")
    case False
    then have "unat (e - i) = Suc (unat (e - i - 1))"
      using unat_minus_one [of "e - i"] unat_gt_0 [of "e - i"] by simp
    with 1 [OF False] False show ?thesis
      by (simp add: aligned_iter_step algebra_simps)
  qed simp
qed

text \<open>An iterator over all parts that stands on a part with its natural length.\<close>

definition on_part :: "splitter \<Rightarrow> u64 \<Rightarrow> u64 \<Rightarrow> u64 \<Rightarrow> sub_range" where
  "on_part ops ape er i = sr_assign i 0 (if i = ape then er else get_length ops i)"

lemma all_next_on_part:
  assumes "sr_i it + 1 \<noteq> aend rs"
    and "er \<noteq> 0 \<Longrightarrow> postface rs = sr_assign ape 0 er"
    and "er = 0 \<Longrightarrow> \<not> sr_bool (postface rs)"
    and "er = 0 \<Longrightarrow> aend rs = ape"
  shows "all_next ops rs it = on_part ops ape er (sr_i it + 1)"
  using assms
  by (cases "er = 0")
    (auto simp: all_next_def Let_def on_part_def sr_assign_def sr_bool_def word_neq_0_conv)

lemma all_iter_end: "sr_i it = aend rs \<Longrightarrow> all_iter ops rs it = []"
  by (subst all_iter.simps) simp

lemma all_iter_on_part:
  assumes "unat i \<le> unat ape" and "i \<noteq> aend rs"
    and ae: "aend rs = (if er = 0 then ape else ape + 1)"
    and post: "er \<noteq> 0 \<Longrightarrow> postface rs = sr_assign ape 0 er" "er = 0 \<Longrightarrow> \<not> sr_bool (postface rs)"
  shows "all_iter ops rs (on_part ops ape er i) =
    aligned_iter ops i ape @ (if er = 0 then [] else [postface rs])"
  using assms(1,2)
proof (induction "unat ape - unat i" arbitrary: i)
  case 0
  then have "i = ape" by (simp add: word_unat_eq_iff)
  with 0 ae post show ?case
    by (subst all_iter.simps) (auto simp: on_part_def sr_assign_def all_iter_end)
next
  case (Suc n)
  then have lt: "unat i < unat ape" and ne: "i \<noteq> ape" by auto
  then have Si: "unat (i + 1) = Suc (unat i)" by (simp add: unat_Suc_u64)
  have si: "sr_i (on_part ops ape er i) = i" by (simp add: on_part_def sr_assign_def)
  have step: "all_iter ops rs (on_part ops ape er i) =
      on_part ops ape er i # all_iter ops rs (all_next ops rs (on_part ops ape er i))"
    using Suc.prems(2) si by (subst all_iter.simps) simp
  show ?case
  proof (cases "i + 1 = aend rs")
    case True
    then have "er = 0" and "ape = i + 1"
      using lt ae by (auto split: if_splits)
    then show ?thesis using step ne True si
      by (simp add: aligned_iter_step all_iter_end) (simp add: on_part_def)
  next
    case False
    then have "all_next ops rs (on_part ops ape er i) = on_part ops ape er (i + 1)"
      using all_next_on_part [of "on_part ops ape er i" rs er ape ops] si ae post by auto
    moreover have "all_iter ops rs (on_part ops ape er (i + 1)) =
        aligned_iter ops (i + 1) ape @ (if er = 0 then [] else [postface rs])"
      using Suc.hyps(1) [of "i + 1"] Suc.hyps(2) Si lt False by simp
    ultimately show ?thesis using step ne by (simp add: aligned_iter_step) (simp add: on_part_def)
  qed
qed


text \<open>A range inside one block: both loops visit the single part.\<close>

lemma init_single:
  assumes D: "divide ops offset = (ab, br, apb)" "divide ops (offset + len) = (ape, er, ae)"
    and w: "apb = (if br = 0 then ab else ab + 1)" "ae = (if er = 0 then ape else ape + 1)"
    and single: "ab + 1 = ae" and len: "0 < len" "br = 0 \<Longrightarrow> er = 0 \<Longrightarrow> get_length ops ab = len"
  shows "parts_by_category ops (rs_init ops offset len) = [sr_assign ab br len]"
    and "all_parts ops (rs_init ops offset len) = [sr_assign ab br len]"
proof -
  have ape: "ape = (if er = 0 then ab + 1 else ab)" using w single by auto
  show "parts_by_category ops (rs_init ops offset len) = [sr_assign ab br len]"
    using D len unfolding ape w(1) single [symmetric]
    by (cases "br = 0"; cases "er = 0")
      (simp_all add: parts_by_category_def aligned_parts_def rs_init_def Let_def sr_bool_def
        sr_clear_def sr_assign_def)
  show "all_parts ops (rs_init ops offset len) = [sr_assign ab br len]"
    using D single unfolding all_parts_def
    by (subst all_iter.simps) (auto simp: rs_init_def Let_def sr_assign_def all_iter_end)
qed

text \<open>A range over several blocks.\<close>

lemma init_multi:
  assumes D: "divide ops offset = (ab, br, apb)" "divide ops (offset + len) = (ape, er, ae)"
    and w: "apb = (if br = 0 then ab else ab + 1)" "ae = (if er = 0 then ape else ape + 1)"
    and multi: "ab + 1 \<noteq> ae" and br: "br \<noteq> 0 \<longrightarrow> 0 < get_length ops ab - br"
  shows "rs_init ops offset len =
    \<lparr>rs_begin = offset, rs_end = offset + len, abegin = ab, aend = ae, apbegin = apb, apend = ape,
     begin_remainder = br, end_remainder = er, small_note = sr_assign 0 0 0,
     preface = (if br = 0 then sr_assign 0 0 0 else sr_assign ab br (get_length ops ab - br)),
     first_part = (if br = 0 then sr_assign apb 0 (get_length ops apb)
                   else sr_assign ab br (get_length ops ab - br)),
     postface = (if er = 0 then sr_assign 0 0 0 else sr_assign ape 0 er)\<rparr>"
  using assms by (auto simp: rs_init_def Let_def sr_bool_def sr_clear_def sr_assign_def)

lemma init_multi_category:
  assumes "divide ops offset = (ab, br, apb)" "divide ops (offset + len) = (ape, er, ae)"
    "apb = (if br = 0 then ab else ab + 1)" "ae = (if er = 0 then ape else ape + 1)"
    "ab + 1 \<noteq> ae" "br \<noteq> 0 \<longrightarrow> 0 < get_length ops ab - br"
  shows "parts_by_category ops (rs_init ops offset len) =
    (if br = 0 then [] else [sr_assign ab br (get_length ops ab - br)]) @
    aligned_iter ops apb ape @ (if er = 0 then [] else [sr_assign ape 0 er])"
  using init_multi [OF assms] assms(6)
  by (auto simp: parts_by_category_def aligned_parts_def sr_bool_def sr_assign_def word_neq_0_conv)

lemma init_multi_all:
  assumes D: "divide ops offset = (ab, br, apb)" "divide ops (offset + len) = (ape, er, ae)"
    and w: "apb = (if br = 0 then ab else ab + 1)" "ae = (if er = 0 then ape else ape + 1)"
    and multi: "ab + 1 \<noteq> ae" and br: "br \<noteq> 0 \<longrightarrow> 0 < get_length ops ab - br"
    and lt: "unat ab < unat ae" "unat (ab + 1) = Suc (unat ab)"
    and ape: "er \<noteq> 0 \<Longrightarrow> unat (ape + 1) = Suc (unat ape)"
  shows "all_parts ops (rs_init ops offset len) =
    (if br = 0 then [] else [sr_assign ab br (get_length ops ab - br)]) @
    aligned_iter ops apb ape @ (if er = 0 then [] else [sr_assign ape 0 er])"
proof -
  note I = init_multi [OF D w multi br]
  let ?rs = "rs_init ops offset len"
  have S: "Suc (unat ab) < unat ae" using lt multi by (metis Suc_lessI word_unat_eq_iff)
  have le: "Suc (unat ab) \<le> unat ape" using S w ape by (auto split: if_splits)
  then have nab: "ab \<noteq> ape" "ab \<noteq> ae" using lt(1) by auto
  have loop: "all_iter ops ?rs (on_part ops ape er i) =
      aligned_iter ops i ape @ (if er = 0 then [] else [sr_assign ape 0 er])"
    if "unat i \<le> unat ape" "i \<noteq> ae" for i
    using all_iter_on_part [of i ape ?rs er ops] that w by (auto simp: I sr_bool_def sr_assign_def)
  show ?thesis
  proof (cases "br = 0")
    case True
    then have "all_parts ops ?rs = all_iter ops ?rs (on_part ops ape er ab)"
      using nab(1) w by (simp add: all_parts_def I on_part_def)
    with loop [of ab] le nab True w show ?thesis by simp
  next
    case False
    have "all_next ops ?rs (first_part ?rs) = on_part ops ape er (ab + 1)"
      using all_next_on_part [of "first_part ?rs" ?rs er ape ops] multi w False
      by (auto simp: I sr_assign_def sr_bool_def)
    then have "all_parts ops ?rs =
        sr_assign ab br (get_length ops ab - br) # all_iter ops ?rs (on_part ops ape er (ab + 1))"
      using lt(1) False unfolding all_parts_def
      by (subst all_iter.simps) (auto simp: I sr_assign_def)
    with loop [of "ab + 1"] le lt(2) multi False w show ?thesis by simp
  qed
qed


text \<open>
  What the base class relies on: an increasing sequence of block boundaries \<open>bnd\<close>, and for
  every position up to \<open>lim p\<close> the block it lies in, its offset there, and the first boundary
  that is not before it.
\<close>

locale block_splitter =
  fixes ops :: "'p \<Rightarrow> splitter"
    and ok :: "'p \<Rightarrow> bool"
    and bnd :: "'p \<Rightarrow> nat \<Rightarrow> nat"
    and lim :: "'p \<Rightarrow> nat"
  assumes bnd_Suc: "ok p \<Longrightarrow> bnd p n < bnd p (Suc n)"
    and lim_less: "ok p \<Longrightarrow> lim p < 2 ^ 64"
    and divide_ok: "ok p \<Longrightarrow> unat x \<le> lim p \<Longrightarrow> divide (ops p) x = (d, r, u) \<Longrightarrow>
      bnd p (unat d) + unat r = unat x \<and> unat x < bnd p (Suc (unat d)) \<and>
      unat u = (if r = 0 then unat d else Suc (unat d))"
    and get_length_ok: "ok p \<Longrightarrow> bnd p (unat i) \<le> lim p \<Longrightarrow>
      unat (get_length (ops p) i) = bnd p (Suc (unat i)) - bnd p (unat i)"
begin

lemma bnd_less: "ok p \<Longrightarrow> m < n \<Longrightarrow> bnd p m < bnd p n"
  by (rule lift_Suc_mono_less [of "bnd p"]) (rule bnd_Suc)

lemma bnd_le: "ok p \<Longrightarrow> m \<le> n \<Longrightarrow> bnd p m \<le> bnd p n"
  by (metis bnd_less le_less order_refl)

lemma bnd_less_iff: "ok p \<Longrightarrow> bnd p m < bnd p n \<longleftrightarrow> m < n"
  by (meson bnd_le bnd_less not_less)

lemma aligned_iter_tiles:
  "ok p \<Longrightarrow> unat i \<le> unat e \<Longrightarrow> bnd p (unat e) \<le> lim p \<Longrightarrow>
    tiles (bnd p) (bnd p (unat i)) (bnd p (unat e)) (aligned_iter (ops p) i e)"
proof (induction "unat e - unat i" arbitrary: i)
  case 0
  then have "i = e" by (simp add: word_unat_eq_iff)
  then show ?case by simp
next
  case (Suc n)
  then have lt: "unat i < unat e" and ne: "i \<noteq> e" by auto
  have "bnd p (unat i) \<le> lim p" using bnd_less [OF Suc.prems(1) lt] Suc.prems(3) by simp
  then have "unat (get_length (ops p) i) = bnd p (Suc (unat i)) - bnd p (unat i)"
    by (rule get_length_ok [OF Suc.prems(1)])
  moreover have "tiles (bnd p) (bnd p (Suc (unat i))) (bnd p (unat e)) (aligned_iter (ops p) (i + 1) e)"
    using Suc.hyps(1) [of "i + 1"] Suc.hyps(2) Suc.prems unat_Suc_u64 [OF lt] lt by simp
  ultimately show ?case
    using bnd_Suc [OF Suc.prems(1), of "unat i"] by (simp add: aligned_iter_step [OF ne] sr_assign_def)
qed


text \<open>The facts on both ends of a non-empty range that every branch of \<open>init\<close> uses.\<close>

lemma begin_end_blocks:
  assumes "ok p" "bnd p ab \<le> x" "x < y" "y = bnd p ape + er" "y < bnd p (Suc ape)"
  shows "ab < (if er = 0 then ape else Suc ape)"
proof (cases "er = 0")
  case True
  with assms have "bnd p ab < bnd p ape" by simp
  with True show ?thesis using \<open>ok p\<close> by (simp add: bnd_less_iff)
next
  case False
  with assms have "bnd p ab < bnd p (Suc ape)" by simp
  with False show ?thesis using \<open>ok p\<close> by (simp add: bnd_less_iff)
qed

lemma split_ends:
  assumes ok: "ok p" and "0 < len" and no_wrap: "unat offset + unat len \<le> lim p"
  obtains ab br apb ape er ae where
    "divide (ops p) offset = (ab, br, apb)" "divide (ops p) (offset + len) = (ape, er, ae)"
    "bnd p (unat ab) + unat br = unat offset" "unat offset < bnd p (Suc (unat ab))"
    "bnd p (unat ape) + unat er = unat offset + unat len"
    "unat offset + unat len < bnd p (Suc (unat ape))"
    "unat ab < unat ae" "unat (ab + 1) = Suc (unat ab)"
    "apb = (if br = 0 then ab else ab + 1)" "ae = (if er = 0 then ape else ape + 1)"
    "er \<noteq> 0 \<Longrightarrow> unat (ape + 1) = Suc (unat ape)"
    "unat (get_length (ops p) ab) = bnd p (Suc (unat ab)) - bnd p (unat ab)"
proof -
  obtain ab br apb where D1: "divide (ops p) offset = (ab, br, apb)" by (metis prod_cases3)
  obtain ape er ae where D2: "divide (ops p) (offset + len) = (ape, er, ae)" by (metis prod_cases3)
  have un: "unat (offset + len) = unat offset + unat len"
    using no_wrap lim_less [OF ok] by (simp add: unat_add_u64)
  have pos: "0 < unat len" using assms(2) by (simp add: unat_gt_0)
  have le: "unat offset \<le> lim p" using no_wrap by simp
  note B = divide_ok [OF ok le D1] and E = divide_ok [OF ok _ D2, unfolded un, OF no_wrap]
  have "unat ab < (if unat er = 0 then unat ape else Suc (unat ape))"
    by (rule begin_end_blocks [OF ok, of _ "unat offset" "unat offset + unat len"])
      (use B E pos in linarith)+
  then have lt: "unat ab < unat ae" using E by (simp split: if_splits)
  have Sab: "unat (ab + 1) = Suc (unat ab)" using lt by (rule unat_Suc_u64)
  have Sape: "er \<noteq> 0 \<Longrightarrow> unat (ape + 1) = Suc (unat ape)"
    using E by (intro unat_Suc_u64 [of _ ae]) simp
  show ?thesis
  proof (rule that [OF D1 D2])
    show "unat (get_length (ops p) ab) = bnd p (Suc (unat ab)) - bnd p (unat ab)"
      using B le by (intro get_length_ok [OF ok]) linarith
  qed (use B E lt Sab Sape in \<open>auto simp: word_unat_eq_iff\<close>)
qed


lemma preface_positive:
  assumes "bnd p (unat ab) + unat br = unat offset" "unat offset < bnd p (Suc (unat ab))"
    and "unat (get_length (ops p) ab) = bnd p (Suc (unat ab)) - bnd p (unat ab)"
  shows "unat (get_length (ops p) ab - br) = bnd p (Suc (unat ab)) - unat offset"
    and "0 < get_length (ops p) ab - br"
proof -
  have "unat br < unat (get_length (ops p) ab)" using assms by linarith
  then have "unat (get_length (ops p) ab - br) = unat (get_length (ops p) ab) - unat br"
    by (simp add: unat_sub_u64 word_le_nat_alt)
  then show "unat (get_length (ops p) ab - br) = bnd p (Suc (unat ab)) - unat offset"
    using assms by linarith
  then show "0 < get_length (ops p) ab - br" using assms(2) by (simp add: word_less_nat_alt)
qed

theorem category_parts:
  assumes ok: "ok p" and ne: "0 < len" and nw: "unat offset + unat len \<le> lim p"
  shows "parts_by_category (ops p) (rs_init (ops p) offset len) = all_parts (ops p) (rs_init (ops p) offset len)"
proof (rule split_ends [OF ok ne nw])
  fix ab br apb ape er ae
  assume D: "divide (ops p) offset = (ab, br, apb)" "divide (ops p) (offset + len) = (ape, er, ae)"
    and b: "bnd p (unat ab) + unat br = unat offset" "unat offset < bnd p (Suc (unat ab))"
    and e: "bnd p (unat ape) + unat er = unat offset + unat len"
    and lt: "unat ab < unat ae" "unat (ab + 1) = Suc (unat ab)"
    and w: "apb = (if br = 0 then ab else ab + 1)" "ae = (if er = 0 then ape else ape + 1)"
    and ape: "er \<noteq> 0 \<Longrightarrow> unat (ape + 1) = Suc (unat ape)"
    and gl: "unat (get_length (ops p) ab) = bnd p (Suc (unat ab)) - bnd p (unat ab)"
  show ?thesis
  proof (cases "ab + 1 = ae")
    case True
    have "br = 0 \<Longrightarrow> er = 0 \<Longrightarrow> get_length (ops p) ab = len"
      using b e gl lt w True by (simp add: word_unat_eq_iff)
    then show ?thesis
      using init_single [OF D w True ne] by simp
  next
    case False
    then show ?thesis
      using init_multi_category [OF D w] init_multi_all [OF D w _ _ lt ape]
        preface_positive(2) [OF b gl] by simp
  qed
qed

theorem all_parts_tile:
  assumes ok: "ok p" and ne: "0 < len" and nw: "unat offset + unat len \<le> lim p"
  shows "tiles (bnd p) (unat offset) (unat offset + unat len) (all_parts (ops p) (rs_init (ops p) offset len))"
proof (rule split_ends [OF ok ne nw])
  fix ab br apb ape er ae
  assume D: "divide (ops p) offset = (ab, br, apb)" "divide (ops p) (offset + len) = (ape, er, ae)"
    and b: "bnd p (unat ab) + unat br = unat offset" "unat offset < bnd p (Suc (unat ab))"
    and e: "bnd p (unat ape) + unat er = unat offset + unat len"
      "unat offset + unat len < bnd p (Suc (unat ape))"
    and lt: "unat ab < unat ae" "unat (ab + 1) = Suc (unat ab)"
    and w: "apb = (if br = 0 then ab else ab + 1)" "ae = (if er = 0 then ape else ape + 1)"
    and ape: "er \<noteq> 0 \<Longrightarrow> unat (ape + 1) = Suc (unat ape)"
    and gl: "unat (get_length (ops p) ab) = bnd p (Suc (unat ab)) - bnd p (unat ab)"
  have pos: "0 < unat len" using ne by (simp add: unat_gt_0)
  show ?thesis
  proof (cases "ab + 1 = ae")
    case True
    have "br = 0 \<Longrightarrow> er = 0 \<Longrightarrow> get_length (ops p) ab = len"
      using b e gl lt w True by (simp add: word_unat_eq_iff)
    moreover have "unat offset + unat len \<le> bnd p (Suc (unat ab))"
      using e lt w True by (cases "er = 0") auto
    ultimately show ?thesis
      using init_single(2) [OF D w True ne] b pos by (simp add: sr_assign_def)
  next
    case False
    then have "Suc (unat ab) < unat ae" using lt by (metis Suc_lessI word_unat_eq_iff)
    then have "unat apb \<le> unat ape" using w lt(2) ape by (auto split: if_splits)
    moreover have "bnd p (unat ape) \<le> lim p" using e nw by linarith
    ultimately have mid: "tiles (bnd p) (bnd p (unat apb)) (bnd p (unat ape)) (aligned_iter (ops p) apb ape)"
      by (rule aligned_iter_tiles [OF ok])
    have pre: "tiles (bnd p) (unat offset) (bnd p (unat apb))
        (if br = 0 then [] else [sr_assign ab br (get_length (ops p) ab - br)])"
      using b w lt(2) preface_positive(1) [OF b gl] by (auto simp: sr_assign_def)
    have post: "tiles (bnd p) (bnd p (unat ape)) (unat offset + unat len)
        (if er = 0 then [] else [sr_assign ape 0 er])"
      using e by (auto simp: sr_assign_def unat_gt_0 word_neq_0_conv)
    show ?thesis
      using tiles_append [OF pre tiles_append [OF mid post]] False
        init_multi_all [OF D w _ _ lt ape] preface_positive(2) [OF b gl] by simp
  qed
qed


end

subsection \<open>The three splitters keep the contract\<close>

lemma fixed_divide_ok:
  assumes v: "0 < (v :: u64)" and x: "unat x \<le> 2 ^ 64 - unat v"
  shows "unat ((x + v - 1) div v) = (if x mod v = 0 then unat x div unat v else Suc (unat x div unat v))"
proof -
  have v0: "0 < unat v" using v by (simp add: unat_gt_0)
  have vm: "unat (v - 1) = unat v - 1" using v by (intro unat_minus_one) auto
  have "unat x \<le> 18446744073709551616 - unat v" using x by simp
  then have "unat x + unat (v - 1) < 18446744073709551616"
    using vm v0 unat_u64_less [of v] by linarith
  then have "unat (x + (v - 1)) = unat x + (unat v - 1)"
    using vm by (simp add: unat_add_u64)
  then have "unat ((x + v - 1) div v) = (unat x + (unat v - 1)) div unat v"
    by (simp add: unat_div_distrib algebra_simps)
  then show ?thesis
    by (simp add: div_round_up [OF v0] word_unat_eq_iff unat_mod_distrib)
qed

interpretation fx: block_splitter fixed_ops "\<lambda>v. 0 < v" "\<lambda>v n. n * unat v" "\<lambda>v. 2 ^ 64 - unat v"
proof (unfold_locales, goal_cases)
  case (1 v n)
  then show ?case by (simp add: unat_gt_0)
next
  case (2 v)
  then show ?case by (simp add: unat_gt_0)
next
  case (3 v x d r u)
  then have v0: "0 < unat v" by (simp add: unat_gt_0)
  from 3 have "d = x div v" "r = x mod v" "u = (x + v - 1) div v"
    by (auto simp: fixed_ops_def)
  with 3 v0 show ?case
    using fixed_divide_ok [of v x] dividend_less_div_times [OF v0, of "unat x"]
    by (simp add: unat_div_distrib unat_mod_distrib)
next
  case (4 v i)
  then show ?case by (simp add: fixed_ops_def)
qed


lemma nat_power2_test: "0 < n \<Longrightarrow> n AND (n - 1) = 0 \<Longrightarrow> \<exists>k. n = 2 ^ k" for n :: nat
proof (induction n rule: less_induct)
  case (less n)
  show ?case
  proof (cases "odd n")
    case True
    then obtain h where h: "n = 2 * h + 1" by (rule oddE)
    then have "n AND (n - 1) = 2 * h" by (subst and_rec) simp
    with less.prems h have "n = 2 ^ 0" by simp
    then show ?thesis by blast
  next
    case False
    then obtain h where h: "n = 2 * h" by blast
    then have "0 < h" "h < n" using less.prems by auto
    have "(n - 1) div 2 = h - 1" using h \<open>0 < h\<close> by simp
    then have "n AND (n - 1) = 2 * (h AND (h - 1))" using h by (subst and_rec) simp
    then have "h AND (h - 1) = 0" using less.prems by simp
    with less.IH \<open>0 < h\<close> \<open>h < n\<close> obtain k where "h = 2 ^ k" by blast
    then have "n = 2 ^ Suc k" using h by simp
    then show ?thesis by blast
  qed
qed

lemma word_power2_test:
  assumes "0 < (v :: u64)" and "v AND (v - 1) = 0"
  obtains k where "k < 64" "v = 2 ^ k"
proof -
  have "unat (v - 1) = unat v - 1" using assms(1) by (intro unat_minus_one) auto
  then have "unat v AND (unat v - 1) = 0"
    using assms(2) by (metis unsigned_0 unsigned_and_eq)
  moreover have "0 < unat v" using assms(1) by (simp add: unat_gt_0)
  ultimately obtain k where k: "unat v = 2 ^ k" using nat_power2_test by blast
  then have lt: "(2::nat) ^ k < 2 ^ 64" using unat_u64_less [of v] by simp
  then have "k < 64" by (rule power_less_imp_less_exp [rotated]) simp
  moreover have "v = of_nat (unat v)" by simp
  then have "v = 2 ^ k" unfolding k by simp
  ultimately show ?thesis by (rule that)
qed

lemma filter_eq_upt: "k < n \<Longrightarrow> filter (\<lambda>i. i = k) [0..<n] = [k]"
  by (induction n) (auto simp: less_Suc_eq filter_empty_conv)

lemma builtin_ffsl_power2: "k < 64 \<Longrightarrow> builtin_ffsl (2 ^ k) = Suc k"
proof -
  assume k: "k < 64"
  have "filter (bit (2 ^ k :: u64)) [0..<64] = filter (\<lambda>i. i = k) [0..<64]"
    using k by (intro filter_cong) (auto simp: bit_simps)
  also have "\<dots> = [k]" using k by (rule filter_eq_upt)
  finally show ?thesis by (simp add: builtin_ffsl_def)
qed

lemma power2_ops_fixed:
  assumes "k < 64"
  shows "power2_ops (2 ^ k) = fixed_ops (2 ^ k)"
proof -
  have m: "x + 2 ^ k - 1 = x + mask k" for x :: u64
    by (simp add: mask_eq_exp_minus_1)
  show ?thesis
    using assms unfolding power2_ops_def fixed_ops_def
    by (simp add: Let_def builtin_ffsl_power2 drop_bit_eq_div push_bit_eq_mult m
        mask_eq_exp_minus_1 [symmetric] take_bit_eq_mask [symmetric] take_bit_eq_mod)
qed

definition vi_ok :: "u64 list \<Rightarrow> bool" where
  "vi_ok ks \<longleftrightarrow> 3 \<le> length ks \<and> ks ! 0 = 0 \<and> ks ! (length ks - 1) = - 1 \<and> ascending ks"

text \<open>The block boundaries of a key point array, continued arbitrarily past its end.\<close>

definition vi_bnd :: "u64 list \<Rightarrow> nat \<Rightarrow> nat" where
  "vi_bnd ks n = (if n < length ks then unat (ks ! n) else 2 ^ 64 + n)"

lemma vi_step: "vi_ok ks \<Longrightarrow> Suc n < length ks \<Longrightarrow> ks ! n < ks ! Suc n"
  unfolding vi_ok_def ascending_def list_all_iff by (metis One_nat_def Suc_leI atLeastLessThan_iff diff_Suc_1 not_less set_upt zero_less_Suc)

lemma vi_bnd_Suc: "vi_ok ks \<Longrightarrow> vi_bnd ks n < vi_bnd ks (Suc n)"
  using vi_step [of ks n] trans_less_add1 [OF unat_u64_less [of "ks ! n"], of "Suc n"]
  by (auto simp: vi_bnd_def word_less_nat_alt)

lemma vi_bnd_last: "vi_ok ks \<Longrightarrow> vi_bnd ks (length ks - Suc 0) = 2 ^ 64 - 1"
  by (auto simp: vi_bnd_def vi_ok_def unsigned_minus_1_eq_mask mask_eq_exp_minus_1)

lemma vi_length: "vi_ok ks \<Longrightarrow> length ks \<le> 2 ^ 64"
proof -
  assume ok: "vi_ok ks"
  have "vi_bnd ks m < vi_bnd ks n" if "m < n" for m n
    using that by (rule lift_Suc_mono_less [of "vi_bnd ks", rotated]) (rule vi_bnd_Suc [OF ok])
  then have "ks ! m \<noteq> ks ! n" if "m < n" "n < length ks" for m n
    using that by (metis vi_bnd_def less_irrefl less_trans)
  then have "distinct ks"
    by (metis distinct_conv_nth nat_neq_iff)
  then have "length ks = card (set ks)" by (simp add: distinct_card)
  also have "\<dots> \<le> card (UNIV :: u64 set)" by (rule card_mono) auto
  finally show ?thesis by (simp add: card_word)
qed

lemma upper_bound_ok:
  assumes ok: "vi_ok ks" and x: "unat x \<le> 2 ^ 64 - 2"
  defines "i \<equiv> upper_bound ks x"
  shows "0 < i" and "i < length ks" and "ks ! (i - 1) \<le> x" and "x < ks ! i"
proof -
  have ne: "ks \<noteq> []" and k0: "ks ! 0 = 0" using ok by (auto simp: vi_ok_def)
  then have "hd ks \<le> x" by (simp add: hd_conv_nth)
  then show pos: "0 < i" using ne by (cases ks) (auto simp: i_def upper_bound_def)
  have "ks ! (length ks - 1) = - 1" using ok by (simp add: vi_ok_def)
  moreover have "x < - 1"
    using x by (simp add: word_less_nat_alt unsigned_minus_1_eq_mask mask_eq_exp_minus_1)
  ultimately have "\<exists>k \<in> set ks. \<not> k \<le> x"
    using ne by (metis last_conv_nth last_in_set not_less)
  then show lt: "i < length ks"
    unfolding i_def upper_bound_def by (metis le_neq_implies_less length_takeWhile_le takeWhile_eq_all_conv takeWhile_eq_take take_all_iff order_refl)
  show "x < ks ! i"
    using lt unfolding i_def upper_bound_def by (metis (no_types, lifting) nth_length_takeWhile not_less)
  have "takeWhile (\<lambda>k. k \<le> x) ks ! (i - 1) \<le> x"
    using pos unfolding i_def upper_bound_def by (metis (mono_tags, lifting) diff_less less_one nth_mem set_takeWhileD)
  then show "ks ! (i - 1) \<le> x"
    using pos unfolding i_def upper_bound_def by (simp add: takeWhile_nth)
qed

interpretation vi: block_splitter vi_ops vi_ok vi_bnd "\<lambda>_. 2 ^ 64 - 2"
proof (unfold_locales, goal_cases)
  case (1 ks n)
  then show ?case by (rule vi_bnd_Suc)
next
  case 2
  then show ?case by simp
next
  case (3 ks x d r u)
  define i where "i = upper_bound ks x"
  note ub = upper_bound_ok [OF 3(1,2), folded i_def]
  have i: "i < 2 ^ 64" using ub(2) vi_length [OF 3(1)] by simp
  then have d: "unat (of_nat i - 1 :: u64) = i - 1" and ui: "unat (of_nat i :: u64) = i"
    using ub(1) by (simp_all add: unat_of_nat_u64 unat_minus_one word_unat_eq_iff)
  have "d = of_nat i - 1" "r = x - ks ! (i - 1)" "u = (if r = 0 then d else of_nat i)"
    using 3(3) by (auto simp: vi_ops_def Let_def i_def word_neq_0_conv)
  moreover from this have "unat r = unat x - unat (ks ! (i - 1))"
    using ub(3) by (simp add: unat_sub_u64)
  moreover have "i - 1 < length ks" using ub(2) by simp
  ultimately show ?case
    using ub d ui by (simp add: vi_bnd_def word_le_nat_alt word_less_nat_alt)
next
  case (4 ks i)
  then have "vi_bnd ks (unat i) < vi_bnd ks (length ks - 1)"
    by (simp add: vi_bnd_last)
  then have "unat i < length ks - 1"
    using vi_bnd_Suc [OF 4(1)] by (metis lift_Suc_mono_le not_less less_imp_le)
  then have lt: "Suc (unat i) < length ks" by simp
  then show ?case
    using less_imp_le [OF vi_step [OF 4(1) lt]]
    by (simp add: vi_ops_def vi_bnd_def unat_sub_u64)
qed


subsection \<open>Properties\<close>

text \<open>C10: For every non-empty range that ends at most one interval below 2^64, the loop over
  \<open>all_parts\<close> of a fixed-interval split visits non-empty parts that lie inside their blocks and
  cover exactly the bytes from \<open>offset\<close> to \<open>offset + length\<close>, in order and without overlap.\<close>

theorem range_split_tiles:
  assumes "0 < interval" and "0 < len" and "unat offset + unat len \<le> 2 ^ 64 - unat interval"
  shows "tiles (\<lambda>n. n * unat interval) (unat offset) (unat offset + unat len)
    (all_parts (fixed_ops interval) (range_split offset len interval))"
  unfolding range_split_def using assms by (rule fx.all_parts_tile)

theorem range_split_tiles_witness:
  "tiles (\<lambda>n. n * unat (32 :: u64)) (unat (100 :: u64)) (unat (100 :: u64) + unat (36 :: u64))
    (all_parts (fixed_ops 32) (range_split 100 36 32))"
  by (rule range_split_tiles) simp_all



text \<open>C12: Whenever the power-of-two constructor accepts its interval, its shift-and-mask
  arithmetic computes the same split, and visits the same parts, as the division-based
  \<open>range_split\<close> of the same interval, for every offset and length.\<close>

theorem range_split_power2_equiv:
  assumes "range_split_power2 offset len interval = Some rs"
  shows "rs = range_split offset len interval \<and>
    all_parts (power2_ops interval) rs = all_parts (fixed_ops interval) rs \<and>
    aligned_parts (power2_ops interval) rs = aligned_parts (fixed_ops interval) rs"
proof -
  from assms have ok: "0 < interval" "interval AND (interval - 1) = 0"
    and rs: "rs = rs_init (power2_ops interval) offset len"
    by (auto simp: range_split_power2_def Let_def split: if_splits)
  from ok obtain k where "k < 64" "interval = 2 ^ k" by (rule word_power2_test)
  then have "power2_ops interval = fixed_ops interval" by (simp add: power2_ops_fixed)
  with rs show ?thesis by (simp add: range_split_def)
qed

theorem range_split_power2_equiv_witness:
  "\<exists>rs. range_split_power2 100 36 32 = Some rs \<and> rs = range_split 100 36 32"
proof -
  have "range_split_power2 100 36 32 = Some (rs_init (power2_ops 32) 100 36)"
    by (simp add: range_split_power2_def)
  with range_split_power2_equiv [OF this] show ?thesis by blast
qed

text \<open>C13: A variable-interval split of a non-empty range that ends below UINT64_MAX visits parts
  that lie inside the blocks between consecutive key points and cover exactly the range.\<close>

theorem range_split_vi_tiles:
  assumes "range_split_vi offset len key_points = Some rs"
    and "0 < len" and "unat offset + unat len \<le> 2 ^ 64 - 2"
  shows "tiles (vi_bnd key_points) (unat offset) (unat offset + unat len)
    (all_parts (vi_ops key_points) rs)"
proof -
  from assms(1) have "vi_ok key_points" and "rs = rs_init (vi_ops key_points) offset len"
    by (auto simp: range_split_vi_def Let_def vi_ok_def split: if_splits)
  with assms(2,3) show ?thesis using vi.all_parts_tile by simp
qed

theorem range_split_vi_tiles_witness:
  "\<exists>rs. range_split_vi 5 30 [0, 10, 100, - 1] = Some rs \<and>
    tiles (vi_bnd [0, 10, 100, - 1]) (unat (5 :: u64)) (unat (5 :: u64) + unat (30 :: u64))
      (all_parts (vi_ops [0, 10, 100, - 1]) rs)"
proof -
  have "range_split_vi 5 30 [0, 10, 100, - 1] = Some (rs_init (vi_ops [0, 10, 100, - 1]) 5 30)"
    by (simp add: range_split_vi_def ascending_def upt_rec word_le_nat_alt
        unsigned_minus_1_eq_mask mask_eq_exp_minus_1)
  with range_split_vi_tiles [OF this] show ?thesis by fastforce
qed

text \<open>On an empty range at an unaligned offset the small note is empty, so its guard in
  \<open>aligned_parts\<close> does not apply and the loop runs from \<open>apbegin\<close> upwards through the
  whole 64-bit index space to \<open>apend = apbegin - 1\<close>: it visits 2^64 - 1 sub-ranges instead of none.\<close>

theorem aligned_parts_empty_range_runs_away:
  assumes "1 < interval" and "offset mod interval \<noteq> 0" and "unat offset \<le> 2 ^ 64 - unat interval"
  shows "length (aligned_parts (fixed_ops interval) (range_split offset 0 interval)) = 2 ^ 64 - 1"
proof -
  have v: "0 < interval" using assms(1) by (rule order_less_trans [rotated]) simp
  let ?d = "offset div interval"
  have up: "unat ((offset + interval - 1) div interval) = Suc (unat ?d)"
    using fixed_divide_ok [OF v assms(3)] assms(2) by (simp add: unat_div_distrib)
  then have up: "(offset + interval - 1) div interval = ?d + 1"
    using unat_Suc_u64 [of ?d "(offset + interval - 1) div interval"]
    by (simp add: word_unat_eq_iff)
  let ?rs = "range_split offset 0 interval"
  have "apbegin ?rs = ?d + 1" and "apend ?rs = ?d" and "sr_length (small_note ?rs) = 0"
    using up assms(2)
    by (auto simp: range_split_def rs_init_def fixed_ops_def Let_def sr_assign_def sr_clear_def)
  then show ?thesis
    by (simp add: aligned_parts_def sr_bool_def length_aligned_iter
        unsigned_minus_1_eq_mask mask_eq_exp_minus_1)
qed

theorem aligned_parts_empty_range_runs_away_witness:
  "length (aligned_parts (fixed_ops 32) (range_split 5 0 32)) = 2 ^ 64 - 1"
  by (rule aligned_parts_empty_range_runs_away) simp_all

end
