(* ===== verification/Intrusive_List.thy ===== *)
theory Intrusive_List
  imports Prelude
begin

text \<open>
  The intrusive doubly linked ring of src/common/intrusive_list.h, on which every queue of
  the scheduler is built.  The memory is an explicit store of the two pointers of each node,
  \<open>__next_ptr\<close> and \<open>__prev_ptr\<close>; every operation is the sequence of pointer writes of the code.
  The refinement relates a ring of nodes to the list of its elements.
\<close>

subsection \<open>Nodes\<close>

record 'n links =
  next_ptr :: "'n \<Rightarrow> 'n"
  prev_ptr :: "'n \<Rightarrow> 'n"

definition set_next :: "'n \<Rightarrow> 'n \<Rightarrow> 'n links \<Rightarrow> 'n links" where
  "set_next a b h = h\<lparr>next_ptr := (next_ptr h)(a := b)\<rparr>"

definition set_prev :: "'n \<Rightarrow> 'n \<Rightarrow> 'n links \<Rightarrow> 'n links" where
  "set_prev a b h = h\<lparr>prev_ptr := (prev_ptr h)(a := b)\<rparr>"

text \<open>The constructor of a node links it to itself.\<close>

definition node_init :: "'n \<Rightarrow> 'n links \<Rightarrow> 'n links" where
  "node_init this h = set_prev this this (set_next this this h)"

definition single :: "'n links \<Rightarrow> 'n \<Rightarrow> bool" where
  "single h this \<longleftrightarrow> prev_ptr h this = this \<or> next_ptr h this = this"

definition remove_from_list :: "'n \<Rightarrow> 'n links \<Rightarrow> 'n links \<times> 'n option" where
  "remove_from_list this h =
     (if single h this then (h, None)
      else
        (let h1 = set_prev (next_ptr h this) (prev_ptr h this) h;
             h2 = set_next (prev_ptr h1 this) (next_ptr h1 this) h1;
             nxt = next_ptr h2 this;
             h3 = set_prev this this (set_next this this h2)
         in (h3, Some nxt)))"

definition insert_between :: "'n \<Rightarrow> 'n \<Rightarrow> 'n \<Rightarrow> 'n links \<Rightarrow> 'n links" where
  "insert_between this prv nxt h =
     (if \<not> single h this then h
      else set_next this nxt (set_prev this prv (set_prev nxt this (set_next prv this h))))"

definition insert_list_between :: "'n \<Rightarrow> 'n \<Rightarrow> 'n \<Rightarrow> 'n links \<Rightarrow> 'n links" where
  "insert_list_between this prv nxt h =
     (let a = this; b = prev_ptr h this
      in set_next b nxt (set_prev nxt b (set_prev a prv (set_next prv a h))))"

definition insert_before :: "'n \<Rightarrow> 'n \<Rightarrow> 'n links \<Rightarrow> 'n links" where
  "insert_before this ptr h = insert_between ptr (prev_ptr h this) this h"

definition insert_tail :: "'n \<Rightarrow> 'n \<Rightarrow> 'n links \<Rightarrow> 'n links" where
  "insert_tail this ptr h = insert_before this ptr h"

definition insert_after :: "'n \<Rightarrow> 'n \<Rightarrow> 'n links \<Rightarrow> 'n links" where
  "insert_after this ptr h = insert_between ptr this (next_ptr h this) h"

definition insert_list_before :: "'n \<Rightarrow> 'n \<Rightarrow> 'n links \<Rightarrow> 'n links" where
  "insert_list_before this ptr h = insert_list_between ptr (prev_ptr h this) this h"

definition insert_list_tail :: "'n \<Rightarrow> 'n \<Rightarrow> 'n links \<Rightarrow> 'n links" where
  "insert_list_tail this ptr h = insert_list_before this ptr h"

definition insert_list_after :: "'n \<Rightarrow> 'n \<Rightarrow> 'n links \<Rightarrow> 'n links" where
  "insert_list_after this ptr h = insert_list_between ptr this (next_ptr h this) h"

text \<open>\<open>split\<close> asserts that the nodes differ and that the ring has more than one node.\<close>

definition split_ring :: "'n \<Rightarrow> 'n \<Rightarrow> 'n links \<Rightarrow> 'n links option" where
  "split_ring this ptr h =
     (if ptr = this \<or> single h this then None
      else
        (let front_head = this; front_tail = prev_ptr h ptr;
             back_head = ptr; back_tail = prev_ptr h this
         in Some (set_next back_tail back_head (set_prev back_head back_tail
              (set_next front_tail front_head (set_prev front_head front_tail h))))))"

subsection \<open>Iteration\<close>

text \<open>
  The iterator advances along \<open>__next_ptr\<close> and becomes null when it meets its \<open>end\<close>.
  On a broken ring the loop need not stop, so its result is optional.
\<close>

partial_function (option) iterate :: "'n links \<Rightarrow> 'n \<Rightarrow> 'n \<Rightarrow> 'n list option" where
  "iterate h ptr end =
     (let nxt = next_ptr h ptr
      in if nxt = end then Some [ptr]
         else Option.bind (iterate h nxt end) (\<lambda>xs. Some (ptr # xs)))"

partial_function (option) riterate :: "'n links \<Rightarrow> 'n \<Rightarrow> 'n \<Rightarrow> 'n list option" where
  "riterate h ptr end =
     (let prv = prev_ptr h ptr
      in if prv = end then Some [ptr]
         else Option.bind (riterate h prv end) (\<lambda>xs. Some (ptr # xs)))"

subsection \<open>The list class\<close>

text \<open>An \<open>intrusive_list\<close> is the pointer \<open>node\<close> to its first element, or null.\<close>

type_synonym 'n ilist = "'n option"

definition push_back :: "'n \<Rightarrow> 'n links \<times> 'n ilist \<Rightarrow> 'n links \<times> 'n ilist" where
  "push_back ptr s =
     (case s of (h, None) \<Rightarrow> (h, Some ptr) | (h, Some node) \<Rightarrow> (insert_tail node ptr h, Some node))"

text \<open>
  Appending a list; with a non-empty target the code dereferences the first node of the
  appended list, which must therefore not be null.
\<close>

definition push_back_list :: "'n ilist \<Rightarrow> 'n links \<times> 'n ilist \<Rightarrow> ('n links \<times> 'n ilist) option" where
  "push_back_list lst s =
     (case s of
        (h, None) \<Rightarrow> Some (h, lst)
      | (h, Some node) \<Rightarrow>
          map_option (\<lambda>l. (insert_list_tail node l h, Some node)) lst)"

definition push_front :: "'n \<Rightarrow> 'n links \<times> 'n ilist \<Rightarrow> 'n links \<times> 'n ilist" where
  "push_front ptr s =
     (case s of (h, None) \<Rightarrow> (h, Some ptr) | (h, Some node) \<Rightarrow> (insert_before node ptr h, Some ptr))"

definition pop_front :: "'n links \<times> 'n ilist \<Rightarrow> ('n links \<times> 'n ilist) \<times> 'n option" where
  "pop_front s =
     (case s of (h, None) \<Rightarrow> (s, None)
      | (h, Some node) \<Rightarrow> (let (h', nx) = remove_from_list node h in ((h', nx), Some node)))"

definition pop_back :: "'n links \<times> 'n ilist \<Rightarrow> ('n links \<times> 'n ilist) \<times> 'n option" where
  "pop_back s =
     (case s of (h, None) \<Rightarrow> (s, None)
      | (h, Some node) \<Rightarrow>
          (let rst = prev_ptr h node
           in if rst = node then ((h, None), Some rst)
              else ((fst (remove_from_list rst h), Some node), Some rst)))"

definition erase :: "'n \<Rightarrow> 'n links \<times> 'n ilist \<Rightarrow> ('n links \<times> 'n ilist) \<times> 'n option" where
  "erase ptr s =
     (case s of (h, node) \<Rightarrow>
        (let (h', nx) = remove_from_list ptr h
         in ((h', if node = Some ptr then nx else node), nx)))"

definition front_node :: "'n links \<times> 'n ilist \<Rightarrow> 'n option" where
  "front_node s = snd s"

definition back_node :: "'n links \<times> 'n ilist \<Rightarrow> 'n option" where
  "back_node s = (case s of (h, None) \<Rightarrow> None | (h, Some node) \<Rightarrow> Some (prev_ptr h node))"

definition is_empty :: "'n links \<times> 'n ilist \<Rightarrow> bool" where
  "is_empty s \<longleftrightarrow> snd s = None"

definition elements :: "'n links \<times> 'n ilist \<Rightarrow> 'n list option" where
  "elements s = (case s of (h, None) \<Rightarrow> Some [] | (h, Some node) \<Rightarrow> iterate h node node)"

definition relements :: "'n links \<times> 'n ilist \<Rightarrow> 'n list option" where
  "relements s = (case s of (h, None) \<Rightarrow> Some []
     | (h, Some node) \<Rightarrow> riterate h (prev_ptr h node) (prev_ptr h node))"

definition contains :: "'n \<Rightarrow> 'n links \<times> 'n ilist \<Rightarrow> bool option" where
  "contains x s = map_option (\<lambda>xs. x \<in> set xs) (elements s)"

definition count_by_loop :: "'n links \<times> 'n ilist \<Rightarrow> nat option" where
  "count_by_loop s = map_option length (elements s)"

text \<open>The splitting operations return the remaining list and the list that was split off.\<close>

definition split_front_inclusive ::
    "'n option \<Rightarrow> 'n links \<times> 'n ilist \<Rightarrow> ('n links \<times> 'n ilist \<times> 'n ilist) option" where
  "split_front_inclusive ptr s =
     (case s of (h, node) \<Rightarrow>
        (case (node, ptr) of
           (Some n, Some p) \<Rightarrow>
             (if next_ptr h p = n then Some (h, None, node)
              else (let rest_head = next_ptr h p
                    in map_option (\<lambda>h'. (h', Some rest_head, node)) (split_ring n rest_head h)))
         | _ \<Rightarrow> Some (h, node, None)))"

definition split_front_exclusive ::
    "'n option \<Rightarrow> 'n links \<times> 'n ilist \<Rightarrow> ('n links \<times> 'n ilist \<times> 'n ilist) option" where
  "split_front_exclusive ptr s =
     (case s of (h, node) \<Rightarrow>
        (case ptr of
           None \<Rightarrow> Some (h, None, node)
         | Some p \<Rightarrow>
             (case node of
                None \<Rightarrow> Some (h, node, None)
              | Some n \<Rightarrow>
                  (if p = n then Some (h, node, None)
                   else map_option (\<lambda>h'. (h', Some p, node)) (split_ring n p h)))))"

definition split_by_predicate ::
    "('n \<Rightarrow> bool) \<Rightarrow> 'n links \<times> 'n ilist \<Rightarrow> ('n links \<times> 'n ilist \<times> 'n ilist) option" where
  "split_by_predicate pred s =
     (case s of (h, None) \<Rightarrow> Some (h, None, None)
      | (h, Some node) \<Rightarrow>
          Option.bind (elements s)
            (\<lambda>xs. split_front_exclusive (find (\<lambda>x. \<not> pred x) xs) s))"

text \<open>The round-robin operations dereference \<open>node\<close>, so they need a non-empty list.\<close>

definition round_robin_next :: "'n links \<times> 'n ilist \<Rightarrow> (('n links \<times> 'n ilist) \<times> 'n) option" where
  "round_robin_next s =
     (case s of (h, None) \<Rightarrow> None | (h, Some node) \<Rightarrow> Some ((h, Some (next_ptr h node)), node))"

definition round_robin_prev :: "'n links \<times> 'n ilist \<Rightarrow> (('n links \<times> 'n ilist) \<times> 'n) option" where
  "round_robin_prev s =
     (case s of (h, None) \<Rightarrow> None | (h, Some node) \<Rightarrow> Some ((h, Some (prev_ptr h node)), node))"


definition delete_all :: "'n links \<times> 'n ilist \<Rightarrow> (('n links \<times> 'n ilist) \<times> 'n list) option" where
  "delete_all s = map_option (\<lambda>xs. ((fst s, None), xs)) (elements s)"

subsection \<open>Rings\<close>

named_theorems link_simps \<open>pointer reads after pointer writes\<close>

lemma next_set_next [link_simps]: "next_ptr (set_next a b h) x = (if x = a then b else next_ptr h x)"
  by (simp add: set_next_def)

lemma next_set_prev [link_simps]: "next_ptr (set_prev a b h) = next_ptr h"
  by (simp add: set_prev_def)

lemma prev_set_prev [link_simps]: "prev_ptr (set_prev a b h) x = (if x = a then b else prev_ptr h x)"
  by (simp add: set_prev_def)

lemma prev_set_next [link_simps]: "prev_ptr (set_next a b h) = prev_ptr h"
  by (simp add: set_next_def)

text \<open>\<open>seg h xs\<close>: consecutive elements of \<open>xs\<close> point to each other.\<close>

fun seg :: "'n links \<Rightarrow> 'n list \<Rightarrow> bool" where
  "seg h (x # y # xs) \<longleftrightarrow> next_ptr h x = y \<and> prev_ptr h y = x \<and> seg h (y # xs)"
| "seg h _ \<longleftrightarrow> True"

definition ring :: "'n links \<Rightarrow> 'n list \<Rightarrow> bool" where
  "ring h xs \<longleftrightarrow> xs \<noteq> [] \<and> distinct xs \<and> seg h xs \<and>
     next_ptr h (last xs) = hd xs \<and> prev_ptr h (hd xs) = last xs"

lemma seg_append:
  "seg h (xs @ ys) \<longleftrightarrow> seg h xs \<and> seg h ys \<and>
     (xs \<noteq> [] \<and> ys \<noteq> [] \<longrightarrow> next_ptr h (last xs) = hd ys \<and> prev_ptr h (hd ys) = last xs)"
proof (induction xs rule: induct_list012)
  case (2 x)
  then show ?case by (cases ys) auto
qed auto

lemma seg_cong:
  assumes "\<And>x. x \<in> set (butlast xs) \<Longrightarrow> next_ptr h' x = next_ptr h x"
    and "\<And>x. x \<in> set (tl xs) \<Longrightarrow> prev_ptr h' x = prev_ptr h x"
  shows "seg h' xs = seg h xs"
  using assms by (induction h xs rule: seg.induct) auto

lemma ring_cong:
  assumes "\<And>x. x \<in> set xs \<Longrightarrow> next_ptr h' x = next_ptr h x \<and> prev_ptr h' x = prev_ptr h x"
  shows "ring h' xs = ring h xs"
proof (cases "xs = []")
  case False
  then have "hd xs \<in> set xs" "last xs \<in> set xs" by auto
  moreover have "seg h' xs = seg h xs"
    using assms by (intro seg_cong) (auto dest: in_set_butlastD in_set_tlD)
  ultimately show ?thesis using assms by (simp add: ring_def)
qed (simp add: ring_def)

lemma ring_rotate: "ring h (xs @ ys) = ring h (ys @ xs)"
  by (cases "xs = []"; cases "ys = []") (auto simp: ring_def seg_append)

lemma ring_singleton: "ring h [x] \<longleftrightarrow> next_ptr h x = x \<and> prev_ptr h x = x"
  by (auto simp: ring_def)

lemma ring_single_iff: "ring h (x # xs) \<Longrightarrow> single h x \<longleftrightarrow> xs = []"
  by (cases xs) (auto simp: ring_def single_def split: if_splits)

lemma ring_next: "ring h (x # xs) \<Longrightarrow> next_ptr h x = hd (xs @ [x])"
  by (cases xs) (auto simp: ring_def)

lemma ring_prev: "ring h (x # xs) \<Longrightarrow> prev_ptr h x = last (x # xs)"
  by (auto simp: ring_def)

text \<open>A write to the link out of the last node or into the first one keeps the inner links.\<close>

lemma seg_update:
  assumes "distinct xs" "seg h xs"
    and "\<And>z. z \<in> set xs \<Longrightarrow> z \<noteq> last xs \<Longrightarrow> next_ptr h' z = next_ptr h z"
    and "\<And>z. z \<in> set xs \<Longrightarrow> z \<noteq> hd xs \<Longrightarrow> prev_ptr h' z = prev_ptr h z"
  shows "seg h' xs"
proof -
  have "seg h' xs = seg h xs"
    using assms(3,4) distinct_last_butlast [OF assms(1)] distinct_hd_tl [OF assms(1)]
    by (intro seg_cong) (metis in_set_butlastD in_set_tlD)+
  with assms(2) show ?thesis by simp
qed

lemma ringD:
  assumes "ring h xs"
  shows "xs \<noteq> []" "distinct xs" "seg h xs" "next_ptr h (last xs) = hd xs"
    "prev_ptr h (hd xs) = last xs" "hd xs \<in> set xs" "last xs \<in> set xs"
  using assms by (auto simp: ring_def)

text \<open>\<open>frame h h' A\<close>: only the links of nodes in \<open>A\<close> were written.\<close>

definition frame :: "'n links \<Rightarrow> 'n links \<Rightarrow> 'n set \<Rightarrow> bool" where
  "frame h h' A \<longleftrightarrow> (\<forall>z. z \<notin> A \<longrightarrow> next_ptr h' z = next_ptr h z \<and> prev_ptr h' z = prev_ptr h z)"

lemma ring_frame: "frame h h' A \<Longrightarrow> set xs \<inter> A = {} \<Longrightarrow> ring h' xs = ring h xs"
  unfolding frame_def by (rule ring_cong) blast

lemma ring_remove:
  assumes "ring h (x # xs)" and "xs \<noteq> []"
  shows "snd (remove_from_list x h) = Some (hd xs)"
    and "ring (fst (remove_from_list x h)) xs" and "ring (fst (remove_from_list x h)) [x]"
    and "frame h (fst (remove_from_list x h)) (set (x # xs))"
proof -
  have R: "next_ptr h x = hd xs" "prev_ptr h x = last xs" "x \<notin> set xs" "distinct xs" "seg h xs"
    "hd xs \<in> set xs" "last xs \<in> set xs" "\<not> single h x"
    using assms ring_single_iff [OF assms(1)] by (auto simp: ring_def neq_Nil_conv)
  let ?h = "fst (remove_from_list x h)"
  have N: "next_ptr ?h z = (if z = x then x else if z = last xs then hd xs else next_ptr h z)"
    and P: "prev_ptr ?h z = (if z = x then x else if z = hd xs then last xs else prev_ptr h z)" for z
    using R by (auto simp: remove_from_list_def Let_def link_simps)
  show "snd (remove_from_list x h) = Some (hd xs)"
    using R by (auto simp: remove_from_list_def Let_def link_simps)
  have "seg ?h xs" by (rule seg_update [of xs h]) (use R in \<open>auto simp: N P\<close>)
  then show "ring ?h xs" using R assms(2) by (auto simp: ring_def N P)
  show "ring ?h [x]" using N P by (simp add: ring_singleton)
  show "frame h ?h (set (x # xs))" using R by (auto simp: frame_def N P)
qed

text \<open>Inserting a single node before the first node, which is the tail of the ring.\<close>

lemma ring_insert_before:
  assumes "ring h xs" and "ring h [p]" and "p \<notin> set xs"
  shows "ring (insert_before (hd xs) p h) (xs @ [p])"
    and "frame h (insert_before (hd xs) p h) (set (xs @ [p]))"
proof -
  let ?h = "insert_before (hd xs) p h"
  note R = ringD [OF assms(1)]
  have S: "single h p" using assms(2) by (auto simp: ring_def single_def)
  have N: "next_ptr ?h z = (if z = p then hd xs else if z = last xs then p else next_ptr h z)"
    and P: "prev_ptr ?h z = (if z = p then last xs else if z = hd xs then p else prev_ptr h z)" for z
    using R S assms(3) by (auto simp: insert_before_def insert_between_def link_simps)
  have ne: "hd xs \<noteq> p" "last xs \<noteq> p" using R(6,7) assms(3) by auto
  have "seg ?h xs" by (rule seg_update [of xs h]) (use R(2,3) assms(3) in \<open>auto simp: N P\<close>)
  then have "seg ?h (xs @ [p])"
    using ne unfolding seg_append by (simp add: N P)
  then show "ring ?h (xs @ [p])"
    using R(1,2) ne assms(3) by (simp add: ring_def N P)
  show "frame h ?h (set (xs @ [p]))" using R by (auto simp: frame_def N P)
qed

lemma ring_insert_after:
  assumes "ring h (x # xs)" and "ring h [p]" and "p \<notin> set (x # xs)"
  shows "ring (insert_after x p h) (x # p # xs)"
    and "frame h (insert_after x p h) (set (x # p # xs))"
proof -
  have rot: "ring h (xs @ [x])" using assms(1) ring_rotate [of h "[x]" xs] by simp
  have eq: "insert_after x p h = insert_before (hd (xs @ [x])) p h"
    using ringD(5) [OF rot] ring_next [OF assms(1)]
    by (simp add: insert_after_def insert_before_def)
  have "p \<notin> set (xs @ [x])" using assms(3) by auto
  note I = ring_insert_before [OF rot assms(2) this, folded eq]
  show "ring (insert_after x p h) (x # p # xs)"
    using I(1) ring_rotate [of _ xs "[x, p]"] by simp
  show "frame h (insert_after x p h) (set (x # p # xs))"
    using I(2) by (auto simp: frame_def)
qed

text \<open>Splicing a whole ring before the first node of another.\<close>

lemma ring_insert_list_before:
  assumes "ring h xs" and "ring h ys" and "set xs \<inter> set ys = {}"
  shows "ring (insert_list_before (hd xs) (hd ys) h) (xs @ ys)"
    and "frame h (insert_list_before (hd xs) (hd ys) h) (set (xs @ ys))"
proof -
  let ?h = "insert_list_before (hd xs) (hd ys) h"
  note R = ringD [OF assms(1)] and S = ringD [OF assms(2)]
  have ne: "last xs \<noteq> last ys" "hd xs \<noteq> hd ys" "last xs \<notin> set ys" "last ys \<notin> set xs"
    "hd xs \<notin> set ys" "hd ys \<notin> set xs"
    using R(6,7) S(6,7) assms(3) unfolding disjoint_iff by metis+
  have N: "next_ptr ?h z = (if z = last ys then hd xs else if z = last xs then hd ys else next_ptr h z)"
    and P: "prev_ptr ?h z = (if z = hd xs then last ys else if z = hd ys then last xs else prev_ptr h z)" for z
    using R S ne by (auto simp: insert_list_before_def insert_list_between_def Let_def link_simps)
  have "seg ?h xs" by (rule seg_update [of xs h]) (use R(2,3) ne in \<open>auto simp: N P\<close>)
  moreover have "seg ?h ys" by (rule seg_update [of ys h]) (use S(2,3) ne in \<open>auto simp: N P\<close>)
  ultimately have "seg ?h (xs @ ys)"
    using ne unfolding seg_append by (simp add: N P)
  then show "ring ?h (xs @ ys)"
    using R(1,2) S(1,2) ne assms(3) by (simp add: ring_def N P)
  show "frame h ?h (set (xs @ ys))" using R S by (auto simp: frame_def N P)
qed

text \<open>Splitting a ring in two.\<close>

lemma ring_split:
  assumes "ring h (xs @ ys)" and "xs \<noteq> []" and "ys \<noteq> []"
  obtains h' where "split_ring (hd xs) (hd ys) h = Some h'" "ring h' xs" "ring h' ys"
    "frame h h' (set (xs @ ys))"
proof -
  have R: "distinct (xs @ ys)" "seg h xs" "seg h ys" "prev_ptr h (hd ys) = last xs"
    "prev_ptr h (hd xs) = last ys"
    using assms by (auto simp: ring_def seg_append)
  have ne: "last xs \<noteq> last ys" "hd xs \<noteq> hd ys" "last xs \<notin> set ys" "last ys \<notin> set xs"
    "hd xs \<notin> set ys" "hd ys \<notin> set xs" "last xs \<in> set xs" "last ys \<in> set ys" "hd xs \<in> set xs" "hd ys \<in> set ys"
    using R(1) hd_in_set [OF assms(2)] hd_in_set [OF assms(3)] last_in_set [OF assms(2)]
      last_in_set [OF assms(3)] unfolding distinct_append disjoint_iff by metis+
  have ns: "\<not> single h (hd xs)"
    using ring_single_iff [of h "hd xs" "tl xs @ ys"] assms by (cases xs) simp_all
  define h' where "h' = set_next (last ys) (hd ys) (set_prev (hd ys) (last ys)
      (set_next (last xs) (hd xs) (set_prev (hd xs) (last xs) h)))"
  have eq: "split_ring (hd xs) (hd ys) h = Some h'"
    using ns ne R by (simp add: split_ring_def h'_def Let_def)
  have N: "next_ptr h' z = (if z = last ys then hd ys else if z = last xs then hd xs else next_ptr h z)"
    and P: "prev_ptr h' z = (if z = hd ys then last ys else if z = hd xs then last xs else prev_ptr h z)" for z
    by (simp_all add: h'_def link_simps)
  have "seg h' xs" by (rule seg_update [of xs h]) (use R(1,2) ne in \<open>auto simp: N P\<close>)
  then have xs: "ring h' xs" using R(1) ne assms(2) by (simp add: ring_def N P)
  have "seg h' ys" by (rule seg_update [of ys h]) (use R(1,3) ne in \<open>auto simp: N P\<close>)
  then have ys: "ring h' ys" using R(1) ne assms(3) by (simp add: ring_def N P)
  have "frame h h' (set (xs @ ys))" using ne by (auto simp: frame_def N P)
  with eq xs ys show ?thesis by (rule that)
qed

text \<open>Walking a ring visits its elements once, in order.\<close>

lemma iterate_seg:
  assumes "seg h xs" "xs \<noteq> []" "distinct xs" "next_ptr h (last xs) = e" "e \<notin> set (tl xs)"
  shows "iterate h (hd xs) e = Some xs"
  using assms
proof (induction xs)
  case (Cons x xs)
  show ?case
  proof (cases xs)
    case Nil
    then show ?thesis using Cons.prems by (subst iterate.simps) simp
  next
    case (Cons y ys)
    then have "iterate h y e = Some xs"
      using Cons.IH Cons.prems by (auto split: if_splits)
    then show ?thesis using Cons Cons.prems by (subst iterate.simps) (auto simp: Let_def)
  qed
qed simp

lemma riterate_seg:
  assumes "seg h xs" "xs \<noteq> []" "distinct xs" "prev_ptr h (hd xs) = e" "e \<notin> set (butlast xs)"
  shows "riterate h (last xs) e = Some (rev xs)"
  using assms
proof (induction xs rule: rev_induct)
  case (snoc x xs)
  show ?case
  proof (cases "xs = []")
    case True
    then show ?thesis using snoc.prems by (subst riterate.simps) simp
  next
    case False
    then have P: "prev_ptr h x = last xs" "last xs \<noteq> e" "seg h xs"
      using snoc.prems last_in_set [OF False] by (auto simp: seg_append simp del: last_in_set)
    then have "riterate h (last xs) e = Some (rev xs)"
      using snoc.IH snoc.prems False by (auto dest: in_set_butlastD)
    then show ?thesis using P by (subst riterate.simps) (auto simp: Let_def)
  qed
qed simp

lemma iterate_ring: "ring h xs \<Longrightarrow> iterate h (hd xs) (hd xs) = Some xs"
  by (intro iterate_seg) (auto simp: ring_def)

lemma riterate_ring: "ring h xs \<Longrightarrow> riterate h (last xs) (last xs) = Some (rev xs)"
  by (intro riterate_seg) (auto simp: ring_def)


subsection \<open>The list operations refine operations on lists\<close>

definition is_list :: "'n links \<Rightarrow> 'n ilist \<Rightarrow> 'n list \<Rightarrow> bool" where
  "is_list h node xs \<longleftrightarrow>
     (case node of None \<Rightarrow> xs = [] | Some n \<Rightarrow> ring h xs \<and> hd xs = n)"

text \<open>
  One list and free nodes: the list represents \<open>xs\<close> and every other node is linked to itself,
  as its constructor and \<open>remove_from_list\<close> leave it.
\<close>

definition repr :: "'n links \<times> 'n ilist \<Rightarrow> 'n list \<Rightarrow> bool" where
  "repr s xs \<longleftrightarrow> is_list (fst s) (snd s) xs \<and> (\<forall>z. z \<notin> set xs \<longrightarrow> ring (fst s) [z])"

lemma reprE:
  assumes "repr s xs"
  obtains (Empty) h where "s = (h, None)" "xs = []" "\<And>z. ring h [z]"
    | (Ring) h where "s = (h, Some (hd xs))" "ring h xs" "\<And>z. z \<notin> set xs \<Longrightarrow> ring h [z]"
  using assms by (cases s; cases "snd s") (auto simp: repr_def is_list_def)

lemma repr_ring: "ring h xs \<Longrightarrow> (\<And>z. z \<notin> set xs \<Longrightarrow> ring h [z]) \<Longrightarrow> n = hd xs \<Longrightarrow> repr (h, Some n) xs"
  by (simp add: repr_def is_list_def)

lemma repr_elements: "repr s xs \<Longrightarrow> elements s = Some xs"
  by (elim reprE) (auto simp: elements_def iterate_ring)

lemma repr_relements: "repr s xs \<Longrightarrow> relements s = Some (rev xs)"
  by (elim reprE) (auto simp: relements_def ring_def riterate_ring)

lemma repr_push_back: "repr s xs \<Longrightarrow> p \<notin> set xs \<Longrightarrow> repr (push_back p s) (xs @ [p])"
proof (elim reprE)
  fix h assume "s = (h, None)" "xs = []" "\<And>z. ring h [z]"
  then show ?thesis by (simp add: push_back_def repr_def is_list_def)
next
  fix h assume p: "p \<notin> set xs" and s: "s = (h, Some (hd xs))" and r: "ring h xs"
    and free: "\<And>z. z \<notin> set xs \<Longrightarrow> ring h [z]"
  note I = ring_insert_before [OF r free [OF p] p]
  show ?thesis unfolding s push_back_def insert_tail_def prod.case option.case
  proof (rule repr_ring [OF I(1)])
    show "hd xs = hd (xs @ [p])" using ringD(1) [OF r] by simp
  qed (use free ring_frame [OF I(2)] in auto)
qed

lemma repr_push_front: "repr s xs \<Longrightarrow> p \<notin> set xs \<Longrightarrow> repr (push_front p s) (p # xs)"
proof (elim reprE)
  fix h assume "s = (h, None)" "xs = []" "\<And>z. ring h [z]"
  then show ?thesis by (simp add: push_front_def repr_def is_list_def)
next
  fix h assume p: "p \<notin> set xs" and s: "s = (h, Some (hd xs))" and r: "ring h xs"
    and free: "\<And>z. z \<notin> set xs \<Longrightarrow> ring h [z]"
  note I = ring_insert_before [OF r free [OF p] p]
  show ?thesis unfolding s push_front_def prod.case option.case
  proof (rule repr_ring)
    show "ring (insert_before (hd xs) p h) (p # xs)"
      using I(1) ring_rotate [of _ xs "[p]"] by simp
  qed (use free ring_frame [OF I(2)] in auto)
qed

text \<open>Removal of any node, by rotating the ring to it.\<close>

lemma repr_remove:
  assumes r: "ring h (as @ p # bs)" and free: "\<And>z. z \<notin> set (as @ p # bs) \<Longrightarrow> ring h [z]"
  shows "snd (remove_from_list p h) = (if as @ bs = [] then None else Some (hd (bs @ as)))"
    and "as @ bs \<noteq> [] \<Longrightarrow> ring (fst (remove_from_list p h)) (as @ bs)"
    and "z \<notin> set (as @ bs) \<Longrightarrow> ring (fst (remove_from_list p h)) [z]"
proof -
  have r': "ring h (p # bs @ as)" using r ring_rotate [of h as "p # bs"] by simp
  show "snd (remove_from_list p h) = (if as @ bs = [] then None else Some (hd (bs @ as)))"
    using ring_remove(1) [OF r'] ring_single_iff [OF r'] by (auto simp: remove_from_list_def)
  show "as @ bs \<noteq> [] \<Longrightarrow> ring (fst (remove_from_list p h)) (as @ bs)"
    using ring_remove(2) [OF r'] ring_rotate [of "fst (remove_from_list p h)" as bs] by auto
  assume z: "z \<notin> set (as @ bs)"
  show "ring (fst (remove_from_list p h)) [z]"
  proof (cases "as @ bs = []")
    case True
    then show ?thesis using r' free [of z] ring_single_iff [OF r']
      by (cases "z = p") (auto simp: remove_from_list_def)
  next
    case False
    then have ne: "bs @ as \<noteq> []" by auto
    show ?thesis
      using ring_remove(3) [OF r' ne] ring_frame [OF ring_remove(4) [OF r' ne], of "[z]"] z free [of z]
      by (cases "z = p") auto
  qed
qed

lemma repr_erase:
  assumes "repr s xs"
  shows "repr (fst (erase p s)) (remove1 p xs)"
proof (cases "p \<in> set xs")
  case False
  with assms obtain h where s: "s = (h, snd s)" "ring h [p]"
    by (auto elim!: reprE)
  then have "remove_from_list p h = (h, None)"
    by (auto simp: remove_from_list_def ring_single_iff)
  moreover have "snd s \<noteq> Some p" using assms False
    by (auto elim!: reprE dest: ringD(6))
  ultimately show ?thesis using assms False s
    by (auto simp: erase_def remove1_idem split: prod.splits)
next
  case True
  with assms obtain h where s: "s = (h, Some (hd xs))" and r: "ring h xs"
    and free: "\<And>z. z \<notin> set xs \<Longrightarrow> ring h [z]"
    by (auto elim!: reprE)
  obtain as bs where xs: "xs = as @ p # bs" "p \<notin> set as"
    using split_list_first [OF True] by blast
  have rm: "remove1 p xs = as @ bs" using xs by (simp add: remove1_append)
  note R = repr_remove [OF r [unfolded xs] free [unfolded xs]]
  show ?thesis
  proof (cases "as = []")
    case True
    then show ?thesis using R xs s rm
      by (cases bs) (auto simp: erase_def repr_def is_list_def split: prod.splits)
  next
    case False
    then have "hd xs \<noteq> p" using xs by (cases as) auto
    then show ?thesis using R False xs s rm
      by (auto simp: erase_def repr_def is_list_def split: prod.splits)
  qed
qed


lemma pop_front_erase: "repr s xs \<Longrightarrow> xs \<noteq> [] \<Longrightarrow> fst (pop_front s) = fst (erase (hd xs) s)"
  by (auto elim!: reprE simp: pop_front_def erase_def split: prod.splits)

lemma repr_pop_front:
  assumes "repr s xs"
  shows "repr (fst (pop_front s)) (tl xs)"
    and "snd (pop_front s) = (if xs = [] then None else Some (hd xs))"
proof -
  show "repr (fst (pop_front s)) (tl xs)"
  proof (cases xs)
    case Nil
    then have "pop_front s = (s, None)"
      using assms by (auto elim!: reprE simp: pop_front_def ring_def)
    then show ?thesis using assms Nil by simp
  next
    case (Cons x ys)
    then show ?thesis using repr_erase [OF assms, of x] pop_front_erase [OF assms] by simp
  qed
  show "snd (pop_front s) = (if xs = [] then None else Some (hd xs))"
    using assms by (auto elim!: reprE simp: pop_front_def ring_def split: prod.splits)
qed

lemma remove1_last_distinct: "distinct xs \<Longrightarrow> xs \<noteq> [] \<Longrightarrow> remove1 (last xs) xs = butlast xs"
  by (induction xs) auto

lemma repr_pop_back:
  assumes "repr s xs"
  shows "repr (fst (pop_back s)) (butlast xs) \<and>
    snd (pop_back s) = (if xs = [] then None else Some (last xs))"
  using assms
proof (cases rule: reprE)
  case (Empty h)
  then show ?thesis by (simp add: pop_back_def repr_def is_list_def)
next
  case (Ring h)
  note R = ringD [OF Ring(2)]
  show ?thesis
  proof (cases "last xs = hd xs")
    case True
    then obtain x where x: "xs = [x]"
      using R(1,2) last_in_set [of "tl xs"] distinct_hd_tl [OF R(2)]
      by (metis last_ConsR list.collapse)
    then have "ring h [z]" for z using Ring by (cases "z = x") auto
    then show ?thesis using Ring(1) x
      by (simp add: pop_back_def repr_def is_list_def ring_singleton)
  next
    case False
    then have "fst (pop_back s) = fst (erase (last xs) s)"
      using Ring(1) R by (simp add: pop_back_def erase_def split: prod.splits)
    then show ?thesis
      using repr_erase [OF assms, of "last xs"] remove1_last_distinct [OF R(2,1)] False Ring(1) R
      by (simp add: pop_back_def Let_def)
  qed
qed

lemma repr_round_robin_next:
  assumes "repr s xs" "xs \<noteq> []"
  obtains s' where "round_robin_next s = Some (s', hd xs)" "repr s' (rotate1 xs)"
proof -
  obtain x ys where xs: "xs = x # ys" using assms(2) by (cases xs) auto
  obtain h where h: "s = (h, Some x)" "ring h (x # ys)" "\<And>z. z \<notin> set xs \<Longrightarrow> ring h [z]"
    using assms xs by (auto elim!: reprE)
  have "repr (h, Some (next_ptr h x)) (rotate1 xs)"
    using ring_next [OF h(2)] ring_rotate [of h "[x]" ys] h xs by (intro repr_ring) auto
  with h xs show ?thesis by (intro that) (auto simp: round_robin_next_def)
qed

lemma repr_round_robin_prev:
  assumes "repr s xs" "xs \<noteq> []"
  obtains s' where "round_robin_prev s = Some (s', hd xs)" "repr s' (last xs # butlast xs)"
proof -
  obtain h where h: "s = (h, Some (hd xs))" "ring h xs" "\<And>z. z \<notin> set xs \<Longrightarrow> ring h [z]"
    using assms by (auto elim!: reprE)
  have eq: "set (last xs # butlast xs) = set xs"
    using assms(2) by (metis append_butlast_last_id rotate1.simps(2) set_rotate1)
  have "ring h (last xs # butlast xs)"
    using h(2) ring_rotate [of h "butlast xs" "[last xs]"] assms(2) by simp
  then have "repr (h, Some (prev_ptr h (hd xs))) (last xs # butlast xs)"
    using h(3) eq ringD(5) [OF h(2)] by (intro repr_ring) auto
  with h show ?thesis by (intro that) (auto simp: round_robin_prev_def)
qed

subsection \<open>Sequences of operations\<close>

datatype 'n list_op = Push_back 'n | Push_front 'n | Pop_front | Pop_back | Erase 'n
  | Round_next | Round_prev

text \<open>One operation of the code, with the node it hands out, if any; \<open>None\<close> where it would
  dereference null.\<close>

fun list_step :: "'n list_op \<Rightarrow> 'n links \<times> 'n ilist \<Rightarrow> (('n links \<times> 'n ilist) \<times> 'n option) option" where
  "list_step (Push_back p) s = Some (push_back p s, None)"
| "list_step (Push_front p) s = Some (push_front p s, None)"
| "list_step Pop_front s = Some (pop_front s)"
| "list_step Pop_back s = Some (pop_back s)"
| "list_step (Erase p) s = Some (fst (erase p s), None)"
| "list_step Round_next s = map_option (map_prod id Some) (round_robin_next s)"
| "list_step Round_prev s = map_option (map_prod id Some) (round_robin_prev s)"

text \<open>The same operation on the abstract list.\<close>

fun abs_step :: "'n list_op \<Rightarrow> 'n list \<Rightarrow> 'n list \<times> 'n option" where
  "abs_step (Push_back p) xs = (xs @ [p], None)"
| "abs_step (Push_front p) xs = (p # xs, None)"
| "abs_step Pop_front xs = (tl xs, if xs = [] then None else Some (hd xs))"
| "abs_step Pop_back xs = (butlast xs, if xs = [] then None else Some (last xs))"
| "abs_step (Erase p) xs = (remove1 p xs, None)"
| "abs_step Round_next xs = (rotate1 xs, Some (hd xs))"
| "abs_step Round_prev xs = (last xs # butlast xs, Some (hd xs))"

text \<open>A node is pushed only while it is in no list, and a round-robin step needs an element.\<close>

fun op_ok :: "'n list_op \<Rightarrow> 'n list \<Rightarrow> bool" where
  "op_ok (Push_back p) xs \<longleftrightarrow> p \<notin> set xs"
| "op_ok (Push_front p) xs \<longleftrightarrow> p \<notin> set xs"
| "op_ok Round_next xs \<longleftrightarrow> xs \<noteq> []"
| "op_ok Round_prev xs \<longleftrightarrow> xs \<noteq> []"
| "op_ok _ xs \<longleftrightarrow> True"

lemma list_step_refines:
  assumes "repr s xs" and "op_ok opr xs"
  shows "\<exists>s'. list_step opr s = Some (s', snd (abs_step opr xs)) \<and> repr s' (fst (abs_step opr xs))"
  using assms
proof (cases opr)
  case Round_next
  then show ?thesis using assms by (auto elim: repr_round_robin_next [OF assms(1)])
next
  case Round_prev
  then show ?thesis using assms by (auto elim: repr_round_robin_prev [OF assms(1)])
qed (use assms repr_pop_front [OF assms(1)] repr_pop_back [OF assms(1)] in
    \<open>auto simp: repr_push_back repr_push_front repr_erase prod_eq_iff\<close>)

interpretation il: data_refinement repr list_step abs_step op_ok
  by unfold_locales (rule list_step_refines)

text \<open>Splitting off the longest prefix that satisfies a predicate.\<close>

lemma split_exclusive_ring:
  assumes "ring h (xs @ ys)"
  obtains h' rest where
    "split_front_exclusive (if ys = [] then None else Some (hd ys)) (h, Some (hd (xs @ ys))) =
       Some (h', rest, if xs = [] then None else Some (hd xs))"
    "is_list h' rest ys" "xs \<noteq> [] \<Longrightarrow> ring h' xs" "frame h h' (set (xs @ ys))"
proof (cases "xs = [] \<or> ys = []")
  case True
  then show ?thesis
    using assms by (intro that [of h "if ys = [] then None else Some (hd ys)"])
      (auto simp: split_front_exclusive_def is_list_def frame_def ring_def)
next
  case False
  then obtain h' where h': "split_ring (hd xs) (hd ys) h = Some h'" "ring h' xs" "ring h' ys"
    "frame h h' (set (xs @ ys))"
    using ring_split [OF assms] by blast
  moreover have "hd ys \<noteq> hd xs"
    using False assms by (metis Int_iff distinct_append emptyE hd_in_set ring_def)
  ultimately show ?thesis
    using False by (intro that [of h' "Some (hd ys)"])
      (auto simp: split_front_exclusive_def is_list_def)
qed

lemma split_by_predicate_list:
  assumes "repr s xs"
  obtains h' rest front where "split_by_predicate P s = Some (h', rest, front)"
    "is_list h' front (takeWhile P xs)" "is_list h' rest (dropWhile P xs)"
  using assms
proof (cases rule: reprE)
  case (Empty h)
  then show ?thesis using that by (simp add: split_by_predicate_def is_list_def)
next
  case (Ring h)
  then have "ring h (takeWhile P xs @ dropWhile P xs)" by simp
  from split_exclusive_ring [OF this] Ring(1) obtain h' rest where
    "split_front_exclusive (if dropWhile P xs = [] then None else Some (hd (dropWhile P xs))) s =
       Some (h', rest, if takeWhile P xs = [] then None else Some (hd (takeWhile P xs)))"
    "is_list h' rest (dropWhile P xs)" "takeWhile P xs \<noteq> [] \<Longrightarrow> ring h' (takeWhile P xs)"
    by (metis takeWhile_dropWhile_id)
  with Ring(1) repr_elements [OF assms] show ?thesis
    by (intro that [of h' rest "if takeWhile P xs = [] then None else Some (hd (takeWhile P xs))"])
      (auto simp: split_by_predicate_def find_dropWhile is_list_def simp del: dropWhile_eq_Nil_conv)
qed

lemma is_list_elements: "is_list h node xs \<Longrightarrow> elements (h, node) = Some xs"
  by (cases node) (auto simp: is_list_def elements_def iterate_ring)

lemma push_back_list_append:
  assumes "is_list h a xs" and "is_list h b ys" and "set xs \<inter> set ys = {}" and "ys \<noteq> [] \<or> xs = []"
  obtains s' where "push_back_list b (h, a) = Some s'" "is_list (fst s') (snd s') (xs @ ys)"
proof (cases a)
  case None
  then show ?thesis
    using assms that [of "(h, b)"] by (simp add: push_back_list_def is_list_def)
next
  case (Some n)
  then have a: "ring h xs" "n = hd xs" using assms(1) by (auto simp: is_list_def)
  then have "ys \<noteq> []" using assms(4) by (simp add: ring_def)
  then have b: "ring h ys" "b = Some (hd ys)" using assms(2) by (auto simp: is_list_def split: option.splits)
  show ?thesis
    using that ring_insert_list_before(1) [OF a(1) b(1) assms(3)] a b Some
    by (auto simp: push_back_list_def insert_list_tail_def is_list_def ring_def)
qed

subsection \<open>Properties\<close>

text \<open>Every node has been constructed and is in no list.\<close>

abbreviation fresh_links :: "'n links" where
  "fresh_links \<equiv> \<lparr>next_ptr = id, prev_ptr = id\<rparr>"

lemma repr_fresh: "repr (fresh_links, None) []"
  by (simp add: repr_def is_list_def ring_singleton)

text \<open>C9: Any sequence of list operations, started on an empty list and pushing only nodes that
  are in no list, runs without dereferencing null, hands out the nodes that the same operations
  on a mathematical list hand out, and leaves a ring whose forward iteration ends and yields
  that list, and whose backward iteration yields its reverse.\<close>

theorem list_ops_refine:
  assumes "runnable op_ok abs_step oprs []"
  shows "\<exists>s'. run list_step oprs (fresh_links, None) = Some (s', snd (arun abs_step oprs [])) \<and>
    elements s' = Some (fst (arun abs_step oprs [])) \<and>
    relements s' = Some (rev (fst (arun abs_step oprs [])))"
  using il.run_refines [OF repr_fresh assms] repr_elements repr_relements by blast

theorem list_ops_refine_witness:
  "\<exists>s'. run list_step [Push_back 1, Push_back 2, Push_front (3 :: nat), Round_next, Erase 1, Pop_back]
      (fresh_links, None) = Some (s', [None, None, None, Some 3, None, Some 3]) \<and>
    elements s' = Some [2] \<and> relements s' = Some [2]"
  using list_ops_refine [of "[Push_back 1, Push_back 2, Push_front (3 :: nat), Round_next, Erase 1, Pop_back]"]
  by simp

text \<open>Splitting by a predicate divides the ring into two rings: the longest prefix whose
  elements satisfy the predicate is split off and the rest stays, both in their order.\<close>

theorem split_by_predicate_correct:
  assumes "repr s xs"
  shows "\<exists>h' rest front. split_by_predicate P s = Some (h', rest, front) \<and>
    elements (h', front) = Some (takeWhile P xs) \<and> elements (h', rest) = Some (dropWhile P xs)"
  using split_by_predicate_list [OF assms, of P] is_list_elements by metis

theorem split_by_predicate_correct_witness:
  "\<exists>h' rest front. split_by_predicate (\<lambda>x. x < 2) (push_back 2 (push_back (1 :: nat) (fresh_links, None)))
      = Some (h', rest, front) \<and>
    elements (h', front) = Some [1] \<and> elements (h', rest) = Some [2]"
  using split_by_predicate_correct [OF repr_push_back [OF repr_push_back [OF repr_fresh]],
      of 1 2 "\<lambda>x. x < (2 :: nat)"] by simp

end
