(* ===== verification/Sleep_Queue.thy ===== *)
theory Sleep_Queue
  imports Prelude "HOL-Library.Multiset"
begin

text \<open>
  The sleep queue of a vCPU (class SleepQueue of src/thread/thread.cpp): a binary heap of
  threads in a vector, ordered by their wake-up time, in which every thread keeps its own
  position (field \<open>idx\<close>, -1 when it is not queued) so that it can be removed from the middle.
  The loops move a hole and write the moved thread once at the end, as the code does.
\<close>

subsection \<open>The queue\<close>

text \<open>The vector \<open>q\<close> of threads and the field \<open>idx\<close> of every thread.\<close>

record 'th sleepq =
  sq :: "'th list"
  idx :: "'th \<Rightarrow> int"

definition sq_front :: "'th sleepq \<Rightarrow> 'th option" where
  "sq_front s = (case sq s of [] \<Rightarrow> None | x # _ \<Rightarrow> Some x)"

definition sq_empty :: "'th sleepq \<Rightarrow> bool" where
  "sq_empty s \<longleftrightarrow> sq s = []"

definition update_node :: "nat \<Rightarrow> 'th \<Rightarrow> 'th sleepq \<Rightarrow> 'th sleepq" where
  "update_node i obj s = s\<lparr>sq := (sq s)[i := obj], idx := (idx s)(obj := int i)\<rparr>"

text \<open>The loop of \<open>up\<close>: the hole is at \<open>i\<close>, \<open>tmp\<close> is the thread that is moved.\<close>

function up_loop :: "('th \<Rightarrow> u64) \<Rightarrow> 'th \<Rightarrow> nat \<Rightarrow> bool \<Rightarrow> 'th sleepq \<Rightarrow> nat \<times> bool \<times> 'th sleepq" where
  "up_loop ts tmp i ret s =
     (if i \<noteq> 0 then
        (let cmpIdx = (i - 1) div 2
         in if ts tmp < ts (sq s ! cmpIdx)
            then up_loop ts tmp cmpIdx True (update_node i (sq s ! cmpIdx) s)
            else (i, ret, s))
      else (i, ret, s))"
  by pat_completeness auto
termination by (relation "measure (\<lambda>(ts, tmp, i, ret, s). i)") auto

definition up :: "('th \<Rightarrow> u64) \<Rightarrow> nat \<Rightarrow> 'th sleepq \<Rightarrow> bool \<times> 'th sleepq" where
  "up ts i s =
     (let tmp = sq s ! i; (j, ret, s') = up_loop ts tmp i False s
      in (ret, if ret then update_node j tmp s' else s'))"

function down_loop :: "('th \<Rightarrow> u64) \<Rightarrow> 'th \<Rightarrow> nat \<Rightarrow> bool \<Rightarrow> 'th sleepq \<Rightarrow> nat \<times> bool \<times> 'th sleepq" where
  "down_loop ts tmp i ret s =
     (let cmpIdx = i * 2 + 1
      in if cmpIdx < length (sq s) then
           (let c = (if cmpIdx + 1 < length (sq s) \<and> ts (sq s ! (cmpIdx + 1)) < ts (sq s ! cmpIdx)
                     then cmpIdx + 1 else cmpIdx)
            in if ts (sq s ! c) < ts tmp
               then down_loop ts tmp c True (update_node i (sq s ! c) s)
               else (i, ret, s))
         else (i, ret, s))"
  by pat_completeness auto
termination
  by (relation "measure (\<lambda>(ts, tmp, i, ret, s). length (sq s) - i)")
    (auto simp: update_node_def Let_def split: if_splits)

definition down :: "('th \<Rightarrow> u64) \<Rightarrow> nat \<Rightarrow> 'th sleepq \<Rightarrow> bool \<times> 'th sleepq" where
  "down ts i s =
     (let tmp = sq s ! i; (j, ret, s') = down_loop ts tmp i False s
      in (ret, if ret then update_node j tmp s' else s'))"

definition sq_push :: "('th \<Rightarrow> u64) \<Rightarrow> 'th \<Rightarrow> 'th sleepq \<Rightarrow> 'th sleepq" where
  "sq_push ts obj s =
     (let s1 = s\<lparr>sq := sq s @ [obj], idx := (idx s)(obj := int (length (sq s)))\<rparr>
      in snd (up ts (length (sq s)) s1))"

text \<open>
  \<open>pop_front\<close> reads \<open>q[0]\<close>, so an empty queue is an error.  With one thread queued, \<open>down(0)\<close>
  runs on the emptied vector; the value it reads there is never used.
\<close>

definition sq_pop_front :: "('th \<Rightarrow> u64) \<Rightarrow> 'th sleepq \<Rightarrow> ('th sleepq \<times> 'th) option" where
  "sq_pop_front ts s =
     (if sq s = [] then None
      else
        (let ret = sq s ! 0;
             s1 = s\<lparr>sq := (sq s)[0 := last (sq s)], idx := (idx s)(last (sq s) := 0)\<rparr>;
             s2 = s1\<lparr>sq := butlast (sq s1)\<rparr>;
             s3 = snd (down ts 0 s2)
         in Some (s3\<lparr>idx := (idx s3)(ret := -1)\<rparr>, ret)))"

definition sq_pop :: "('th \<Rightarrow> u64) \<Rightarrow> 'th \<Rightarrow> 'th sleepq \<Rightarrow> 'th sleepq \<times> int" where
  "sq_pop ts obj s =
     (if idx s obj = -1 then (s, -1)
      else if nat (idx s obj) = length (sq s) - 1
      then (s\<lparr>sq := butlast (sq s), idx := (idx s)(obj := -1)\<rparr>, 0)
      else
        (let id = nat (idx s obj);
             s1 = s\<lparr>sq := (sq s)[id := last (sq s)], idx := (idx s)(last (sq s) := int id)\<rparr>;
             s2 = s1\<lparr>sq := butlast (sq s1)\<rparr>;
             (moved, s3) = up ts id s2;
             s4 = (if moved then s3 else snd (down ts id s3))
         in (s4\<lparr>idx := (idx s4)(obj := -1)\<rparr>, 0)))"

declare up_loop.simps [simp del] down_loop.simps [simp del]

subsection \<open>Heap order\<close>

abbreviation parent :: "nat \<Rightarrow> nat" where
  "parent i \<equiv> (i - 1) div 2"

lemma parent_less: "0 < i \<Longrightarrow> parent i < i"
  by simp

definition heap :: "('th \<Rightarrow> u64) \<Rightarrow> 'th list \<Rightarrow> bool" where
  "heap ts xs \<longleftrightarrow> (\<forall>i. 0 < i \<and> i < length xs \<longrightarrow> ts (xs ! parent i) \<le> ts (xs ! i))"

text \<open>Heap order but for the edges at one position; the parent there is still below the children.\<close>

definition heap_but :: "('th \<Rightarrow> u64) \<Rightarrow> nat \<Rightarrow> 'th list \<Rightarrow> bool" where
  "heap_but ts k xs \<longleftrightarrow>
     (\<forall>i. 0 < i \<and> i < length xs \<and> i \<noteq> k \<and> parent i \<noteq> k \<longrightarrow> ts (xs ! parent i) \<le> ts (xs ! i)) \<and>
     (\<forall>i. 0 < i \<and> i < length xs \<and> parent i = k \<and> 0 < k \<longrightarrow> ts (xs ! parent k) \<le> ts (xs ! i))"

definition below_children :: "('th \<Rightarrow> u64) \<Rightarrow> nat \<Rightarrow> 'th list \<Rightarrow> bool" where
  "below_children ts k xs \<longleftrightarrow> (\<forall>i. 0 < i \<and> i < length xs \<and> parent i = k \<longrightarrow> ts (xs ! k) \<le> ts (xs ! i))"

definition above_parent :: "('th \<Rightarrow> u64) \<Rightarrow> nat \<Rightarrow> 'th list \<Rightarrow> bool" where
  "above_parent ts k xs \<longleftrightarrow> (0 < k \<longrightarrow> ts (xs ! parent k) \<le> ts (xs ! k))"

lemma heap_intro:
  "heap_but ts k xs \<Longrightarrow> below_children ts k xs \<Longrightarrow> above_parent ts k xs \<Longrightarrow> heap ts xs"
  unfolding heap_def heap_but_def below_children_def above_parent_def by metis

lemma heap_root:
  assumes "heap ts xs" and "i < length xs"
  shows "ts (xs ! 0) \<le> ts (xs ! i)"
  using assms(2)
proof (induction i rule: less_induct)
  case (less i)
  show ?case
  proof (cases "i = 0")
    case False
    then have "ts (xs ! 0) \<le> ts (xs ! parent i)" using less by auto
    also have "\<dots> \<le> ts (xs ! i)" using assms(1) False less.prems by (auto simp: heap_def)
    finally show ?thesis .
  qed simp
qed

text \<open>Exchanging two elements; one turn of a loop exchanges the hole with a neighbour.\<close>

abbreviation swap :: "nat \<Rightarrow> nat \<Rightarrow> 'a list \<Rightarrow> 'a list" where
  "swap i j xs \<equiv> xs[i := xs ! j, j := xs ! i]"

lemma heap_but_swap_up:
  assumes h: "heap_but ts k xs" "below_children ts k xs" and k: "0 < k" "k < length xs"
    and less: "ts (xs ! k) < ts (xs ! parent k)"
  shows "heap_but ts (parent k) (swap k (parent k) xs)"
    and "below_children ts (parent k) (swap k (parent k) xs)"
proof -
  let ?p = "parent k" and ?ys = "swap k (parent k) xs"
  have p: "?p < k" using k by auto
  have par: "parent i < i" if "0 < i" for i using that by auto
  have ys: "?ys ! i = (if i = ?p then xs ! k else if i = k then xs ! ?p else xs ! i)"
    if "i < length xs" for i
    using that k p by (auto simp: nth_list_update)
  have o: "ts (xs ! parent i) \<le> ts (xs ! i)" if "0 < i" "i < length xs" "i \<noteq> k" "parent i \<noteq> k" for i
    using h that unfolding heap_but_def by blast
  have c: "ts (xs ! ?p) \<le> ts (xs ! i)" if "0 < i" "i < length xs" "parent i = k" for i
    using h that k unfolding heap_but_def by blast
  show "below_children ts ?p ?ys"
    unfolding below_children_def
  proof (intro allI impI)
    fix i assume i: "0 < i \<and> i < length ?ys \<and> parent i = ?p"
    then have "i \<noteq> ?p" using par [of i] by auto
    moreover have "i \<noteq> k \<Longrightarrow> ts (xs ! ?p) \<le> ts (xs ! i)" using o [of i] i p by auto
    ultimately show "ts (?ys ! ?p) \<le> ts (?ys ! i)" using i ys [of i] ys [of ?p] k p less by auto
  qed
  show "heap_but ts ?p ?ys"
    unfolding heap_but_def
  proof (intro conjI allI impI)
    fix i assume i: "0 < i \<and> i < length ?ys \<and> i \<noteq> ?p \<and> parent i \<noteq> ?p"
    then have "i \<noteq> k" by auto
    moreover have "parent i < length xs" using i by auto
    ultimately show "ts (?ys ! parent i) \<le> ts (?ys ! i)"
      using i ys [of i] ys [of "parent i"] o [of i] c [of i] by (auto split: if_splits)
  next
    fix i assume i: "0 < i \<and> i < length ?ys \<and> parent i = ?p \<and> 0 < ?p"
    have pp: "parent ?p < ?p" using i par by blast
    have "parent ?p \<noteq> k" using pp p by linarith
    then have a: "ts (xs ! parent ?p) \<le> ts (xs ! ?p)" using o [of ?p] i p k by auto
    have "i \<noteq> ?p" using par [of i] i by auto
    moreover have "i \<noteq> k \<Longrightarrow> ts (xs ! ?p) \<le> ts (xs ! i)" using o [of i] i p by auto
    moreover have "?ys ! parent ?p = xs ! parent ?p" using ys [of "parent ?p"] pp p k by auto
    ultimately show "ts (?ys ! parent ?p) \<le> ts (?ys ! i)"
      using a i ys [of i] order_trans [of "ts (xs ! parent ?p)" "ts (xs ! ?p)" "ts (xs ! i)"]
      by (auto split: if_splits)
  qed
qed

lemma heap_but_swap_down:
  assumes h: "heap_but ts k xs" "above_parent ts k xs" and k: "parent c = k" "0 < c" "c < length xs"
    and least: "\<And>i. 0 < i \<Longrightarrow> i < length xs \<Longrightarrow> parent i = k \<Longrightarrow> ts (xs ! c) \<le> ts (xs ! i)"
    and less: "ts (xs ! c) < ts (xs ! k)"
  shows "heap_but ts c (swap k c xs)" and "above_parent ts c (swap k c xs)"
proof -
  let ?ys = "swap k c xs"
  have c: "k < c" using k by auto
  have par: "parent i < i" if "0 < i" for i using that by auto
  have ys: "?ys ! i = (if i = c then xs ! k else if i = k then xs ! c else xs ! i)"
    if "i < length xs" for i
    using that k c by (auto simp: nth_list_update)
  have o: "ts (xs ! parent i) \<le> ts (xs ! i)" if "0 < i" "i < length xs" "i \<noteq> k" "parent i \<noteq> k" for i
    using h that unfolding heap_but_def by blast
  have g: "ts (xs ! parent k) \<le> ts (xs ! i)" if "0 < i" "i < length xs" "parent i = k" "0 < k" for i
    using h that unfolding heap_but_def by blast
  show "above_parent ts c ?ys"
    unfolding above_parent_def using ys [of k] ys [of c] c k less by auto
  show "heap_but ts c ?ys"
    unfolding heap_but_def
  proof (intro conjI allI impI)
    fix i assume i: "0 < i \<and> i < length ?ys \<and> i \<noteq> c \<and> parent i \<noteq> c"
    have pi: "parent i < length xs" "parent i < i" using i par [of i] by auto
    consider "i = k" | "parent i = k" | "i \<noteq> k" "parent i \<noteq> k" by blast
    then show "ts (?ys ! parent i) \<le> ts (?ys ! i)"
    proof cases
      case 1
      then show ?thesis using ys [of i] ys [of "parent i"] i pi c g [of c] k by auto
    next
      case 2
      then show ?thesis using ys [of i] ys [of "parent i"] i pi least [of i] by auto
    next
      case 3
      then show ?thesis using ys [of i] ys [of "parent i"] i pi o [of i] by auto
    qed
  next
    fix i assume i: "0 < i \<and> i < length ?ys \<and> parent i = c \<and> 0 < c"
    then have "i \<noteq> k" "i \<noteq> c" using par [of i] c by auto
    then show "ts (?ys ! parent c) \<le> ts (?ys ! i)"
      using i ys [of i] ys [of k] k c o [of i] by auto
  qed
qed

subsection \<open>The loops\<close>

text \<open>
  While a loop runs, the vector with the hole filled is a permutation of the queue and every
  thread but the moved one has its position in \<open>idx\<close>.
\<close>

definition pos_but :: "('th \<Rightarrow> int) \<Rightarrow> nat \<Rightarrow> 'th list \<Rightarrow> ('th \<Rightarrow> int) \<Rightarrow> bool" where
  "pos_but g k xs f \<longleftrightarrow> distinct xs \<and> (\<forall>i<length xs. i \<noteq> k \<longrightarrow> f (xs ! i) = int i) \<and>
     (\<forall>x. x \<notin> set xs \<longrightarrow> f x = g x)"

definition pos :: "('th \<Rightarrow> int) \<Rightarrow> 'th list \<Rightarrow> ('th \<Rightarrow> int) \<Rightarrow> bool" where
  "pos g xs f \<longleftrightarrow> distinct xs \<and> (\<forall>i<length xs. f (xs ! i) = int i) \<and> (\<forall>x. x \<notin> set xs \<longrightarrow> f x = g x)"

lemma pos_butI: "pos g xs f \<Longrightarrow> pos_but g k xs f"
  by (simp add: pos_def pos_but_def)

lemma pos_but_set:
  "pos_but g k xs f \<Longrightarrow> k < length xs \<Longrightarrow> pos g xs (f(xs ! k := int k))"
  unfolding pos_but_def pos_def by (auto simp: nth_eq_iff_index_eq)

lemma swap_as_hole:
  assumes "i < length xs" "c < length xs" "i \<noteq> c"
  shows "(xs[i := xs ! c])[c := tmp] = swap i c (xs[i := tmp])"
  using assms by (auto simp: nth_list_update list_update_swap [of i c])

lemma pos_but_swap:
  assumes "pos_but g i xs f" "i < length xs" "c < length xs" "i \<noteq> c"
  shows "pos_but g c (swap i c xs) (f(xs ! c := int i))"
proof -
  have d: "distinct (swap i c xs)" and s: "set (swap i c xs) = set xs"
    using assms by (auto simp: pos_but_def distinct_swap set_swap)
  have "(f(xs ! c := int i)) (swap i c xs ! j) = int j" if "j < length xs" "j \<noteq> c" for j
    using assms that by (auto simp: pos_but_def nth_list_update nth_eq_iff_index_eq)
  with d s assms show ?thesis by (auto simp: pos_but_def)
qed

lemma mset_swap_nth: "i < length xs \<Longrightarrow> c < length xs \<Longrightarrow> mset (swap i c xs) = mset xs"
  by (rule mset_swap)

text \<open>The state of a loop and what it guarantees at the end.\<close>

definition hole_ok :: "('th \<Rightarrow> int) \<Rightarrow> 'th \<Rightarrow> nat \<Rightarrow> 'th sleepq \<Rightarrow> 'th multiset \<Rightarrow> bool" where
  "hole_ok g tmp i s M \<longleftrightarrow> i < length (sq s) \<and> pos_but g i ((sq s)[i := tmp]) (idx s) \<and>
     mset ((sq s)[i := tmp]) = M"

lemma hole_ok_move:
  assumes "hole_ok g tmp i s M" and "c < length (sq s)" and "i \<noteq> c"
  shows "hole_ok g tmp c (update_node i (sq s ! c) s) M"
    and "(sq (update_node i (sq s ! c) s))[c := tmp] = swap i c ((sq s)[i := tmp])"
proof -
  let ?xs = "(sq s)[i := tmp]"
  have i: "i < length (sq s)" using assms(1) by (simp add: hole_ok_def)
  show eq: "(sq (update_node i (sq s ! c) s))[c := tmp] = swap i c ?xs"
    using swap_as_hole [OF i assms(2,3), of tmp] by (simp add: update_node_def)
  have "?xs ! c = sq s ! c" using assms(3) by simp
  then show "hole_ok g tmp c (update_node i (sq s ! c) s) M"
    using assms(1) pos_but_swap [of g i ?xs "idx s" c] mset_swap_nth [of i ?xs c] assms(2,3) i
    unfolding hole_ok_def eq by (simp add: update_node_def)
qed

lemma up_loop_ok:
  assumes "hole_ok g tmp i s M" and "heap_but ts i ((sq s)[i := tmp])"
    and "below_children ts i ((sq s)[i := tmp])" and "up_loop ts tmp i ret s = (j, r, s')"
  shows "hole_ok g tmp j s' M \<and> heap ts ((sq s')[j := tmp]) \<and> (ret \<longrightarrow> r) \<and>
    (\<not> r \<longrightarrow> j = i \<and> s' = s) \<and> (r \<longleftrightarrow> ret \<or> \<not> above_parent ts i ((sq s)[i := tmp]))"
  using assms
proof (induction ts tmp i ret s arbitrary: j r s' rule: up_loop.induct)
  case (1 ts tmp i ret s)
  let ?c = "parent i" and ?xs = "(sq s)[i := tmp]"
  have i: "i < length (sq s)" using 1(2) by (simp add: hole_ok_def)
  show ?case
  proof (cases "i \<noteq> 0 \<and> ts tmp < ts (sq s ! ?c)")
    case True
    then have c: "?c < length (sq s)" "i \<noteq> ?c" using i by auto
    have less: "ts (?xs ! i) < ts (?xs ! ?c)" using True i c(2) by simp
    note mv = hole_ok_move [OF 1(2) c]
    have "up_loop ts tmp ?c True (update_node i (sq s ! ?c) s) = (j, r, s')"
      using 1(5) True by (simp add: up_loop.simps [of ts tmp i] Let_def)
    from 1(1) [OF _ refl _ mv(1) _ _ this] True i less
    show ?thesis
      unfolding mv(2) using heap_but_swap_up [OF 1(3,4)] by (auto simp: above_parent_def)
  next
    case False
    then have "(j, r, s') = (i, ret, s)"
      using 1(5) by (auto simp: up_loop.simps [of ts tmp i] Let_def split: if_splits)
    moreover have "above_parent ts i ?xs"
      unfolding above_parent_def using False i by (auto simp: nth_list_update)
    ultimately show ?thesis using 1(2) heap_intro [OF 1(3,4)] by simp
  qed
qed

lemma down_loop_step:
  "down_loop ts tmp i ret s =
     (let c = (if i * 2 + 1 + 1 < length (sq s) \<and> ts (sq s ! (i * 2 + 1 + 1)) < ts (sq s ! (i * 2 + 1))
               then i * 2 + 1 + 1 else i * 2 + 1)
      in if i * 2 + 1 < length (sq s) \<and> ts (sq s ! c) < ts tmp
         then down_loop ts tmp c True (update_node i (sq s ! c) s) else (i, ret, s))"
  by (subst down_loop.simps) (simp only: Let_def, simp)

lemma down_loop_ok:
  assumes "hole_ok g tmp i s M" and "heap_but ts i ((sq s)[i := tmp])"
    and "above_parent ts i ((sq s)[i := tmp])" and "down_loop ts tmp i ret s = (j, r, s')"
  shows "hole_ok g tmp j s' M \<and> heap ts ((sq s')[j := tmp]) \<and> (ret \<longrightarrow> r) \<and>
    (\<not> r \<longrightarrow> j = i \<and> s' = s)"
  using assms
proof (induction ts tmp i ret s arbitrary: j r s' rule: down_loop.induct)
  case (1 ts tmp i ret s)
  let ?m = "i * 2 + 1" and ?xs = "(sq s)[i := tmp]"
  define c where "c = (if ?m + 1 < length (sq s) \<and> ts (sq s ! (?m + 1)) < ts (sq s ! ?m)
    then ?m + 1 else ?m)"
  have i: "i < length (sq s)" using 1(2) by (simp add: hole_ok_def)
  have step: "down_loop ts tmp i ret s = (if ?m < length (sq s) \<and> ts (sq s ! c) < ts tmp
      then down_loop ts tmp c True (update_node i (sq s ! c) s) else (i, ret, s))"
    unfolding c_def by (rule down_loop_step [unfolded Let_def])
  have child: "0 < n \<and> parent n = i \<longleftrightarrow> n = ?m \<or> n = ?m + 1" for n by auto
  have least: "ts (?xs ! c) \<le> ts (?xs ! n)" if "0 < n" "n < length ?xs" "parent n = i" for n
    using child [of n] that unfolding c_def by (auto simp: nth_list_update)
  show ?case
  proof (cases "?m < length (sq s) \<and> ts (sq s ! c) < ts tmp")
    case True
    then have c: "c < length (sq s)" "i \<noteq> c" "0 < c" "parent c = i" unfolding c_def by auto
    have less: "ts (?xs ! c) < ts (?xs ! i)" using True i c(2) by simp
    note mv = hole_ok_move [OF 1(2) c(1,2)]
    have "down_loop ts tmp c True (update_node i (sq s ! c) s) = (j, r, s')"
      using 1(5) True step by simp
    from 1(1) [OF refl _ _ _ mv(1) _ _ this] True c_def
    show ?thesis
      unfolding mv(2) using heap_but_swap_down [OF 1(3,4) c(4,3) _ least less] c(1) by auto
  next
    case False
    then have "(j, r, s') = (i, ret, s)"
      using 1(5) step by (auto split: if_splits)
    moreover have "below_children ts i ?xs"
      unfolding below_children_def
    proof (intro allI impI)
      fix n assume n: "0 < n \<and> n < length ?xs \<and> parent n = i"
      then have "?m < length (sq s)" using child [of n] by auto
      then have "ts tmp \<le> ts (?xs ! c)" using False unfolding c_def by (auto simp: nth_list_update)
      with least [of n] n i show "ts (?xs ! i) \<le> ts (?xs ! n)" by auto
    qed
    ultimately show ?thesis using 1(2) heap_intro [OF 1(3)] 1(4) by simp
  qed
qed

subsection \<open>The operations keep heap order and positions\<close>

definition sq_inv :: "('th \<Rightarrow> int) \<Rightarrow> ('th \<Rightarrow> u64) \<Rightarrow> 'th sleepq \<Rightarrow> bool" where
  "sq_inv g ts s \<longleftrightarrow> heap ts (sq s) \<and> pos g (sq s) (idx s)"

lemma hole_ok_start: "i < length (sq s) \<Longrightarrow> pos g (sq s) (idx s) \<Longrightarrow> hole_ok g (sq s ! i) i s (mset (sq s))"
  by (simp add: hole_ok_def pos_butI)

lemma hole_ok_fill:
  assumes "hole_ok g tmp j s M" "heap ts ((sq s)[j := tmp])"
  shows "sq_inv g ts (update_node j tmp s) \<and> mset (sq (update_node j tmp s)) = M"
  using assms pos_but_set [of g j "(sq s)[j := tmp]" "idx s"]
  by (auto simp: hole_ok_def sq_inv_def update_node_def)

lemma up_ok:
  assumes "i < length (sq s)" "pos g (sq s) (idx s)" "heap_but ts i (sq s)" "below_children ts i (sq s)"
  shows "sq_inv g ts (snd (up ts i s))" and "mset (sq (snd (up ts i s))) = mset (sq s)"
proof -
  obtain j r s' where l: "up_loop ts (sq s ! i) i False s = (j, r, s')" by (metis prod_cases3)
  note ok = up_loop_ok [OF hole_ok_start [OF assms(1,2)], of ts False j r s', simplified, OF assms(3,4) l]
  show "sq_inv g ts (snd (up ts i s))" "mset (sq (snd (up ts i s))) = mset (sq s)"
    using ok l hole_ok_fill [of g "sq s ! i" j s'] assms(2)
    by (cases r; force simp: up_def sq_inv_def)+
qed

lemma up_not_moved:
  assumes "above_parent ts i (sq s)" and "i < length (sq s)"
  shows "up ts i s = (False, s)"
  using assms by (auto simp: up_def above_parent_def up_loop.simps [of ts "sq s ! i" i] Let_def)

lemma up_moved:
  assumes "i < length (sq s)" "pos g (sq s) (idx s)" "heap_but ts i (sq s)" "below_children ts i (sq s)"
  shows "fst (up ts i s) \<longleftrightarrow> \<not> above_parent ts i (sq s)"
proof -
  obtain j r s' where l: "up_loop ts (sq s ! i) i False s = (j, r, s')" by (metis prod_cases3)
  note ok = up_loop_ok [OF hole_ok_start [OF assms(1,2)], of ts False j r s', simplified, OF assms(3,4) l]
  then show ?thesis using l by (simp add: up_def)
qed

lemma down_ok:
  assumes "i < length (sq s)" "pos g (sq s) (idx s)" "heap_but ts i (sq s)" "above_parent ts i (sq s)"
  shows "sq_inv g ts (snd (down ts i s))" and "mset (sq (snd (down ts i s))) = mset (sq s)"
proof -
  obtain j r s' where l: "down_loop ts (sq s ! i) i False s = (j, r, s')" by (metis prod_cases3)
  note ok = down_loop_ok [OF hole_ok_start [OF assms(1,2)], of ts False j r s', simplified, OF assms(3,4) l]
  show "sq_inv g ts (snd (down ts i s))" "mset (sq (snd (down ts i s))) = mset (sq s)"
    using ok l hole_ok_fill [of g "sq s ! i" j s'] assms(2)
    by (cases r; force simp: down_def sq_inv_def)+
qed

lemma sq_push_ok:
  assumes "sq_inv g ts s" and "x \<notin> set (sq s)"
  shows "sq_inv g ts (sq_push ts x s)" and "mset (sq (sq_push ts x s)) = add_mset x (mset (sq s))"
proof -
  let ?n = "length (sq s)"
  let ?s = "s\<lparr>sq := sq s @ [x], idx := (idx s)(x := int ?n)\<rparr>"
  have nc: "parent i \<noteq> ?n" if "0 < i" "i < Suc ?n" for i using that by auto
  have "pos g (sq ?s) (idx ?s)"
    using assms nth_mem [of _ "sq s"] by (auto simp: sq_inv_def pos_def nth_append less_Suc_eq)
  moreover have "heap_but ts ?n (sq ?s)"
    unfolding heap_but_def
  proof (intro conjI allI impI)
    fix i assume i: "0 < i \<and> i < length (sq ?s) \<and> i \<noteq> ?n \<and> parent i \<noteq> ?n"
    then have "i < ?n" "parent i < ?n" by auto
    then show "ts (sq ?s ! parent i) \<le> ts (sq ?s ! i)"
      using assms(1) i by (simp add: sq_inv_def heap_def nth_append)
  next
    fix i assume "0 < i \<and> i < length (sq ?s) \<and> parent i = ?n \<and> 0 < ?n"
    then show "ts (sq ?s ! parent ?n) \<le> ts (sq ?s ! i)" using nc [of i] by simp
  qed
  moreover have "below_children ts ?n (sq ?s)"
    using nc by (auto simp: below_children_def)
  ultimately show "sq_inv g ts (sq_push ts x s)" "mset (sq (sq_push ts x s)) = add_mset x (mset (sq s))"
    using up_ok [of ?n ?s g ts] by (simp_all add: sq_push_def)
qed

text \<open>Position \<open>k\<close> takes the last thread and the vector shrinks; the vacated position is -1.\<close>

lemma pos_vacate:
  assumes "pos g xs f" "k < length xs - 1"
  shows "pos (g(xs ! k := f (xs ! k))) (butlast (xs[k := last xs])) (f(last xs := int k))"
    and "add_mset (xs ! k) (mset (butlast (xs[k := last xs]))) = mset xs"
    and "last xs \<noteq> xs ! k"
proof -
  obtain ys y where xs: "xs = ys @ [y]" using assms(2) by (cases xs rule: rev_cases) auto
  then have k: "k < length ys" "xs ! k = ys ! k" using assms(2) by (auto simp: nth_append)
  have d: "distinct ys" "y \<notin> set ys" using assms(1) xs by (auto simp: pos_def)
  have f: "f (ys ! i) = int i" if "i < length ys" for i
  proof -
    have "f (xs ! i) = int i" using assms(1) that xs by (simp add: pos_def)
    then show ?thesis using that xs by (simp add: nth_append)
  qed
  have b: "butlast (xs[k := last xs]) = ys[k := y]"
    using xs k(1) by (simp add: list_update_append)
  have s: "set (ys[k := y]) = insert y (set ys - {ys ! k})"
    using d k(1) set_update_distinct [OF d(1) k(1)] by simp
  show "last xs \<noteq> xs ! k" using xs k d nth_mem [OF k(1)] by auto
  have "distinct (ys[k := y])" using d by (auto intro: distinct_list_update)
  moreover have "(f(y := int k)) (ys[k := y] ! i) = int i" if "i < length ys" for i
    using that f [of i] d k(1) nth_mem [of i ys] by (auto simp: nth_list_update)
  moreover have "(f(y := int k)) x = (g(ys ! k := f (ys ! k))) x" if "x \<notin> set (ys[k := y])" for x
    using that s assms(1) xs by (auto simp: pos_def)
  ultimately show "pos (g(xs ! k := f (xs ! k))) (butlast (xs[k := last xs])) (f(last xs := int k))"
    unfolding b k(2) using xs by (simp add: pos_def)
  show "add_mset (xs ! k) (mset (butlast (xs[k := last xs]))) = mset xs"
    unfolding b k(2) using xs k(1) by (simp add: mset_update add_mset_remove_trivial_eq)
qed

lemma heap_but_vacate:
  assumes "heap ts xs" "k < length xs - 1"
  shows "heap_but ts k (butlast (xs[k := last xs]))"
  unfolding heap_but_def
proof (intro conjI allI impI)
  let ?ys = "butlast (xs[k := last xs])"
  have ys: "?ys ! i = xs ! i" if "i < length xs - 1" "i \<noteq> k" for i
    using that by (simp add: nth_butlast)
  fix i
  {
    assume i: "0 < i \<and> i < length ?ys \<and> i \<noteq> k \<and> parent i \<noteq> k"
    then have "parent i < length xs - 1" by auto
    then show "ts (?ys ! parent i) \<le> ts (?ys ! i)"
      using ys [of i] ys [of "parent i"] i assms by (auto simp: heap_def)
  next
    assume i: "0 < i \<and> i < length ?ys \<and> parent i = k \<and> 0 < k"
    then have k: "parent k < k" "k < i" using parent_less by blast+
    then have k': "parent k < length xs - 1" "parent k \<noteq> k" "i \<noteq> k" using assms(2) by linarith+
    have "ts (xs ! parent k) \<le> ts (xs ! k)" "ts (xs ! k) \<le> ts (xs ! i)"
      using assms i by (auto simp: heap_def)
    then show "ts (?ys ! parent k) \<le> ts (?ys ! i)"
      using ys [of i] ys [of "parent k"] k' i by simp
  }
qed

text \<open>A position that is off its place in one direction is repaired by \<open>up\<close> or else by \<open>down\<close>.\<close>

lemma repair_ok:
  assumes "i < length (sq s)" "pos g (sq s) (idx s)" "heap_but ts i (sq s)"
  defines "s' \<equiv> (let (moved, s1) = up ts i s in if moved then s1 else snd (down ts i s1))"
  shows "sq_inv g ts s' \<and> mset (sq s') = mset (sq s)"
proof (cases "above_parent ts i (sq s)")
  case True
  then show ?thesis
    unfolding s'_def using down_ok [OF assms(1-3)] up_not_moved [OF True assms(1)] by simp
next
  case False
  have "below_children ts i (sq s)"
    unfolding below_children_def
  proof (intro allI impI)
    fix n assume n: "0 < n \<and> n < length (sq s) \<and> parent n = i"
    have "ts (sq s ! i) < ts (sq s ! parent i)" "0 < i" using False by (auto simp: above_parent_def)
    moreover have "ts (sq s ! parent i) \<le> ts (sq s ! n)"
      using assms(3) n \<open>0 < i\<close> unfolding heap_but_def by blast
    ultimately show "ts (sq s ! i) \<le> ts (sq s ! n)" by simp
  qed
  then show ?thesis
    unfolding s'_def using up_ok [OF assms(1-3)] up_moved [OF assms(1-3)] False
    by (auto split: prod.splits)
qed

text \<open>The field \<open>idx\<close> of the removed thread is written last, when it is no longer queued.\<close>

lemma sq_inv_release:
  "sq_inv (g(x := n)) ts s \<Longrightarrow> x \<notin> set (sq s) \<Longrightarrow>
    sq_inv (g(x := m)) ts (s\<lparr>idx := (idx s)(x := m)\<rparr>)"
  by (auto simp: sq_inv_def pos_def)

lemma sq_idx_commute: "(s :: 'th sleepq)\<lparr>idx := f, sq := q\<rparr> = s\<lparr>sq := q, idx := f\<rparr>"
  by simp

lemma heap_append: "heap ts (xs @ ys) \<Longrightarrow> heap ts xs"
  unfolding heap_def
proof (intro allI impI)
  fix i assume "\<forall>i. 0 < i \<and> i < length (xs @ ys) \<longrightarrow> ts ((xs @ ys) ! parent i) \<le> ts ((xs @ ys) ! i)"
    and i: "0 < i \<and> i < length xs"
  then have "ts ((xs @ ys) ! parent i) \<le> ts ((xs @ ys) ! i)" by simp
  moreover have "parent i < length xs" using i by auto
  ultimately show "ts (xs ! parent i) \<le> ts (xs ! i)" using i by (simp add: nth_append)
qed

lemma pos_snoc:
  assumes "pos g (ys @ [x]) f"
  shows "pos (g(x := m)) ys (f(x := m))"
proof -
  have "f (ys ! i) = int i" if "i < length ys" for i
  proof -
    have "f ((ys @ [x]) ! i) = int i" using assms that unfolding pos_def by (metis length_append trans_less_add1)
    then show ?thesis using that by (simp add: nth_append)
  qed
  then show ?thesis using assms by (auto simp: pos_def)
qed

lemma sq_pop_ok:
  assumes inv: "sq_inv g ts s" and x: "x \<in> set (sq s)"
  shows "sq_inv (g(x := -1)) ts (fst (sq_pop ts x s))" and "snd (sq_pop ts x s) = 0"
    and "add_mset x (mset (sq (fst (sq_pop ts x s)))) = mset (sq s)"
proof -
  obtain k where k: "k < length (sq s)" "x = sq s ! k" using x by (metis in_set_conv_nth)
  have idx: "idx s x = int k" using inv k by (simp add: sq_inv_def pos_def)
  have "sq_inv (g(x := -1)) ts (fst (sq_pop ts x s)) \<and> snd (sq_pop ts x s) = 0 \<and>
    add_mset x (mset (sq (fst (sq_pop ts x s)))) = mset (sq s)"
  proof (cases "k = length (sq s) - 1")
    case True
    obtain ys y where "sq s = ys @ [y]" using k(1) by (cases "sq s" rule: rev_cases) auto
    then have ys: "sq s = ys @ [x]" using True k(2) by simp
    then have "sq_inv (g(x := -1)) ts (s\<lparr>sq := ys, idx := (idx s)(x := -1)\<rparr>)"
      using inv heap_append [of ts ys "[x]"] pos_snoc [of g ys x] by (simp add: sq_inv_def)
    then show ?thesis using True idx ys by (simp add: sq_pop_def)
  next
    case False
    then have k': "k < length (sq s) - 1" using k by simp
    let ?s = "s\<lparr>sq := butlast ((sq s)[k := last (sq s)]), idx := (idx s)(last (sq s) := int k)\<rparr>"
    define s' where "s' = (let (moved, s1) = up ts k ?s in if moved then s1 else snd (down ts k s1))"
    note v = pos_vacate [of g "sq s" "idx s" k]
    have p: "pos (g(x := int k)) (sq ?s) (idx ?s)"
      using v(1) inv k' idx k(2) by (simp add: sq_inv_def)
    have hb: "heap_but ts k (sq ?s)"
      using heap_but_vacate [OF _ k', of ts] inv by (simp add: sq_inv_def)
    have l: "k < length (sq ?s)" using k' by simp
    have ok: "sq_inv (g(x := int k)) ts s' \<and> mset (sq s') = mset (sq ?s)"
      unfolding s'_def by (rule repair_ok [OF l p hb])
    have m: "add_mset x (mset (sq s')) = mset (sq s)" using ok v(2) inv k k' by (simp add: sq_inv_def)
    have "distinct (sq s)" using inv by (simp add: sq_inv_def pos_def)
    then have "x \<notin> set (sq s')" using mset_eq_imp_distinct_iff [of "x # sq s'" "sq s"] m by simp
    moreover have "sq_pop ts x s = (s'\<lparr>idx := (idx s')(x := -1)\<rparr>, 0)"
      using False idx unfolding sq_pop_def s'_def
      by (simp add: case_prod_beta Let_def sq_idx_commute)
    ultimately show ?thesis
      using sq_inv_release [of g x "int k" ts s' "-1"] ok m by simp
  qed
  then show "sq_inv (g(x := -1)) ts (fst (sq_pop ts x s))" and "snd (sq_pop ts x s) = 0"
    and "add_mset x (mset (sq (fst (sq_pop ts x s)))) = mset (sq s)" by blast+
qed

lemma down_empty: "sq s = [] \<Longrightarrow> down ts 0 s = (False, s)"
  by (simp add: down_def down_loop.simps)

lemma sq_pop_front_ok:
  assumes inv: "sq_inv g ts s" and ne: "sq s \<noteq> []"
  obtains s' where "sq_pop_front ts s = Some (s', sq s ! 0)" "sq_inv (g(sq s ! 0 := -1)) ts s'"
    "add_mset (sq s ! 0) (mset (sq s')) = mset (sq s)"
proof (cases "length (sq s) = 1")
  case True
  then obtain x where x: "sq s = [x]" by (auto simp: length_Suc_conv)
  let ?s = "s\<lparr>sq := [], idx := (idx s)(x := -1)\<rparr>"
  have "sq_pop_front ts s = Some (?s, x)"
    using x by (simp add: sq_pop_front_def down_empty)
  moreover have "sq_inv (g(x := -1)) ts ?s" using inv x by (auto simp: sq_inv_def pos_def heap_def)
  ultimately show ?thesis using that x by simp
next
  case False
  then have k': "0 < length (sq s) - 1" using ne by (cases "sq s") auto
  let ?x = "sq s ! 0"
  let ?s = "s\<lparr>sq := butlast ((sq s)[0 := last (sq s)]), idx := (idx s)(last (sq s) := int 0)\<rparr>"
  define s' where "s' = snd (down ts 0 ?s)"
  note v = pos_vacate [OF _ k', of g "idx s"]
  have p: "pos (g(?x := idx s ?x)) (sq ?s) (idx ?s)"
    using v(1) inv by (simp add: sq_inv_def)
  have hb: "heap_but ts 0 (sq ?s)"
    using heap_but_vacate [OF _ k', of ts] inv by (simp add: sq_inv_def)
  have l: "0 < length (sq ?s)" using k' by simp
  note ok = down_ok [OF l p hb, folded s'_def]
  have ap: "above_parent ts 0 (sq ?s)" by (simp add: above_parent_def)
  have m: "add_mset ?x (mset (sq s')) = mset (sq s)" using ok(2) [OF ap] v(2) inv by (simp add: sq_inv_def)
  have "distinct (sq s)" using inv by (simp add: sq_inv_def pos_def)
  then have "?x \<notin> set (sq s')" using mset_eq_imp_distinct_iff [of "?x # sq s'" "sq s"] m by simp
  then have "sq_inv (g(?x := -1)) ts (s'\<lparr>idx := (idx s')(?x := -1)\<rparr>)"
    by (rule sq_inv_release [OF ok(1) [OF ap]])
  moreover have "sq_pop_front ts s = Some (s'\<lparr>idx := (idx s')(?x := -1)\<rparr>, ?x)"
    using ne by (simp add: sq_pop_front_def s'_def Let_def sq_idx_commute)
  ultimately show ?thesis using that m by simp
qed

text \<open>Taking the first thread shortens the vector, whatever its state.\<close>

lemma length_down_loop: "down_loop ts tmp i ret s = (j, r, s') \<Longrightarrow> length (sq s') = length (sq s)"
proof (induction ts tmp i ret s arbitrary: j r s' rule: down_loop.induct)
  case (1 ts tmp i ret s)
  define c where "c = (if i * 2 + 1 + 1 < length (sq s) \<and> ts (sq s ! (i * 2 + 1 + 1)) < ts (sq s ! (i * 2 + 1))
    then i * 2 + 1 + 1 else i * 2 + 1)"
  have step: "down_loop ts tmp i ret s = (if i * 2 + 1 < length (sq s) \<and> ts (sq s ! c) < ts tmp
      then down_loop ts tmp c True (update_node i (sq s ! c) s) else (i, ret, s))"
    unfolding c_def by (rule down_loop_step [unfolded Let_def])
  show ?case
  proof (cases "i * 2 + 1 < length (sq s) \<and> ts (sq s ! c) < ts tmp")
    case True
    then have "down_loop ts tmp c True (update_node i (sq s ! c) s) = (j, r, s')" using 1(2) step by simp
    from 1(1) [OF refl _ _ _ this] True c_def show ?thesis by (auto simp: update_node_def)
  qed (use 1(2) step in auto)
qed

lemma length_sq_pop_front: "sq_pop_front ts s = Some (s', x) \<Longrightarrow> length (sq s') = length (sq s) - 1"
  by (auto simp: sq_pop_front_def down_def Let_def update_node_def dest!: length_down_loop
      split: if_splits prod.splits)

subsection \<open>The contract of a timer queue\<close>

text \<open>
  What the scheduler relies on: a set of threads with their wake-up times, from which the
  earliest can be taken and any thread can be withdrawn.
\<close>

fun pops :: "('s \<Rightarrow> ('s \<times> 'th) option) \<Rightarrow> nat \<Rightarrow> 's \<Rightarrow> ('s \<times> 'th list) option" where
  "pops pf 0 s = Some (s, [])"
| "pops pf (Suc n) s =
     (case pf s of None \<Rightarrow> None
      | Some (s', x) \<Rightarrow> map_option (map_prod id (Cons x)) (pops pf n s'))"

locale timer_queue =
  fixes ts :: "'th \<Rightarrow> 'k::linorder"
    and elems :: "'s \<Rightarrow> 'th set" and inv :: "'s \<Rightarrow> bool"
    and push :: "'th \<Rightarrow> 's \<Rightarrow> 's" and front :: "'s \<Rightarrow> 'th option"
    and pop_front :: "'s \<Rightarrow> ('s \<times> 'th) option" and pop :: "'th \<Rightarrow> 's \<Rightarrow> 's"
  assumes finite_elems: "finite (elems s)"
    and push_ok: "inv s \<Longrightarrow> x \<notin> elems s \<Longrightarrow> inv (push x s) \<and> elems (push x s) = insert x (elems s)"
    and front_ok: "inv s \<Longrightarrow> elems s \<noteq> {} \<Longrightarrow>
      \<exists>x. front s = Some x \<and> x \<in> elems s \<and> (\<forall>y\<in>elems s. ts x \<le> ts y)"
    and front_none: "elems s = {} \<Longrightarrow> front s = None"
    and pop_front_ok: "inv s \<Longrightarrow> front s = Some x \<Longrightarrow>
      \<exists>s'. pop_front s = Some (s', x) \<and> inv s' \<and> elems s' = elems s - {x}"
    and pop_ok: "inv s \<Longrightarrow> inv (pop x s) \<and> elems (pop x s) = elems s - {x}"
begin

text \<open>Taking threads one after the other yields them in the order of their wake-up times.\<close>

lemma pops_sorted:
  "inv s \<Longrightarrow> n \<le> card (elems s) \<Longrightarrow>
    \<exists>s' xs. pops pop_front n s = Some (s', xs) \<and> inv s' \<and> length xs = n \<and> distinct xs \<and>
      set xs \<subseteq> elems s \<and> elems s' = elems s - set xs \<and> sorted (map ts xs) \<and>
      (\<forall>x\<in>set xs. \<forall>y\<in>elems s'. ts x \<le> ts y)"
proof (induction n arbitrary: s)
  case (Suc n)
  then have "elems s \<noteq> {}" by auto
  then obtain x where x: "front s = Some x" "x \<in> elems s" "\<forall>y\<in>elems s. ts x \<le> ts y"
    using front_ok Suc.prems by blast
  then obtain s1 where s1: "pop_front s = Some (s1, x)" "inv s1" "elems s1 = elems s - {x}"
    using pop_front_ok Suc.prems by blast
  then have "n \<le> card (elems s1)" using Suc.prems x(2) finite_elems by simp
  from Suc.IH [OF s1(2) this] obtain s' xs where
    "pops pop_front n s1 = Some (s', xs)" "inv s'" "length xs = n" "distinct xs"
    "set xs \<subseteq> elems s1" "elems s' = elems s1 - set xs" "sorted (map ts xs)"
    "\<forall>x\<in>set xs. \<forall>y\<in>elems s'. ts x \<le> ts y" by blast
  with s1 x show ?case
    by (intro exI [of _ s'] exI [of _ "x # xs"]) auto
qed simp

text \<open>Taking everything sorts the queue.\<close>

lemma pops_all:
  assumes "inv s"
  obtains s' xs where "pops pop_front (card (elems s)) s = Some (s', xs)" "elems s' = {}"
    "set xs = elems s" "distinct xs" "sorted (map ts xs)"
proof -
  from pops_sorted [OF assms order_refl] obtain s' xs where p:
    "pops pop_front (card (elems s)) s = Some (s', xs)" "length xs = card (elems s)" "distinct xs"
    "set xs \<subseteq> elems s" "elems s' = elems s - set xs" "sorted (map ts xs)" by blast
  then have "set xs = elems s"
    using card_subset_eq [OF finite_elems p(4)] distinct_card by metis
  with that p show ?thesis by simp
qed

end

abbreviation sq_ok :: "('th \<Rightarrow> u64) \<Rightarrow> 'th sleepq \<Rightarrow> bool" where
  "sq_ok ts \<equiv> sq_inv (\<lambda>_. -1) ts"

lemma sq_ok_distinct: "sq_ok ts s \<Longrightarrow> distinct (sq s)"
  by (simp add: sq_inv_def pos_def)

lemma sq_ok_idx: "sq_ok ts s \<Longrightarrow> idx s x = -1 \<longleftrightarrow> x \<notin> set (sq s)"
  by (auto simp: sq_inv_def pos_def in_set_conv_nth)

lemma remove_elem:
  "add_mset x (mset ys) = mset xs \<Longrightarrow> distinct xs \<Longrightarrow> set ys = set xs - {x}"
  using mset_eq_imp_distinct_iff [of "x # ys" xs] mset_eq_setD [of "x # ys" xs] by auto

lemma sq_pop_set:
  assumes "sq_ok ts s"
  shows "sq_ok ts (fst (sq_pop ts x s)) \<and> set (sq (fst (sq_pop ts x s))) = set (sq s) - {x}"
proof (cases "x \<in> set (sq s)")
  case True
  then show ?thesis
    using sq_pop_ok [OF assms True] fun_upd_idem [of "\<lambda>_. -1 :: int" x "-1"] remove_elem [of x _ "sq s"] sq_ok_distinct [OF assms] by simp
next
  case False
  then show ?thesis using sq_ok_idx [OF assms, of x] assms by (simp add: sq_pop_def)
qed

lemma sq_front_nth: "sq s \<noteq> [] \<Longrightarrow> sq_front s = Some (sq s ! 0)"
  by (cases "sq s") (auto simp: sq_front_def)

interpretation sleep: timer_queue ts "\<lambda>s. set (sq s)" "sq_ok ts" "sq_push ts" sq_front
  "sq_pop_front ts" "\<lambda>x s. fst (sq_pop ts x s)" for ts :: "'th \<Rightarrow> u64"
proof
  fix s :: "'th sleepq" and x
  show "finite (set (sq s))" by simp
  show "sq_ok ts (sq_push ts x s) \<and> set (sq (sq_push ts x s)) = insert x (set (sq s))"
    if "sq_ok ts s" "x \<notin> set (sq s)"
    using sq_push_ok [OF that] mset_eq_setD [of "sq (sq_push ts x s)" "x # sq s"] by simp
  show "\<exists>x. sq_front s = Some x \<and> x \<in> set (sq s) \<and> (\<forall>y\<in>set (sq s). ts x \<le> ts y)"
    if "sq_ok ts s" "set (sq s) \<noteq> {}"
    using that heap_root [of ts "sq s"] sq_front_nth [of s]
    by (auto simp: sq_inv_def in_set_conv_nth Ball_def)
  show "set (sq s) = {} \<Longrightarrow> sq_front s = None" by (simp add: sq_front_def)
  show "\<exists>s'. sq_pop_front ts s = Some (s', x) \<and> sq_ok ts s' \<and> set (sq s') = set (sq s) - {x}"
    if ok: "sq_ok ts s" and fr: "sq_front s = Some x"
  proof -
    have ne: "sq s \<noteq> []" using fr by (auto simp: sq_front_def)
    then have x: "x = sq s ! 0" using fr sq_front_nth [of s] by simp
    obtain s' where "sq_pop_front ts s = Some (s', x)" "sq_ok ts s'"
      "add_mset x (mset (sq s')) = mset (sq s)"
      using sq_pop_front_ok [OF ok ne] x fun_upd_idem [of "\<lambda>_. -1 :: int" x "-1"] by metis
    then show ?thesis using remove_elem [of x "sq s'" "sq s"] sq_ok_distinct [OF ok] by simp
  qed
  show "sq_ok ts (fst (sq_pop ts x s)) \<and> set (sq (fst (sq_pop ts x s))) = set (sq s) - {x}"
    if "sq_ok ts s" using sq_pop_set [OF that] .
qed

subsection \<open>Properties\<close>

text \<open>A queue of three threads, for the witnesses.\<close>

definition example_ts :: "nat \<Rightarrow> u64" where
  "example_ts x = (if x = 0 then 40 else if x = 1 then 20 else 30)"

definition example_sq :: "nat sleepq" where
  "example_sq = sq_push example_ts 2 (sq_push example_ts 1 (sq_push example_ts 0
     \<lparr>sq = [], idx = (\<lambda>_. -1)\<rparr>))"

lemma sq_ok_empty: "sq_ok ts \<lparr>sq = [], idx = (\<lambda>_. -1)\<rparr>"
  by (simp add: sq_inv_def heap_def pos_def)

lemma example_sq_ok: "sq_ok example_ts example_sq" and example_sq_set: "set (sq example_sq) = {0, 1, 2}"
proof -
  define q0 where "q0 = sq_push example_ts 0 \<lparr>sq = [], idx = (\<lambda>_. -1)\<rparr>"
  have q0: "sq_ok example_ts q0 \<and> set (sq q0) = {0}"
    using sleep.push_ok [OF sq_ok_empty, of 0 example_ts] by (simp add: q0_def)
  have q1: "sq_ok example_ts (sq_push example_ts 1 q0) \<and> set (sq (sq_push example_ts 1 q0)) = {0, 1}"
    using sleep.push_ok [of example_ts q0 1] q0 by auto
  show "sq_ok example_ts example_sq" "set (sq example_sq) = {0, 1, 2}"
    using sleep.push_ok [of example_ts "sq_push example_ts 1 q0" 2] q1
    by (auto simp: example_sq_def q0_def)
qed

lemma sq_pop_result: "sq_ok ts s \<Longrightarrow> snd (sq_pop ts x s) = 0 \<longleftrightarrow> x \<in> set (sq s)"
proof (cases "x \<in> set (sq s)")
  case False
  assume "sq_ok ts s"
  then show ?thesis using False sq_ok_idx [of ts s x] by (simp add: sq_pop_def)
qed (simp add: sq_pop_ok(2))

lemma sq_pop_front_min:
  assumes "sq_ok ts s" and "sq s \<noteq> []"
  shows "\<exists>s' y. sq_pop_front ts s = Some (s', y) \<and> sq_ok ts s' \<and> y \<in> set (sq s) \<and>
       set (sq s') = set (sq s) - {y} \<and> (\<forall>z\<in>set (sq s). ts y \<le> ts z)"
proof -
  obtain y where y: "sq_front s = Some y" "y \<in> set (sq s)" "\<forall>z\<in>set (sq s). ts y \<le> ts z"
    using sleep.front_ok [OF assms(1)] assms(2) by auto
  with sleep.pop_front_ok [OF assms(1) y(1)] show ?thesis by blast
qed

text \<open>C6: The heap order of the sleep queue and the position each thread keeps of itself survive
  every operation: pushing a thread that is not queued adds exactly it, \<open>pop\<close> removes exactly
  the given thread wherever it is (and nothing if it is not queued), and \<open>pop_front\<close> on a
  non-empty queue removes a thread whose wake-up time is the smallest.\<close>

theorem sleepq_contract:
  assumes "sq_ok ts s"
  shows "(x \<notin> set (sq s) \<longrightarrow> sq_ok ts (sq_push ts x s) \<and> set (sq (sq_push ts x s)) = insert x (set (sq s))) \<and>
    sq_ok ts (fst (sq_pop ts x s)) \<and> set (sq (fst (sq_pop ts x s))) = set (sq s) - {x} \<and>
    (snd (sq_pop ts x s) = 0 \<longleftrightarrow> x \<in> set (sq s)) \<and>
    (sq s \<noteq> [] \<longrightarrow> (\<exists>s' y. sq_pop_front ts s = Some (s', y) \<and> sq_ok ts s' \<and> y \<in> set (sq s) \<and>
       set (sq s') = set (sq s) - {y} \<and> (\<forall>z\<in>set (sq s). ts y \<le> ts z)))"
  using sleep.push_ok [OF assms, of x] sleep.pop_ok [OF assms, of x] sq_pop_result [OF assms, of x]
    sq_pop_front_min [OF assms] by simp

theorem sleepq_contract_witness:
  "sq_ok example_ts example_sq \<and> set (sq (fst (sq_pop example_ts 1 example_sq))) = {0, 2} \<and>
    (\<exists>s' y. sq_pop_front example_ts example_sq = Some (s', y) \<and> example_ts y = 20)"
proof (intro conjI)
  show "set (sq (fst (sq_pop example_ts 1 example_sq))) = {0, 2}"
    using sleepq_contract [OF example_sq_ok, of 1] insert_Diff_if [of 0 "{1, 2}" "{1 :: nat}"]
    unfolding example_sq_set by simp
  have "sq example_sq \<noteq> []" using example_sq_set by auto
  then obtain s' y where y: "sq_pop_front example_ts example_sq = Some (s', y)"
    "y \<in> {0, 1, 2}" "\<forall>z\<in>{0, 1, 2}. example_ts y \<le> example_ts z"
    using sleepq_contract [OF example_sq_ok, of 0] unfolding example_sq_set by meson
  then have "example_ts y = 20" by (auto simp: example_ts_def split: if_splits)
  with y(1) show "\<exists>s' y. sq_pop_front example_ts example_sq = Some (s', y) \<and> example_ts y = 20"
    by blast
qed (rule example_sq_ok)

text \<open>C7: Emptying a sleep queue with \<open>pop_front\<close> never fails, yields every queued thread
  exactly once, and yields them in the order of their wake-up times.\<close>

theorem sleepq_deadline_order:
  assumes "sq_ok ts s"
  shows "\<exists>s' xs. pops (sq_pop_front ts) (length (sq s)) s = Some (s', xs) \<and> sq s' = [] \<and>
    set xs = set (sq s) \<and> distinct xs \<and> sorted (map ts xs)"
proof -
  obtain s' xs where "pops (sq_pop_front ts) (card (set (sq s))) s = Some (s', xs)" "set (sq s') = {}"
    "set xs = set (sq s)" "distinct xs" "sorted (map ts xs)"
    by (rule sleep.pops_all [OF assms])
  then show ?thesis using distinct_card [OF sq_ok_distinct [OF assms]] by auto
qed

theorem sleepq_deadline_order_witness:
  "\<exists>s' xs. pops (sq_pop_front example_ts) 3 example_sq = Some (s', xs) \<and> sq s' = [] \<and>
    set xs = {0, 1, 2} \<and> sorted (map example_ts xs)"
proof -
  have "length (sq example_sq) = 3"
    using distinct_card [OF sq_ok_distinct [OF example_sq_ok]] example_sq_set by simp
  with sleepq_deadline_order [OF example_sq_ok] show ?thesis
    unfolding example_sq_set by (simp only:) blast
qed

end
