(* ===== verification/Timeout.thy ===== *)
theory Timeout
  imports Utility
begin

text \<open>
  Deadlines (class Timeout of src/common/timeout.h): a 64-bit expiration time in microseconds,
  where all ones means never.  The global \<open>now\<close> is a parameter of every operation that reads it.
\<close>

type_synonym timeout = u64

definition never :: timeout where
  "never = -1"

definition timeout_in :: "u64 \<Rightarrow> u64 \<Rightarrow> timeout" where
  "timeout_in now x = (if x \<noteq> 0 then sat_add now x else 0)"

definition timeout_assign :: "u64 \<Rightarrow> u64 \<Rightarrow> timeout" where
  "timeout_assign now x = sat_add now x"

definition timeout_left :: "u64 \<Rightarrow> timeout \<Rightarrow> u64" where
  "timeout_left now t = sat_sub t now"

definition expired :: "u64 \<Rightarrow> timeout \<Rightarrow> bool" where
  "expired now t \<longleftrightarrow> t = 0 \<or> t \<le> now"

definition timeout_divide :: "u64 \<Rightarrow> u64 \<Rightarrow> u64" where
  "timeout_divide x divisor = (x + divisor div 2) div divisor"

definition timeout_ms :: "u64 \<Rightarrow> timeout \<Rightarrow> u64" where
  "timeout_ms now t = timeout_divide (timeout_left now t) 1000"

definition timeout_MS :: "u64 \<Rightarrow> timeout \<Rightarrow> u64" where
  "timeout_MS now t = timeout_divide (timeout_left now t) 1024"

definition timeout_s :: "u64 \<Rightarrow> timeout \<Rightarrow> u64" where
  "timeout_s now t = timeout_divide (timeout_left now t) (1000 * 1000)"

definition timeout_S :: "u64 \<Rightarrow> timeout \<Rightarrow> u64" where
  "timeout_S now t = timeout_divide (timeout_left now t) (1024 * 1024)"

definition timeout_less :: "timeout \<Rightarrow> timeout \<Rightarrow> bool" where
  "timeout_less a b \<longleftrightarrow> a < b"

definition timeout_at_most :: "u64 \<Rightarrow> u64 \<Rightarrow> timeout \<Rightarrow> timeout" where
  "timeout_at_most now x t = (let y = sat_add now x in if y < t then y else t)"

text \<open>The largest count of \<open>std::chrono::microseconds\<close>, whose representation is a signed 64-bit integer.\<close>

definition std_duration :: "u64 \<Rightarrow> timeout \<Rightarrow> u64" where
  "std_duration now t = (if t > 9223372036854775807 then 9223372036854775807 else timeout_left now t)"

subsection \<open>Properties\<close>

lemma unat_timeout_left: "unat (timeout_left now t) = unat t - unat now"
  by (simp add: timeout_left_def unat_sat_sub)

lemma sat_add_le_max: "unat (sat_add x y) = min (unat x + unat y) 18446744073709551615"
  by (rule unat_sat_add)

text \<open>C8: A relative timeout \<open>x\<close> taken at time \<open>now\<close> expires exactly when the clock has advanced
  by \<open>x\<close> microseconds, unless the sum leaves the 64-bit range, in which case it saturates to the
  largest time instead of wrapping to an early one; 0 is expired at once.\<close>

theorem timeout_expires_on_time:
  assumes "now \<le> later"
  shows "expired later (timeout_in now x) \<longleftrightarrow>
    unat later = 18446744073709551615 \<or> unat now + unat x \<le> unat later"
proof (cases "x = 0")
  case True
  then show ?thesis using assms by (simp add: expired_def timeout_in_def word_le_nat_alt)
next
  case False
  then have "0 < unat x" by (simp add: unat_gt_0)
  then have "timeout_in now x \<noteq> 0"
    using False sat_add_le_max [of now x] by (auto simp: timeout_in_def word_eq_iff_unat min_def split: if_splits)
  then show ?thesis
    using False sat_add_le_max [of now x] unat_u64_le [of later]
    by (auto simp: expired_def timeout_in_def word_le_nat_alt min_def)
qed

theorem timeout_expires_on_time_witness:
  "\<not> expired 150 (timeout_in 100 60) \<and> expired 160 (timeout_in 100 60)"
  using timeout_expires_on_time [of 100 150 60] timeout_expires_on_time [of 100 160 60] by simp

text \<open>Bounding a timeout never extends it and bounds what is left of it.\<close>

lemma timeout_at_most_le: "timeout_at_most now x t \<le> t"
  by (auto simp: timeout_at_most_def Let_def)

lemma timeout_at_most_left: "unat (timeout_left now (timeout_at_most now x t)) \<le> unat x"
proof -
  have "unat (timeout_at_most now x t) \<le> unat now + unat x"
    using sat_add_le_max [of now x] by (auto simp: timeout_at_most_def Let_def word_less_nat_alt)
  then show ?thesis by (simp add: unat_timeout_left)
qed

end
