(* ===== verification/Thread_State.thy ===== *)
theory Thread_State
  imports Sleep_Queue Utility
begin

text \<open>
  The state of the scheduler of src/thread/thread.cpp: the fields of every thread and of every
  vCPU, the run queue with its operations (RunQ, AtomicRunQ), the stand-by queue and the wait
  queues.  Threads are identified by their address, a number; each field of struct thread is a
  function of it.  A queue is the list of the threads on its ring, from the first one; for a run
  queue the first one is CURRENT.  Theory Intrusive_List relates such lists to the pointer rings.
  A result \<open>None\<close> stands for a failed assertion.
\<close>

subsection \<open>Threads and vCPUs\<close>

type_synonym tid = nat
type_synonym vid = nat

text \<open>A wait queue is the one of a thread's own join condition, or one in some other object.\<close>

datatype wid = Cond tid | Wq nat

datatype states = READY | RUNNING | SLEEPING | DONE | STANDBY

record sched =
  threads :: "tid set"
  vcpu_of :: "tid \<Rightarrow> vid"
  error_number :: "tid \<Rightarrow> int"
  waitq_of :: "tid \<Rightarrow> wid option"
  th_flags :: "tid \<Rightarrow> u32"
  th_state :: "tid \<Rightarrow> states"
  ts_wakeup :: "tid \<Rightarrow> u64"
  th_idx :: "tid \<Rightarrow> int"
  vcpus :: "vid set"
  runq :: "vid \<Rightarrow> tid list"
  sleepq :: "vid \<Rightarrow> tid list"
  standbyq :: "vid \<Rightarrow> tid list"
  nthreads :: "vid \<Rightarrow> int"
  idle_worker :: "vid \<Rightarrow> tid"
  vcpu_flags :: "vid \<Rightarrow> u8"
  switch_count :: "vid \<Rightarrow> u64"
  waiters :: "wid \<Rightarrow> tid list"
  now :: "u64"

text \<open>The constants THREAD_* and VCPU_* of thread.h, and the bit operations on the flags.\<close>

definition THREAD_JOINABLE :: u32 where "THREAD_JOINABLE = 1"
definition THREAD_ENABLE_WORK_STEALING :: u32 where "THREAD_ENABLE_WORK_STEALING = 2"
definition THREAD_PAUSE_WORK_STEALING :: u32 where "THREAD_PAUSE_WORK_STEALING = 4"
definition VCPU_ENABLE_ACTIVE_WORK_STEALING :: u8 where "VCPU_ENABLE_ACTIVE_WORK_STEALING = 1"
definition VCPU_ENABLE_PASSIVE_WORK_STEALING :: u8 where "VCPU_ENABLE_PASSIVE_WORK_STEALING = 2"

definition is_bit :: "nat \<Rightarrow> u32 \<Rightarrow> bool" where
  "is_bit i f \<longleftrightarrow> f AND push_bit i 1 \<noteq> 0"

definition set_bit_flag :: "nat \<Rightarrow> bool \<Rightarrow> u32 \<Rightarrow> u32" where
  "set_bit_flag i b f = (if b then f OR push_bit i 1 else f AND NOT (push_bit i 1))"

abbreviation joinable_shift :: nat where "joinable_shift \<equiv> 0"
abbreviation enable_work_stealing_shift :: nat where "enable_work_stealing_shift \<equiv> 1"
abbreviation shutting_down_shift :: nat where "shutting_down_shift \<equiv> 3"

definition is_joinable :: "tid \<Rightarrow> sched \<Rightarrow> bool" where
  "is_joinable th s = is_bit joinable_shift (th_flags s th)"

definition set_joinable :: "tid \<Rightarrow> bool \<Rightarrow> sched \<Rightarrow> sched" where
  "set_joinable th b s = s\<lparr>th_flags := (th_flags s)(th := set_bit_flag joinable_shift b (th_flags s th))\<rparr>"

definition is_shutting_down :: "tid \<Rightarrow> sched \<Rightarrow> bool" where
  "is_shutting_down th s = is_bit shutting_down_shift (th_flags s th)"

definition set_shutting_down :: "tid \<Rightarrow> bool \<Rightarrow> sched \<Rightarrow> sched" where
  "set_shutting_down th b s =
     s\<lparr>th_flags := (th_flags s)(th := set_bit_flag shutting_down_shift b (th_flags s th))\<rparr>"

definition allow_work_stealing :: "tid \<Rightarrow> sched \<Rightarrow> bool" where
  "allow_work_stealing th s \<longleftrightarrow> is_bit enable_work_stealing_shift (th_flags s th) \<and>
     th_flags s th AND THREAD_PAUSE_WORK_STEALING = 0"

definition thread_pause_work_stealing :: "bool \<Rightarrow> tid \<Rightarrow> sched \<Rightarrow> sched" where
  "thread_pause_work_stealing flag th s =
     s\<lparr>th_flags := (th_flags s)(th :=
        if flag then th_flags s th OR THREAD_PAUSE_WORK_STEALING
        else th_flags s th AND NOT THREAD_PAUSE_WORK_STEALING)\<rparr>"

text \<open>
  The result of a blocking call: \<open>None\<close> is the return value 0, \<open>Some e\<close> the return value -1 with
  errno set to \<open>e\<close>.
\<close>

type_synonym ret = "int option"

definition set_error_number :: "tid \<Rightarrow> sched \<Rightarrow> sched \<times> ret" where
  "set_error_number th s =
     (if error_number s th \<noteq> 0
      then (s\<lparr>error_number := (error_number s)(th := 0)\<rparr>, Some (error_number s th))
      else (s, None))"

subsection \<open>The run queue\<close>

definition current :: "vid \<Rightarrow> sched \<Rightarrow> tid" where
  "current v s = hd (runq s v)"

text \<open>The pair handed out is \<open>Switch {from, to}\<close>.\<close>

definition remove_current :: "vid \<Rightarrow> states \<Rightarrow> sched \<Rightarrow> (sched \<times> tid \<times> tid) option" where
  "remove_current v new_state s =
     (case runq s v of
        from # to # rest \<Rightarrow>
          Some (s\<lparr>runq := (runq s)(v := to # rest),
                  th_state := (th_state s)(from := new_state, to := RUNNING)\<rparr>, from, to)
      | _ \<Rightarrow> None)"

text \<open>The same ring, read from another of its threads on.\<close>

definition ring_from :: "'a \<Rightarrow> 'a list \<Rightarrow> 'a list" where
  "ring_from x xs = dropWhile (\<lambda>y. y \<noteq> x) xs @ takeWhile (\<lambda>y. y \<noteq> x) xs"

definition do_goto :: "vid \<Rightarrow> tid \<Rightarrow> sched \<Rightarrow> sched \<times> tid \<times> tid" where
  "do_goto v to s =
     (let from = current v s
      in (s\<lparr>th_state := (th_state s)(from := READY, to := RUNNING),
            runq := (runq s)(v := ring_from to (runq s v))\<rparr>, from, to))"

definition goto_next :: "vid \<Rightarrow> sched \<Rightarrow> (sched \<times> tid \<times> tid) option" where
  "goto_next v s =
     (case runq s v of from # to # rest \<Rightarrow> Some (do_goto v to s) | _ \<Rightarrow> None)"

definition try_goto :: "vid \<Rightarrow> tid \<Rightarrow> sched \<Rightarrow> (sched \<times> tid \<times> tid) option" where
  "try_goto v th s =
     (if vcpu_of s th \<noteq> v then None
      else case runq s v of
        [] \<Rightarrow> None
      | c # rest \<Rightarrow> Some (do_goto v th (s\<lparr>runq := (runq s)(v := c # th # remove1 th rest)\<rparr>)))"

definition rq_single :: "vid \<Rightarrow> sched \<Rightarrow> bool" where
  "rq_single v s \<longleftrightarrow> length (runq s v) = 1"

definition size_1or2 :: "vid \<Rightarrow> sched \<Rightarrow> bool" where
  "size_1or2 v s \<longleftrightarrow> length (runq s v) \<le> 2"

definition rq_insert_tail :: "vid \<Rightarrow> tid \<Rightarrow> sched \<Rightarrow> sched" where
  "rq_insert_tail v th s = s\<lparr>runq := (runq s)(v := runq s v @ [th])\<rparr>"

definition rq_insert_list_before :: "vid \<Rightarrow> tid list \<Rightarrow> sched \<Rightarrow> sched" where
  "rq_insert_list_before v lst s = s\<lparr>runq := (runq s)(v := runq s v @ lst)\<rparr>"

definition rq_remove_from_list :: "vid \<Rightarrow> tid \<Rightarrow> sched \<Rightarrow> sched option" where
  "rq_remove_from_list v th s =
     (if th_state s th = READY \<and> vcpu_of s th = v \<and> th \<noteq> current v s
      then Some (s\<lparr>runq := (runq s)(v := remove1 th (runq s v))\<rparr>) else None)"

text \<open>
  \<open>defer_to_new_thread\<close> keeps a deferred function from running in the idle worker: it postpones
  the idle worker by one place, unless there is no other thread to run.
\<close>

definition defer_to_new_thread :: "vid \<Rightarrow> sched \<Rightarrow> sched \<times> bool" where
  "defer_to_new_thread v s =
     (case runq s v of
        [c] \<Rightarrow> (s, c = idle_worker s v)
      | [c, n] \<Rightarrow> (s, n = idle_worker s v)
      | c # n # m # rest \<Rightarrow>
          (if n = idle_worker s v
           then (s\<lparr>runq := (runq s)(v := c # m # n # rest)\<rparr>, False) else (s, False))
      | [] \<Rightarrow> (s, False))"

subsection \<open>Leaving a wait queue; the stand-by queue\<close>

definition dequeue_ready_atomic :: "tid \<Rightarrow> states \<Rightarrow> sched \<Rightarrow> sched option" where
  "dequeue_ready_atomic th newstat s =
     (case waitq_of s th of
        Some w \<Rightarrow>
          (if waiters s w = [] then None
           else Some (s\<lparr>waiters := (waiters s)(w := remove1 th (waiters s w)),
                        waitq_of := (waitq_of s)(th := None),
                        th_state := (th_state s)(th := newstat)\<rparr>))
      | None \<Rightarrow>
          (if th \<in> set (runq s (vcpu_of s th)) \<or> th \<in> set (standbyq s (vcpu_of s th)) then None
           else Some (s\<lparr>th_state := (th_state s)(th := newstat)\<rparr>)))"

definition move_to_standbyq_atomic :: "vid \<Rightarrow> tid \<Rightarrow> sched \<Rightarrow> sched option" where
  "move_to_standbyq_atomic v th s =
     (if vcpu_of s th = v then Some (s\<lparr>standbyq := (standbyq s)(v := standbyq s v @ [th])\<rparr>) else None)"

definition prepare_switch :: "tid \<Rightarrow> tid \<Rightarrow> sched \<Rightarrow> sched option" where
  "prepare_switch from to s =
     (if vcpu_of s from = vcpu_of s to \<and> th_state s to = RUNNING
      then (let v = vcpu_of s to
            in Some (s\<lparr>switch_count := (switch_count s)(v := switch_count s v + 1)\<rparr>))
      else None)"

text \<open>The sleep queue of a vCPU: its vector and the positions in the threads.\<close>

definition sq_view :: "vid \<Rightarrow> sched \<Rightarrow> tid Sleep_Queue.sleepq" where
  "sq_view v s = \<lparr>sq = sleepq s v, idx = th_idx s\<rparr>"

definition sq_put :: "vid \<Rightarrow> tid Sleep_Queue.sleepq \<Rightarrow> sched \<Rightarrow> sched" where
  "sq_put v q s = s\<lparr>sleepq := (sleepq s)(v := sq q), th_idx := idx q\<rparr>"

definition sleepq_push :: "vid \<Rightarrow> tid \<Rightarrow> sched \<Rightarrow> sched" where
  "sleepq_push v th s = sq_put v (sq_push (ts_wakeup s) th (sq_view v s)) s"

definition sleepq_pop :: "vid \<Rightarrow> tid \<Rightarrow> sched \<Rightarrow> sched" where
  "sleepq_pop v th s = sq_put v (fst (sq_pop (ts_wakeup s) th (sq_view v s))) s"

definition sleepq_pop_front :: "vid \<Rightarrow> sched \<Rightarrow> (sched \<times> tid) option" where
  "sleepq_pop_front v s =
     map_option (\<lambda>(q, th). (sq_put v q s, th)) (sq_pop_front (ts_wakeup s) (sq_view v s))"

end
