(* ===== verification/Scheduler.thy ===== *)
theory Scheduler
  imports Thread_State Timeout
begin

text \<open>
  The operations of the scheduler of src/thread/thread.cpp.  A function that blocks is divided at
  its context switch: the first part runs in the caller up to \<open>switch_context\<close>, the part named
  \<open>..._resumed\<close> is what the same thread does when it is switched back to.  Each definition is one
  atomic step of a vCPU; the spinlocks that make it so are not part of the state.  Where the code
  reads the clock, the reading is an argument.
\<close>

subsection \<open>Creation and termination of a thread\<close>

text \<open>The layout of a new stack (the first half of \<open>thread_create\<close>): the size to allocate, or the error.\<close>

datatype create_error = Bad_reserved_space | Bad_flags

definition DEFAULT_STACK_SIZE :: u64 where
  "DEFAULT_STACK_SIZE = 8 * 1024 * 1024"

definition stack_size_to_alloc ::
    "u64 \<Rightarrow> u64 \<Rightarrow> u64 \<Rightarrow> u64 \<Rightarrow> u32 \<Rightarrow> u64 \<Rightarrow> create_error + u64" where
  "stack_size_to_alloc sizeof_thread page_size random_index stack_size reserved_space flags =
     (let stack_size = (if stack_size = 0 then DEFAULT_STACK_SIZE else stack_size)
      in if ucast reserved_space > stack_size div 2 then Inl Bad_reserved_space
         else if flags AND NOT (ucast (THREAD_JOINABLE OR THREAD_ENABLE_WORK_STEALING)) \<noteq> 0 then Inl Bad_flags
         else
           (let randomizer = (random_index mod 512) * 8;
                least = sizeof_thread + randomizer + 63 + ucast reserved_space;
                least = least + page_size;
                least = align_up (max (16 * 1024) least) page_size;
                stack_size = align_up stack_size page_size
            in Inr (if stack_size < least then least else stack_size)))"

text \<open>Where the thread object and its initial stack pointer are placed in the allocated stack.\<close>

definition stack_layout :: "u64 \<Rightarrow> u64 \<Rightarrow> u64 \<Rightarrow> u64 \<Rightarrow> u32 \<Rightarrow> u64 \<times> u64" where
  "stack_layout sizeof_thread random_index ptr stack_size reserved_space =
     (let randomizer = (random_index mod 512) * 8;
          p = align_down (ptr + stack_size - sizeof_thread - randomizer) 64;
          sp = align_down (p - ucast reserved_space) 64
      in (p, sp))"

text \<open>The second half of \<open>thread_create\<close>: the new object \<open>th\<close> joins the run queue of the caller.\<close>

definition thread_create :: "vid \<Rightarrow> tid \<Rightarrow> u32 \<Rightarrow> sched \<Rightarrow> sched" where
  "thread_create v th flags s =
     (let s1 = s\<lparr>threads := insert th (threads s),
                 th_idx := (th_idx s)(th := -1), error_number := (error_number s)(th := 0),
                 waitq_of := (waitq_of s)(th := None), th_state := (th_state s)(th := READY),
                 ts_wakeup := (ts_wakeup s)(th := 0), th_flags := (th_flags s)(th := flags),
                 waiters := (waiters s)(Cond th := []),
                 vcpu_of := (vcpu_of s)(th := v)\<rparr>;
          s2 = s1\<lparr>nthreads := (nthreads s1)(v := nthreads s1 v + 1)\<rparr>
      in rq_insert_tail v th s2)"

subsection \<open>Sleeping\<close>

definition prepare_usleep :: "vid \<Rightarrow> timeout \<Rightarrow> wid option \<Rightarrow> u64 \<Rightarrow> sched \<Rightarrow> (sched \<times> tid \<times> tid) option" where
  "prepare_usleep v timeout waitq clk s =
     (case remove_current v SLEEPING s of
        None \<Rightarrow> None
      | Some (s1, from, to) \<Rightarrow>
          (let s2 = (case waitq of
                       None \<Rightarrow> s1
                     | Some w \<Rightarrow> s1\<lparr>waiters := (waiters s1)(w := waiters s1 w @ [from]),
                                     waitq_of := (waitq_of s1)(from := Some w)\<rparr>);
               s3 = s2\<lparr>now := clk\<rparr>;
               s4 = s3\<lparr>ts_wakeup := (ts_wakeup s3)(from := timeout)\<rparr>
           in Some (sleepq_push (vcpu_of s4 from) from s4, from, to)))"

definition switch_to :: "(sched \<times> tid \<times> tid) option \<Rightarrow> sched option" where
  "switch_to sw = Option.bind sw (\<lambda>(s, from, to). prepare_switch from to s)"

definition thread_yield :: "vid \<Rightarrow> u64 \<Rightarrow> sched \<Rightarrow> sched option" where
  "thread_yield v clk s =
     (let s1 = s\<lparr>now := clk\<rparr>;
          s2 = s1\<lparr>error_number := (error_number s1)(current v s1 := 0)\<rparr>
      in switch_to (goto_next v s2))"

definition thread_yield_resumed :: "tid \<Rightarrow> sched \<Rightarrow> int" where
  "thread_yield_resumed th s = error_number s th"

definition thread_yield_fast :: "vid \<Rightarrow> sched \<Rightarrow> sched option" where
  "thread_yield_fast v s = switch_to (goto_next v s)"

definition yield_as_sleep_resumed :: "tid \<Rightarrow> sched \<Rightarrow> ret" where
  "yield_as_sleep_resumed th s =
     (if thread_yield_resumed th s \<noteq> 0 then Some (thread_yield_resumed th s) else None)"

text \<open>\<open>thread_usleep(timeout, waitq)\<close>: an expired timeout only yields.\<close>

definition thread_usleep_waitq :: "vid \<Rightarrow> timeout \<Rightarrow> wid option \<Rightarrow> u64 \<Rightarrow> sched \<Rightarrow> sched option" where
  "thread_usleep_waitq v timeout waitq clk s =
     (if expired (now s) timeout then thread_yield v clk s
      else switch_to (prepare_usleep v timeout waitq clk s))"

definition usleep_resumed :: "tid \<Rightarrow> sched \<Rightarrow> (sched \<times> ret) option" where
  "usleep_resumed th s = (if waitq_of s th \<noteq> None then None else Some (set_error_number th s))"

definition thread_usleep :: "vid \<Rightarrow> timeout \<Rightarrow> u64 \<Rightarrow> sched \<Rightarrow> sched option" where
  "thread_usleep v timeout clk s =
     (if expired (now s) timeout then thread_yield v clk s
      else if is_shutting_down (current v s) s
      then switch_to (prepare_usleep v (timeout_at_most (now s) (10 * 1000) timeout) None clk s)
      else switch_to (prepare_usleep v timeout None clk s))"

text \<open>In a thread that is shutting down, a sleep that was not interrupted reports EPERM.\<close>

definition EPERM :: int where "EPERM = 1"
definition EINVAL :: int where "EINVAL = 22"
definition ENOSYS :: int where "ENOSYS = 38"
definition ETIMEDOUT :: int where "ETIMEDOUT = 110"

definition shutdown_usleep_resumed :: "tid \<Rightarrow> sched \<Rightarrow> (sched \<times> ret) option" where
  "shutdown_usleep_resumed th s =
     map_option (\<lambda>(s', r). (s', Some (case r of None \<Rightarrow> EPERM | Some e \<Rightarrow> e))) (usleep_resumed th s)"

text \<open>
  \<open>thread_usleep_defer\<close>: the deferred function runs right after the switch, in the thread that
  is switched to; it is an argument here.  When only the idle worker could run it, a thread
  (here \<open>worker\<close>) is created for it instead.
\<close>

definition thread_usleep_defer_waitq ::
    "vid \<Rightarrow> timeout \<Rightarrow> wid option \<Rightarrow> (sched \<Rightarrow> sched option) \<Rightarrow> u64 \<Rightarrow> sched \<Rightarrow> sched option" where
  "thread_usleep_defer_waitq v timeout waitq defer clk s =
     Option.bind (switch_to (prepare_usleep v timeout waitq clk s)) defer"

definition thread_usleep_defer ::
    "vid \<Rightarrow> timeout \<Rightarrow> tid \<Rightarrow> (sched \<Rightarrow> sched option) \<Rightarrow> u64 \<Rightarrow> sched \<Rightarrow> sched option" where
  "thread_usleep_defer v timeout worker defer clk s =
     (case defer_to_new_thread v s of
        (s1, True) \<Rightarrow> thread_usleep v timeout clk (thread_create v worker 0 s1)
      | (s1, False) \<Rightarrow>
          (let t = (if is_shutting_down (current v s1) s1
                    then timeout_at_most (now s1) (10 * 1000) timeout else timeout)
           in thread_usleep_defer_waitq v t None defer clk s1))"

subsection \<open>Waking\<close>

text \<open>
  \<open>prelocked_thread_interrupt\<close>, called on vCPU \<open>rq\<close> (\<open>None\<close>: from a thread outside photon).  A
  thread of the same vCPU goes back to the run queue at once; a thread of another vCPU goes to the
  stand-by queue of that vCPU and stays in its sleep queue.
\<close>

definition prelocked_thread_interrupt :: "vid option \<Rightarrow> tid \<Rightarrow> int \<Rightarrow> sched \<Rightarrow> sched option" where
  "prelocked_thread_interrupt rq th e s =
     (let v = vcpu_of s th
      in if th_state s th \<noteq> SLEEPING \<or> (case rq of None \<Rightarrow> False | Some w \<Rightarrow> th = current w s) then None
         else
           (let s1 = s\<lparr>error_number := (error_number s)(th := e)\<rparr>
            in if rq \<noteq> Some v
               then Option.bind (dequeue_ready_atomic th STANDBY s1) (move_to_standbyq_atomic v th)
               else map_option (\<lambda>s2. rq_insert_tail v th (sleepq_pop v th s2))
                      (dequeue_ready_atomic th READY s1)))"

definition thread_interrupt :: "vid option \<Rightarrow> tid \<Rightarrow> int \<Rightarrow> sched \<Rightarrow> sched option" where
  "thread_interrupt rq th e s =
     (if th_state s th \<noteq> SLEEPING
      then Some (if th_state s th = READY \<and> error_number s th = 0
                 then s\<lparr>error_number := (error_number s)(th := e)\<rparr> else s)
      else prelocked_thread_interrupt rq th e s)"

definition thread_shutdown :: "vid option \<Rightarrow> tid \<Rightarrow> bool \<Rightarrow> sched \<Rightarrow> sched option" where
  "thread_shutdown rq th flag s =
     (let s1 = set_shutting_down th flag s
      in if th_state s1 th = SLEEPING then thread_interrupt rq th EPERM s1 else Some s1)"

definition resume_one :: "vid option \<Rightarrow> wid \<Rightarrow> int \<Rightarrow> sched \<Rightarrow> (sched \<times> tid option) option" where
  "resume_one rq w e s =
     (case waiters s w of
        [] \<Rightarrow> Some (s, None)
      | h # _ \<Rightarrow>
          (if waitq_of s h \<noteq> Some w then None
           else map_option (\<lambda>s'. (s', Some h)) (prelocked_thread_interrupt rq h e s)))"

subsection \<open>Termination\<close>

text \<open>
  \<open>die\<close> wakes a joiner, then leaves the run queue.  A thread that is not joinable is disposed of
  right after the switch.
\<close>

definition die :: "vid \<Rightarrow> sched \<Rightarrow> sched option" where
  "die v s =
     (let th = current v s; s1 = s\<lparr>th_state := (th_state s)(th := DONE)\<rparr>
      in Option.bind (resume_one (Some v) (Cond th) (-1) s1) (\<lambda>(s2, _).
         (let s3 = s2\<lparr>nthreads := (nthreads s2)(vcpu_of s2 th := nthreads s2 (vcpu_of s2 th) - 1)\<rparr>
          in Option.bind (remove_current v DONE s3) (\<lambda>(s4, from, to).
               if from \<noteq> th then None
               else Some (if is_joinable th s4 then s4 else s4\<lparr>threads := threads s4 - {th}\<rparr>)))))"

definition thread_enable_join :: "tid \<Rightarrow> bool \<Rightarrow> sched \<Rightarrow> sched" where
  "thread_enable_join th flag s = set_joinable th flag s"

text \<open>
  \<open>thread_join\<close>: as long as the thread is not done, the joiner waits on its condition; once it is
  done it is disposed of.  The result says whether the join is complete.
\<close>

definition thread_join :: "vid \<Rightarrow> tid \<Rightarrow> u64 \<Rightarrow> sched \<Rightarrow> (sched \<times> bool) option" where
  "thread_join v th clk s =
     (if \<not> is_joinable th s then None
      else if th_state s th = DONE then Some (s\<lparr>threads := threads s - {th}\<rparr>, True)
      else map_option (\<lambda>s'. (s', False)) (thread_usleep_defer_waitq v never (Some (Cond th)) Some clk s))"

subsection \<open>Moving threads back to the run queue\<close>

text \<open>The threads of the stand-by queue: each becomes READY and leaves the sleep queue.\<close>

fun resume_standby :: "vid \<Rightarrow> tid list \<Rightarrow> sched \<Rightarrow> sched option" where
  "resume_standby v [] s = Some s"
| "resume_standby v (th # ths) s =
     (if th_state s th \<noteq> STANDBY then None
      else resume_standby v ths (sleepq_pop v th (s\<lparr>th_state := (th_state s)(th := READY)\<rparr>)))"

text \<open>The sleepers whose time has come, in the order in which they leave the queue.\<close>

lemma length_sleepq_pop_front:
  "sleepq_pop_front v s = Some (s', th) \<Longrightarrow> length (sleepq s' v) = length (sleepq s v) - 1"
  by (auto simp: sleepq_pop_front_def sq_put_def sq_view_def dest!: length_sq_pop_front)

lemma sleepq_pop_front_Nil: "sleepq s v = [] \<Longrightarrow> sleepq_pop_front v s = None"
  by (simp add: sleepq_pop_front_def sq_view_def sq_pop_front_def)

lemma dequeue_ready_sleepq: "dequeue_ready_atomic th st s = Some s' \<Longrightarrow> sleepq s' = sleepq s"
  by (auto simp: dequeue_ready_atomic_def split: option.splits if_splits)

function resume_sleepers :: "vid \<Rightarrow> sched \<Rightarrow> (sched \<times> tid list) option" where
  "resume_sleepers v s =
     (case sleepq s v of
        [] \<Rightarrow> Some (s, [])
      | front # _ \<Rightarrow>
          (if now s < ts_wakeup s front then Some (s, [])
           else case sleepq_pop_front v s of
             None \<Rightarrow> None
           | Some (s1, th) \<Rightarrow>
               (if th_state s1 th = SLEEPING
                then case dequeue_ready_atomic th READY s1 of
                  None \<Rightarrow> None
                | Some s2 \<Rightarrow> map_option (\<lambda>(s', ths). (s', th # ths)) (resume_sleepers v s2)
                else if th_state s1 th = STANDBY \<and> th \<in> set (standbyq s1 v)
                then resume_sleepers v s1
                else None)))"
  by pat_completeness auto
termination
proof (relation "measure (\<lambda>(v, s). length (sleepq s v))")
qed (auto dest!: length_sleepq_pop_front dequeue_ready_sleepq)

definition resume_threads :: "vid \<Rightarrow> u64 \<Rightarrow> sched \<Rightarrow> (sched \<times> nat) option" where
  "resume_threads v clk s =
     (let lst = standbyq s v; s0 = s\<lparr>standbyq := (standbyq s)(v := [])\<rparr>
      in Option.bind (resume_standby v lst s0) (\<lambda>s1.
         if sleepq s1 v = []
         then Some (if lst = [] then s1 else rq_insert_list_before v lst s1, length lst)
         else Option.bind (resume_sleepers v (s1\<lparr>now := clk\<rparr>)) (\<lambda>(s2, ths).
                Some (rq_insert_list_before v (lst @ ths) s2, length (lst @ ths)))))"

declare resume_sleepers.simps [simp del]


subsection \<open>Yielding to a given thread\<close>

text \<open>
  \<open>thread_yield_to\<close> first brings a stand-by thread to the run queue.  The loop resumes threads
  until the target has left the stand-by state, with one clock reading per round; \<open>None\<close> also
  stands for running out of readings.
\<close>

fun await_ready :: "vid \<Rightarrow> tid \<Rightarrow> u64 list \<Rightarrow> sched \<Rightarrow> sched option" where
  "await_ready v th clks s =
     (if th_state s th = STANDBY
      then (case clks of [] \<Rightarrow> None
            | c # cs \<Rightarrow> Option.bind (resume_threads v c s) (\<lambda>(s', _). await_ready v th cs s'))
      else if th_state s th = READY then Some s else None)"

declare await_ready.simps [simp del]

text \<open>A returned value, or \<open>Switched\<close> when the caller gives up the CPU.\<close>

datatype outcome = Switched | Returned ret

definition do_yield_to :: "vid \<Rightarrow> tid \<Rightarrow> u64 \<Rightarrow> sched \<Rightarrow> (sched \<times> outcome) option" where
  "do_yield_to v th clk s =
     (let c = current v s
      in Option.bind (try_goto v th s) (\<lambda>(s1, from, to).
         (let s2 = s1\<lparr>now := clk\<rparr>; s3 = s2\<lparr>error_number := (error_number s2)(c := 0)\<rparr>
          in map_option (\<lambda>s4. (s4, Switched)) (prepare_switch from to s3))))"

definition thread_yield_to :: "vid \<Rightarrow> tid option \<Rightarrow> u64 list \<Rightarrow> u64 \<Rightarrow> sched \<Rightarrow> (sched \<times> outcome) option" where
  "thread_yield_to v target clks clk s =
     (case target of
        None \<Rightarrow> map_option (\<lambda>s'. (s', Switched)) (thread_yield v clk s)
      | Some th \<Rightarrow>
          (if th = current v s then Some (s\<lparr>now := clk\<rparr>, Returned None)
           else if vcpu_of s th \<noteq> vcpu_of s (current v s) then Some (s, Returned (Some EINVAL))
           else if th_state s th = STANDBY
           then Option.bind (await_ready v th clks s) (do_yield_to v th clk)
           else if th_state s th \<noteq> READY then Some (s, Returned (Some EINVAL))
           else if (case runq s v of c # n # _ \<Rightarrow> n = th | _ \<Rightarrow> False)
           then map_option (\<lambda>s'. (s', Switched)) (thread_yield v clk s)
           else do_yield_to v th clk s))"

subsection \<open>Migration between vCPUs\<close>

definition do_thread_migrate :: "vid \<Rightarrow> tid \<Rightarrow> vid \<Rightarrow> sched \<Rightarrow> sched option" where
  "do_thread_migrate v th w s =
     (if w = vcpu_of s th then None
      else Option.bind (rq_remove_from_list v th s) (\<lambda>s1.
        (let u = vcpu_of s1 th;
             s2 = s1\<lparr>nthreads := (nthreads s1)(u := nthreads s1 u - 1)\<rparr>;
             s3 = s2\<lparr>th_state := (th_state s2)(th := STANDBY), vcpu_of := (vcpu_of s2)(th := w)\<rparr>;
             s4 = s3\<lparr>nthreads := (nthreads s3)(w := nthreads s3 w + 1)\<rparr>
         in move_to_standbyq_atomic w th s4)))"

definition defer_migrate_current :: "vid \<Rightarrow> vid \<Rightarrow> sched \<Rightarrow> sched option" where
  "defer_migrate_current v w s =
     Option.bind (goto_next v s) (\<lambda>(s1, from, to).
       Option.bind (prepare_switch from to s1) (do_thread_migrate v from w))"

definition thread_migrate :: "vid \<Rightarrow> tid option \<Rightarrow> vid option \<Rightarrow> sched \<Rightarrow> (sched \<times> outcome) option" where
  "thread_migrate v target dest s =
     (case (target, dest) of
        (Some th, Some w) \<Rightarrow>
          (if w = vcpu_of s (current v s) then Some (s, Returned None)
           else if th = current v s
           then map_option (\<lambda>s'. (s', Switched)) (defer_migrate_current v w s)
           else if vcpu_of s th \<noteq> vcpu_of s (current v s) then Some (s, Returned (Some EINVAL))
           else if th_state s th \<noteq> READY then Some (s, Returned (Some EINVAL))
           else map_option (\<lambda>s'. (s', Returned None)) (do_thread_migrate v th w s))
      | _ \<Rightarrow> Some (s, Returned (Some EINVAL)))"

subsection \<open>Work stealing\<close>

text \<open>A stolen thread changes its vCPU and is counted there.\<close>

definition ws_take :: "vid \<Rightarrow> tid \<Rightarrow> sched \<Rightarrow> sched" where
  "ws_take v th s =
     (let u = vcpu_of s th;
          s1 = s\<lparr>nthreads := (nthreads s)(u := nthreads s u - 1)\<rparr>;
          s2 = s1\<lparr>vcpu_of := (vcpu_of s1)(th := v)\<rparr>
      in s2\<lparr>nthreads := (nthreads s2)(v := nthreads s2 v + 1)\<rparr>)"

text \<open>
  \<open>ws_scan_q\<close> walks the ring after its first thread, which must not be stealable; the result is
  the list of the stolen threads.
\<close>

fun ws_scan_rest :: "vid \<Rightarrow> bool \<Rightarrow> tid list \<Rightarrow> sched \<Rightarrow> sched \<times> tid list" where
  "ws_scan_rest v running [] s = (s, [])"
| "ws_scan_rest v running (th # ths) s =
     (if (running \<and> th_state s th = RUNNING) \<or> \<not> allow_work_stealing th s
      then ws_scan_rest v running ths s
      else (let (s', stolen) = ws_scan_rest v running ths (ws_take v th s) in (s', th # stolen)))"

definition ws_scan_q :: "vid \<Rightarrow> tid list \<Rightarrow> bool \<Rightarrow> sched \<Rightarrow> (sched \<times> tid list) option" where
  "ws_scan_q v ring running s =
     (case ring of [] \<Rightarrow> None
      | first # rest \<Rightarrow> if allow_work_stealing first s then None else Some (ws_scan_rest v running rest s))"

text \<open>
  The stand-by queue: when its first thread may be stolen, threads are popped from the front as
  long as the next first thread may be; the code reads that thread without checking that there is one.
\<close>

fun ws_pop_standby :: "vid \<Rightarrow> vid \<Rightarrow> tid list \<Rightarrow> sched \<Rightarrow> (sched \<times> tid list) option" where
  "ws_pop_standby v u [] s = None"
| "ws_pop_standby v u (th # ths) s =
     (let s1 = ws_take v th (s\<lparr>standbyq := (standbyq s)(u := ths)\<rparr>)
      in case ths of
           [] \<Rightarrow> None
         | nx # _ \<Rightarrow>
             (if allow_work_stealing nx s1
              then map_option (\<lambda>(s', stolen). (s', th # stolen)) (ws_pop_standby v u ths s1)
              else Some (s1, [th])))"

definition ws_scan_standbyq :: "vid \<Rightarrow> vid \<Rightarrow> sched \<Rightarrow> (sched \<times> tid list) option" where
  "ws_scan_standbyq v u s =
     (case standbyq s u of
        [] \<Rightarrow> Some (s, [])
      | front # rest \<Rightarrow>
          (if \<not> allow_work_stealing front s
           then map_option (\<lambda>(s', stolen).
                  (s'\<lparr>standbyq := (standbyq s')(u := filter (\<lambda>t. t \<notin> set stolen) (standbyq s' u))\<rparr>, stolen))
                  (ws_scan_q v (standbyq s u) False s)
           else ws_pop_standby v u (standbyq s u) s))"

text \<open>The run queue is scanned from the idle worker on; \<open>locked\<close> is the result of \<open>background_try_lock\<close>.\<close>

definition ws_scan_runq :: "vid \<Rightarrow> vid \<Rightarrow> bool \<Rightarrow> sched \<Rightarrow> (sched \<times> tid list) option" where
  "ws_scan_runq v u locked s =
     (if \<not> locked then Some (s, [])
      else map_option (\<lambda>(s', stolen).
             (s'\<lparr>runq := (runq s')(u := filter (\<lambda>t. t \<notin> set stolen) (runq s' u))\<rparr>, stolen))
             (ws_scan_q v (ring_from (idle_worker s u) (runq s u)) True s))"

text \<open>
  The search over the other vCPUs: \<open>next\<close> is the ring of vCPUs.  A vCPU that does not allow
  passive stealing is skipped with \<open>continue\<close>, which does not advance \<open>u\<close>.
\<close>

partial_function (option) ws_search ::
    "vid \<Rightarrow> (vid \<Rightarrow> vid) \<Rightarrow> (vid \<Rightarrow> bool) \<Rightarrow> vid \<Rightarrow> sched \<Rightarrow> (sched \<times> bool) option" where
  "ws_search v nxt locked u s =
     (if u = v then Some (s, False)
      else if vcpu_flags s u AND VCPU_ENABLE_PASSIVE_WORK_STEALING = 0 then ws_search v nxt locked u s
      else Option.bind (ws_scan_standbyq v u s) (\<lambda>(s1, stolen).
        if stolen \<noteq> [] then Some (rq_insert_list_before v stolen s1, True)
        else Option.bind (ws_scan_runq v u (locked u) s1) (\<lambda>(s2, stolen2).
          if stolen2 \<noteq> [] then Some (rq_insert_list_before v stolen2 s2, True)
          else ws_search v nxt locked (nxt u) s2)))"

definition try_work_stealing :: "vid \<Rightarrow> (vid \<Rightarrow> vid) \<Rightarrow> (vid \<Rightarrow> bool) \<Rightarrow> sched \<Rightarrow> (sched \<times> bool) option" where
  "try_work_stealing v nxt locked s =
     (if current v s \<noteq> idle_worker s v then None
      else if vcpu_flags s v AND VCPU_ENABLE_ACTIVE_WORK_STEALING = 0 then Some (s, False)
      else ws_search v nxt locked (nxt v) s)"

subsection \<open>vCPUs\<close>

text \<open>
  \<open>vcpu_init\<close> makes the calling OS thread a vCPU \<open>v\<close> whose main thread is \<open>th\<close>, and creates its
  idle worker.
\<close>

definition vcpu_init :: "u64 \<Rightarrow> vid \<Rightarrow> tid \<Rightarrow> tid \<Rightarrow> u64 \<Rightarrow> sched \<Rightarrow> (sched \<times> ret) option" where
  "vcpu_init flags v th idler clk s =
     (if flags AND NOT (ucast (VCPU_ENABLE_ACTIVE_WORK_STEALING OR VCPU_ENABLE_PASSIVE_WORK_STEALING)) \<noteq> 0
      then Some (s, Some EINVAL)
      else if runq s v \<noteq> [] then Some (s, Some (-1))
      else
        (let s1 = s\<lparr>vcpus := insert v (vcpus s), vcpu_flags := (vcpu_flags s)(v := ucast flags),
                    threads := insert th (threads s), vcpu_of := (vcpu_of s)(th := v),
                    th_state := (th_state s)(th := RUNNING), th_idx := (th_idx s)(th := -1),
                    waitq_of := (waitq_of s)(th := None), error_number := (error_number s)(th := 0),
                    th_flags := (th_flags s)(th := 0), waiters := (waiters s)(Cond th := []),
                    runq := (runq s)(v := [th]), nthreads := (nthreads s)(v := 1)\<rparr>;
             s2 = thread_create v idler 0 s1;
             s3 = s2\<lparr>idle_worker := (idle_worker s2)(v := idler)\<rparr>
         in Some ((thread_enable_join idler True s3)\<lparr>now := clk\<rparr>, None)))"

text \<open>The counters of \<open>get_info\<close>.\<close>

definition info_thread_num :: "vid \<Rightarrow> sched \<Rightarrow> int" where
  "info_thread_num v s = nthreads s v"

definition info_sleeping_num :: "vid \<Rightarrow> sched \<Rightarrow> int" where
  "info_sleeping_num v s = int (length (sleepq s v))"

definition info_standby_num :: "vid \<Rightarrow> sched \<Rightarrow> int" where
  "info_standby_num v s = int (length (standbyq s v))"

definition info_runnable_num :: "vid \<Rightarrow> sched \<Rightarrow> int option" where
  "info_runnable_num v s =
     (let n = nthreads s v - int (length (sleepq s v)) in if n > 0 then Some n else None)"

text \<open>The condition under which \<open>wait_all\<close> stops waiting.\<close>

definition all_done :: "vid \<Rightarrow> sched \<Rightarrow> bool" where
  "all_done v s \<longleftrightarrow> size_1or2 v s \<and> sleepq s v = [] \<and> standbyq s v = []"

end
