(* ===== verification/Scheduler_Inv.thy ===== *)
theory Scheduler_Inv
  imports Scheduler
begin

text \<open>
  The invariant of the scheduler: the queue a thread is on is determined by its state, its vCPU
  and its wait queue.  Every operation of theory Scheduler keeps it and none of their assertions
  fails where the invariant holds.
\<close>

subsection \<open>The invariant\<close>

text \<open>
  Run queue, stand-by queue and wait queues hold exactly the threads their states say; the first
  thread of a run queue is the only RUNNING one of its vCPU.
\<close>

definition queues_inv :: "sched \<Rightarrow> bool" where
  "queues_inv s \<longleftrightarrow>
     (\<forall>v t. t \<in> set (runq s v) \<longleftrightarrow> t \<in> threads s \<and> vcpu_of s t = v \<and> th_state s t \<in> {READY, RUNNING}) \<and>
     (\<forall>v t. t \<in> set (standbyq s v) \<longleftrightarrow> t \<in> threads s \<and> vcpu_of s t = v \<and> th_state s t = STANDBY) \<and>
     (\<forall>w t. t \<in> set (waiters s w) \<longleftrightarrow> t \<in> threads s \<and> waitq_of s t = Some w) \<and>
     (\<forall>t\<in>threads s. waitq_of s t \<noteq> None \<longrightarrow> th_state s t = SLEEPING)"

definition running_inv :: "sched \<Rightarrow> bool" where
  "running_inv s \<longleftrightarrow>
     (\<forall>v\<in>vcpus s. runq s v \<noteq> []) \<and> (\<forall>t\<in>threads s. vcpu_of s t \<in> vcpus s) \<and>
     (\<forall>v t. t \<in> set (runq s v) \<longrightarrow> (th_state s t = RUNNING \<longleftrightarrow> t = hd (runq s v)))"

definition distinct_inv :: "sched \<Rightarrow> bool" where
  "distinct_inv s \<longleftrightarrow> (\<forall>v. distinct (runq s v)) \<and> (\<forall>v. distinct (standbyq s v)) \<and>
     (\<forall>w. distinct (waiters s w))"

text \<open>
  Every sleeping thread is in the sleep queue of its vCPU; the queue may also hold threads that
  another vCPU woke and that wait in the stand-by queue.  Each sleep queue is a heap and every
  thread knows its position.
\<close>

definition sleep_inv :: "sched \<Rightarrow> bool" where
  "sleep_inv s \<longleftrightarrow>
     (\<forall>t\<in>threads s. th_state s t = SLEEPING \<longrightarrow> t \<in> set (sleepq s (vcpu_of s t))) \<and>
     (\<forall>v t. t \<in> set (sleepq s v) \<longrightarrow> t \<in> threads s \<and> vcpu_of s t = v \<and> th_state s t \<in> {SLEEPING, STANDBY}) \<and>
     (\<forall>v. sq_inv (th_idx s) (ts_wakeup s) (sq_view v s)) \<and>
     (\<forall>t\<in>threads s. t \<notin> set (sleepq s (vcpu_of s t)) \<longrightarrow> th_idx s t = -1)"

text \<open>The thread counter of a vCPU counts its threads that are not done.\<close>

definition count_inv :: "sched \<Rightarrow> bool" where
  "count_inv s \<longleftrightarrow> finite (threads s) \<and>
     (\<forall>v. nthreads s v = int (card {t \<in> threads s. vcpu_of s t = v \<and> th_state s t \<noteq> DONE}))"

definition sched_inv :: "sched \<Rightarrow> bool" where
  "sched_inv s \<longleftrightarrow> queues_inv s \<and> running_inv s \<and> distinct_inv s \<and> sleep_inv s \<and> count_inv s"

lemma sched_invD:
  assumes "sched_inv s"
  shows inv_runq: "t \<in> set (runq s v) \<longleftrightarrow> t \<in> threads s \<and> vcpu_of s t = v \<and> th_state s t \<in> {READY, RUNNING}"
    and inv_standby: "t \<in> set (standbyq s v) \<longleftrightarrow> t \<in> threads s \<and> vcpu_of s t = v \<and> th_state s t = STANDBY"
    and inv_waiters: "t \<in> set (waiters s w) \<longleftrightarrow> t \<in> threads s \<and> waitq_of s t = Some w"
    and inv_waitq: "t \<in> threads s \<Longrightarrow> waitq_of s t \<noteq> None \<Longrightarrow> th_state s t = SLEEPING"
    and inv_nonempty: "v \<in> vcpus s \<Longrightarrow> runq s v \<noteq> []"
    and inv_vcpus: "t \<in> threads s \<Longrightarrow> vcpu_of s t \<in> vcpus s"
    and inv_running: "t \<in> set (runq s v) \<Longrightarrow> th_state s t = RUNNING \<longleftrightarrow> t = hd (runq s v)"
    and inv_distinct_runq: "distinct (runq s v)"
    and inv_distinct_standbyq: "distinct (standbyq s v)"
    and inv_distinct_waiters: "distinct (waiters s w)"
    and inv_sleeping: "t \<in> threads s \<Longrightarrow> th_state s t = SLEEPING \<Longrightarrow> t \<in> set (sleepq s (vcpu_of s t))"
    and inv_sleepq: "t \<in> set (sleepq s v) \<Longrightarrow> t \<in> threads s \<and> vcpu_of s t = v \<and> th_state s t \<in> {SLEEPING, STANDBY}"
    and inv_heap: "sq_inv (th_idx s) (ts_wakeup s) (sq_view v s)"
    and inv_idx: "t \<in> threads s \<Longrightarrow> t \<notin> set (sleepq s (vcpu_of s t)) \<Longrightarrow> th_idx s t = -1"
    and inv_finite: "finite (threads s)"
    and inv_count: "nthreads s v = int (card {t \<in> threads s. vcpu_of s t = v \<and> th_state s t \<noteq> DONE})"
  using assms
  unfolding sched_inv_def queues_inv_def running_inv_def distinct_inv_def sleep_inv_def count_inv_def
  by (blast | metis)+

text \<open>The invariant does not depend on the error numbers, the flags, the clock or the switch counters.\<close>

lemma sched_inv_frame:
  assumes "sched_inv s" "threads s' = threads s" "vcpu_of s' = vcpu_of s" "waitq_of s' = waitq_of s"
    "th_state s' = th_state s" "ts_wakeup s' = ts_wakeup s" "th_idx s' = th_idx s" "vcpus s' = vcpus s"
    "runq s' = runq s" "sleepq s' = sleepq s" "standbyq s' = standbyq s" "nthreads s' = nthreads s"
    "waiters s' = waiters s"
  shows "sched_inv s'"
  using assms
  unfolding sched_inv_def queues_inv_def running_inv_def distinct_inv_def sleep_inv_def count_inv_def sq_view_def
  by simp


subsection \<open>Sleep queues inside the scheduler state\<close>

definition sq_fine :: "(tid \<Rightarrow> u64) \<Rightarrow> (tid \<Rightarrow> int) \<Rightarrow> tid list \<Rightarrow> bool" where
  "sq_fine ts f xs \<longleftrightarrow> heap ts xs \<and> distinct xs \<and> (\<forall>i<length xs. f (xs ! i) = int i)"

lemma sq_inv_view: "sq_inv (th_idx s) ts (sq_view v s) \<longleftrightarrow> sq_fine ts (th_idx s) (sleepq s v)"
  by (auto simp: sq_inv_def pos_def sq_fine_def sq_view_def)

lemma sq_inv_fine: "sq_inv g ts q \<Longrightarrow> sq_fine ts (idx q) (sq q)"
  by (simp add: sq_inv_def pos_def sq_fine_def)

lemma sq_inv_outside: "sq_inv g ts q \<Longrightarrow> x \<notin> set (sq q) \<Longrightarrow> idx q x = g x"
  by (simp add: sq_inv_def pos_def)

lemma sq_fine_cong:
  assumes "sq_fine ts f xs" and "\<And>x. x \<in> set xs \<Longrightarrow> f' x = f x" and "\<And>x. x \<in> set xs \<Longrightarrow> ts' x = ts x"
  shows "sq_fine ts' f' xs"
proof -
  have "heap ts' xs"
    unfolding heap_def
  proof (intro allI impI)
    fix i assume i: "0 < i \<and> i < length xs"
    then have "parent i < length xs" by auto
    then show "ts' (xs ! parent i) \<le> ts' (xs ! i)"
      using assms(1) i assms(3) nth_mem by (simp add: sq_fine_def heap_def)
  qed
  then show ?thesis using assms by (simp add: sq_fine_def)
qed

lemma sleepq_push_fine:
  assumes "sq_fine (ts_wakeup s) (th_idx s) (sleepq s v)" and "t \<notin> set (sleepq s v)"
  obtains q f where "sleepq_push v t s = s\<lparr>sleepq := (sleepq s)(v := q), th_idx := f\<rparr>"
    "set q = insert t (set (sleepq s v))" "sq_fine (ts_wakeup s) f q"
    "\<And>x. x \<notin> set q \<Longrightarrow> f x = th_idx s x"
proof -
  have i: "sq_inv (th_idx s) (ts_wakeup s) (sq_view v s)" "t \<notin> set (sq (sq_view v s))"
    using assms by (simp add: sq_inv_view) (simp add: assms sq_view_def)
  note p = sq_push_ok [OF i]
  have "set (sq (sq_push (ts_wakeup s) t (sq_view v s))) = insert t (set (sleepq s v))"
    using p(2) mset_eq_setD [of "sq (sq_push (ts_wakeup s) t (sq_view v s))" "t # sleepq s v"]
    by (simp add: sq_view_def)
  with that sq_inv_fine [OF p(1)] sq_inv_outside [OF p(1)] show ?thesis
    by (simp add: sleepq_push_def sq_put_def)
qed

lemma sleepq_pop_fine:
  assumes "sq_fine (ts_wakeup s) (th_idx s) (sleepq s v)" and "t \<notin> set (sleepq s v) \<longrightarrow> th_idx s t = -1"
  obtains q f where "sleepq_pop v t s = s\<lparr>sleepq := (sleepq s)(v := q), th_idx := f\<rparr>"
    "set q = set (sleepq s v) - {t}" "sq_fine (ts_wakeup s) f q" "f t = -1"
    "\<And>x. x \<notin> set (sleepq s v) \<Longrightarrow> f x = th_idx s x"
proof (cases "t \<in> set (sleepq s v)")
  case True
  then have i: "sq_inv (th_idx s) (ts_wakeup s) (sq_view v s)" "t \<in> set (sq (sq_view v s))"
    using assms by (simp add: sq_inv_view) (simp add: True sq_view_def)
  let ?q = "fst (sq_pop (ts_wakeup s) t (sq_view v s))"
  note p = sq_pop_ok [OF i]
  have s: "set (sq ?q) = set (sleepq s v) - {t}"
    using p(3) assms(1) remove_elem [of t "sq ?q" "sleepq s v"] by (simp add: sq_view_def sq_fine_def)
  have "idx ?q t = -1" using sq_inv_outside [OF p(1), of t] s by simp
  moreover have "idx ?q x = th_idx s x" if "x \<notin> set (sleepq s v)" for x
    using sq_inv_outside [OF p(1), of x] s that True by auto
  ultimately show ?thesis
    using that s sq_inv_fine [OF p(1)] by (simp add: sleepq_pop_def sq_put_def)
next
  case False
  then have "sq_pop (ts_wakeup s) t (sq_view v s) = (sq_view v s, -1)"
    using assms(2) by (simp add: sq_pop_def sq_view_def)
  then have "sleepq_pop v t s = s" by (simp add: sleepq_pop_def sq_put_def sq_view_def)
  then show ?thesis using that [of "th_idx s" "sleepq s v"] assms False by simp
qed

lemma sleepq_pop_front_fine:
  assumes "sq_fine (ts_wakeup s) (th_idx s) (sleepq s v)" and "sleepq s v = t # ts"
  obtains q f where "sleepq_pop_front v s = Some (s\<lparr>sleepq := (sleepq s)(v := q), th_idx := f\<rparr>, t)"
    "set q = set (sleepq s v) - {t}" "sq_fine (ts_wakeup s) f q" "f t = -1"
    "\<And>x. x \<notin> set (sleepq s v) \<Longrightarrow> f x = th_idx s x"
proof -
  have i: "sq_inv (th_idx s) (ts_wakeup s) (sq_view v s)" "sq (sq_view v s) \<noteq> []"
    "sq (sq_view v s) ! 0 = t"
    using assms by (simp add: sq_inv_view) (simp_all add: assms sq_view_def)
  obtain q where q: "sq_pop_front (ts_wakeup s) (sq_view v s) = Some (q, t)"
    "sq_inv ((th_idx s)(t := -1)) (ts_wakeup s) q" "add_mset t (mset (sq q)) = mset (sq (sq_view v s))"
    using sq_pop_front_ok [OF i(1,2)] i(3) by metis
  have s: "set (sq q) = set (sleepq s v) - {t}"
    using q(3) assms(1) remove_elem [of t "sq q" "sleepq s v"] by (simp add: sq_view_def sq_fine_def)
  have "idx q t = -1" using sq_inv_outside [OF q(2), of t] s by simp
  moreover have "idx q x = th_idx s x" if "x \<notin> set (sleepq s v)" for x
    using sq_inv_outside [OF q(2), of x] s that assms(2) by auto
  ultimately show ?thesis
    using that [of "idx q" "sq q"] q(1) s sq_inv_fine [OF q(2)] by (simp add: sleepq_pop_front_def sq_put_def)
qed


text \<open>The thread that runs on a vCPU.\<close>

lemma inv_current:
  assumes "sched_inv s" and "runq s v = c # rest"
  shows "c \<in> threads s" "vcpu_of s c = v" "th_state s c = RUNNING" "waitq_of s c = None"
    "\<And>u. c \<notin> set (sleepq s u)" "\<And>u. c \<notin> set (standbyq s u)" "\<And>w. c \<notin> set (waiters s w)"
    "\<And>t. t \<in> set rest \<Longrightarrow> th_state s t = READY" "c \<notin> set rest"
proof -
  have c: "c \<in> set (runq s v)" using assms(2) by simp
  then show *: "c \<in> threads s" "vcpu_of s c = v" "th_state s c = RUNNING"
    using inv_runq [OF assms(1), of c v] inv_running [OF assms(1) c] assms(2) by auto
  show w: "waitq_of s c = None" using inv_waitq [OF assms(1) *(1)] *(3) by (cases "waitq_of s c") auto
  show "c \<notin> set (sleepq s u)" for u using inv_sleepq [OF assms(1), of c u] *(3) by auto
  show "c \<notin> set (standbyq s u)" for u using inv_standby [OF assms(1), of c u] *(3) by auto
  show "c \<notin> set (waiters s w)" for w using inv_waiters [OF assms(1), of c w] \<open>waitq_of s c = None\<close> by auto
  show n: "c \<notin> set rest" using inv_distinct_runq [OF assms(1), of v] assms(2) by simp
  show "th_state s t = READY" if "t \<in> set rest" for t
    using inv_runq [OF assms(1), of t v] inv_running [OF assms(1), of t v] that assms(2) n by auto
qed


text \<open>
  Moving one thread \<open>x\<close> from a queue to another.  The other threads stay where they are, except
  that READY and RUNNING may be exchanged within a run queue; \<open>v\<close> is the vCPU whose sleep queue may
  change.  The first group of premises is about the other threads, the second about \<open>x\<close>, the third
  about order and counters.
\<close>

definition runnable_state :: "states \<Rightarrow> bool" where
  "runnable_state st \<longleftrightarrow> st \<in> {READY, RUNNING}"

lemma sched_inv_relocate_gen:
  assumes I: "sched_inv s"
    and th: "threads s' = insert x (threads s)" "vcpus s \<subseteq> vcpus s'" "vcpu_of s' x \<in> vcpus s'"
    and vc: "\<And>t. t \<noteq> x \<Longrightarrow> vcpu_of s' t = vcpu_of s t"
    and wq: "\<And>t. t \<noteq> x \<Longrightarrow> waitq_of s' t = waitq_of s t"
    and st: "\<And>t. t \<noteq> x \<Longrightarrow> th_state s' t = th_state s t \<or> runnable_state (th_state s' t) \<and> runnable_state (th_state s t)"
    and mr: "\<And>t u. t \<noteq> x \<Longrightarrow> t \<in> set (runq s' u) \<longleftrightarrow> t \<in> set (runq s u)"
    and mb: "\<And>t u. t \<noteq> x \<Longrightarrow> t \<in> set (standbyq s' u) \<longleftrightarrow> t \<in> set (standbyq s u)"
    and mw: "\<And>t w. t \<noteq> x \<Longrightarrow> t \<in> set (waiters s' w) \<longleftrightarrow> t \<in> set (waiters s w)"
    and sl: "\<And>t. t \<noteq> x \<Longrightarrow> t \<in> set (sleepq s' v) \<longleftrightarrow> t \<in> set (sleepq s v)"
      "\<And>u. u \<noteq> v \<Longrightarrow> sleepq s' u = sleepq s u" "\<And>u. u \<noteq> v \<Longrightarrow> x \<notin> set (sleepq s u)"
      "\<And>t. t \<noteq> x \<Longrightarrow> t \<notin> set (sleepq s v) \<Longrightarrow> th_idx s' t = th_idx s t"
      "\<And>t. t \<noteq> x \<Longrightarrow> ts_wakeup s' t = ts_wakeup s t" "sq_fine (ts_wakeup s') (th_idx s') (sleepq s' v)"
    and xr: "\<And>u. x \<in> set (runq s' u) \<longleftrightarrow> vcpu_of s' x = u \<and> runnable_state (th_state s' x)"
    and xb: "\<And>u. x \<in> set (standbyq s' u) \<longleftrightarrow> vcpu_of s' x = u \<and> th_state s' x = STANDBY"
    and xw: "\<And>w. x \<in> set (waiters s' w) \<longleftrightarrow> waitq_of s' x = Some w"
      "waitq_of s' x \<noteq> None \<Longrightarrow> th_state s' x = SLEEPING"
    and xs: "th_state s' x = SLEEPING \<Longrightarrow> x \<in> set (sleepq s' v)"
      "x \<in> set (sleepq s' v) \<Longrightarrow> vcpu_of s' x = v \<and> th_state s' x \<in> {SLEEPING, STANDBY}"
      "x \<notin> set (sleepq s' v) \<Longrightarrow> th_idx s' x = -1"
    and ne: "\<And>u. u \<in> vcpus s' \<Longrightarrow> runq s' u \<noteq> []"
    and ds: "\<And>u. distinct (runq s' u)" "\<And>u. distinct (standbyq s' u)" "\<And>w. distinct (waiters s' w)"
    and rn: "\<And>u t. t \<in> set (runq s' u) \<Longrightarrow> th_state s' t = RUNNING \<longleftrightarrow> t = hd (runq s' u)"
    and ct: "\<And>u. nthreads s' u = nthreads s u
       + of_bool (vcpu_of s' x = u \<and> th_state s' x \<noteq> DONE)
       - of_bool (x \<in> threads s \<and> vcpu_of s x = u \<and> th_state s x \<noteq> DONE)"
  shows "sched_inv s'"
proof -
  have "queues_inv s'"
    unfolding queues_inv_def
  proof (intro conjI allI ballI impI)
    fix u t
    show "t \<in> set (runq s' u) \<longleftrightarrow> t \<in> threads s' \<and> vcpu_of s' t = u \<and> th_state s' t \<in> {READY, RUNNING}"
      using mr [of t u] vc [of t] st [of t] inv_runq [OF I, of t u] xr [of u] th(1)
      by (cases "t = x") (auto simp: runnable_state_def)
    show "t \<in> set (standbyq s' u) \<longleftrightarrow> t \<in> threads s' \<and> vcpu_of s' t = u \<and> th_state s' t = STANDBY"
      using mb [of t u] vc [of t] st [of t] inv_standby [OF I, of t u] xb [of u] th(1)
      by (cases "t = x") (auto simp: runnable_state_def)
  next
    fix w t
    show "t \<in> set (waiters s' w) \<longleftrightarrow> t \<in> threads s' \<and> waitq_of s' t = Some w"
      using mw [of t w] wq [of t] inv_waiters [OF I, of t w] xw(1) [of w] th(1) by (cases "t = x") auto
  next
    fix t assume "t \<in> threads s'" "waitq_of s' t \<noteq> None"
    then show "th_state s' t = SLEEPING"
      using xw(2) wq [of t] st [of t] inv_waitq [OF I, of t] th(1)
      by (cases "t = x") (auto simp: runnable_state_def)
  qed
  moreover have "running_inv s'"
    unfolding running_inv_def
  proof (intro conjI allI ballI impI)
    fix t assume "t \<in> threads s'"
    then show "vcpu_of s' t \<in> vcpus s'"
      using th vc [of t] inv_vcpus [OF I, of t] by (cases "t = x") auto
  qed (use ne rn in blast)+
  moreover have "distinct_inv s'"
    unfolding distinct_inv_def using ds by blast
  moreover have "sleep_inv s'"
    unfolding sleep_inv_def sq_inv_view
  proof (intro conjI allI ballI impI)
    fix t assume t: "t \<in> threads s'"
    show "t \<in> set (sleepq s' (vcpu_of s' t))" if "th_state s' t = SLEEPING"
      using t that sl(1,2) [of t] sl(2) [of "vcpu_of s t"] vc [of t] st [of t] inv_sleeping [OF I, of t] th(1) xs(1,2)
      by (cases "t = x"; cases "vcpu_of s t = v") (auto simp: runnable_state_def)
    have "th_idx s' x = -1" if "x \<notin> set (sleepq s' (vcpu_of s' x))"
      using that xs(2,3) by metis
    then show "th_idx s' t = -1" if "t \<notin> set (sleepq s' (vcpu_of s' t))"
      using t that sl(1) [of t] sl(2) [of "vcpu_of s t"] sl(4) [of t] vc [of t] inv_idx [OF I, of t] th(1)
        inv_sleepq [OF I, of t v]
      by (cases "t = x"; cases "vcpu_of s t = v") auto
  next
    fix u t assume t: "t \<in> set (sleepq s' u)"
    show "t \<in> threads s'" "vcpu_of s' t = u" "th_state s' t \<in> {SLEEPING, STANDBY}"
      using t sl(1) [of t] sl(2) [of u] sl(3) [of u] vc [of t] st [of t] inv_sleepq [OF I, of t u] th(1) xs(2)
      by (cases "t = x"; cases "u = v"; auto simp: runnable_state_def)+
  next
    fix u
    show "sq_fine (ts_wakeup s') (th_idx s') (sleepq s' u)"
    proof (cases "u = v")
      case False
      have "sq_fine (ts_wakeup s') (th_idx s') (sleepq s u)"
      proof (rule sq_fine_cong [OF inv_heap [OF I, of u, unfolded sq_inv_view]])
        fix t assume t: "t \<in> set (sleepq s u)"
        then have "t \<noteq> x" "t \<notin> set (sleepq s v)"
          using sl(3) [OF False] inv_sleepq [OF I t] inv_sleepq [OF I, of t v] False by auto
        then show "th_idx s' t = th_idx s t" "ts_wakeup s' t = ts_wakeup s t" using sl(4,5) by auto
      qed
      then show ?thesis using sl(2) [OF False] by simp
    qed (use sl(6) in simp)
  qed
  moreover have "count_inv s'"
    unfolding count_inv_def
  proof (intro conjI allI)
    show "finite (threads s')" using th(1) inv_finite [OF I] by simp
    fix u
    let ?A = "{t \<in> threads s - {x}. vcpu_of s t = u \<and> th_state s t \<noteq> DONE}"
    have fin: "finite ?A" "x \<notin> ?A" using inv_finite [OF I] by auto
    have "{t \<in> threads s. vcpu_of s t = u \<and> th_state s t \<noteq> DONE} =
      (if x \<in> threads s \<and> vcpu_of s x = u \<and> th_state s x \<noteq> DONE then insert x ?A else ?A)" by auto
    then have 1: "nthreads s u = int (card ?A) + of_bool (x \<in> threads s \<and> vcpu_of s x = u \<and> th_state s x \<noteq> DONE)"
      using inv_count [OF I, of u] fin by simp
    have eq: "vcpu_of s' t = u \<and> th_state s' t \<noteq> DONE \<longleftrightarrow> vcpu_of s t = u \<and> th_state s t \<noteq> DONE"
      if "t \<noteq> x" for t using vc [OF that] st [OF that] by (auto simp: runnable_state_def)
    have "{t \<in> threads s'. vcpu_of s' t = u \<and> th_state s' t \<noteq> DONE} =
      (if vcpu_of s' x = u \<and> th_state s' x \<noteq> DONE then insert x ?A else ?A)"
    proof (rule set_eqI)
      fix t show "t \<in> {t \<in> threads s'. vcpu_of s' t = u \<and> th_state s' t \<noteq> DONE} \<longleftrightarrow>
        t \<in> (if vcpu_of s' x = u \<and> th_state s' x \<noteq> DONE then insert x ?A else ?A)"
        using th(1) eq [of t] by (cases "t = x") auto
    qed
    then show "nthreads s' u = int (card {t \<in> threads s'. vcpu_of s' t = u \<and> th_state s' t \<noteq> DONE})"
      using ct [of u] 1 fin by simp
  qed
  ultimately show ?thesis by (simp add: sched_inv_def)
qed


text \<open>The common case, in which the set of vCPUs does not change.\<close>

lemma sched_inv_relocate:
  assumes I: "sched_inv s"
    and th: "threads s' = insert x (threads s)" "vcpus s' = vcpus s" "vcpu_of s' x \<in> vcpus s"
    and vc: "\<And>t. t \<noteq> x \<Longrightarrow> vcpu_of s' t = vcpu_of s t"
    and wq: "\<And>t. t \<noteq> x \<Longrightarrow> waitq_of s' t = waitq_of s t"
    and st: "\<And>t. t \<noteq> x \<Longrightarrow> th_state s' t = th_state s t \<or> runnable_state (th_state s' t) \<and> runnable_state (th_state s t)"
    and mr: "\<And>t u. t \<noteq> x \<Longrightarrow> t \<in> set (runq s' u) \<longleftrightarrow> t \<in> set (runq s u)"
    and mb: "\<And>t u. t \<noteq> x \<Longrightarrow> t \<in> set (standbyq s' u) \<longleftrightarrow> t \<in> set (standbyq s u)"
    and mw: "\<And>t w. t \<noteq> x \<Longrightarrow> t \<in> set (waiters s' w) \<longleftrightarrow> t \<in> set (waiters s w)"
    and sl: "\<And>t. t \<noteq> x \<Longrightarrow> t \<in> set (sleepq s' v) \<longleftrightarrow> t \<in> set (sleepq s v)"
      "\<And>u. u \<noteq> v \<Longrightarrow> sleepq s' u = sleepq s u" "\<And>u. u \<noteq> v \<Longrightarrow> x \<notin> set (sleepq s u)"
      "\<And>t. t \<noteq> x \<Longrightarrow> t \<notin> set (sleepq s v) \<Longrightarrow> th_idx s' t = th_idx s t"
      "\<And>t. t \<noteq> x \<Longrightarrow> ts_wakeup s' t = ts_wakeup s t" "sq_fine (ts_wakeup s') (th_idx s') (sleepq s' v)"
    and xr: "\<And>u. x \<in> set (runq s' u) \<longleftrightarrow> vcpu_of s' x = u \<and> runnable_state (th_state s' x)"
    and xb: "\<And>u. x \<in> set (standbyq s' u) \<longleftrightarrow> vcpu_of s' x = u \<and> th_state s' x = STANDBY"
    and xw: "\<And>w. x \<in> set (waiters s' w) \<longleftrightarrow> waitq_of s' x = Some w"
      "waitq_of s' x \<noteq> None \<Longrightarrow> th_state s' x = SLEEPING"
    and xs: "th_state s' x = SLEEPING \<Longrightarrow> x \<in> set (sleepq s' v)"
      "x \<in> set (sleepq s' v) \<Longrightarrow> vcpu_of s' x = v \<and> th_state s' x \<in> {SLEEPING, STANDBY}"
      "x \<notin> set (sleepq s' v) \<Longrightarrow> th_idx s' x = -1"
    and ne: "\<And>u. u \<in> vcpus s \<Longrightarrow> runq s' u \<noteq> []"
    and ds: "\<And>u. distinct (runq s' u)" "\<And>u. distinct (standbyq s' u)" "\<And>w. distinct (waiters s' w)"
    and rn: "\<And>u t. t \<in> set (runq s' u) \<Longrightarrow> th_state s' t = RUNNING \<longleftrightarrow> t = hd (runq s' u)"
    and ct: "\<And>u. nthreads s' u = nthreads s u
       + of_bool (vcpu_of s' x = u \<and> th_state s' x \<noteq> DONE)
       - of_bool (x \<in> threads s \<and> vcpu_of s x = u \<and> th_state s x \<noteq> DONE)"
  shows "sched_inv s'"
proof (rule sched_inv_relocate_gen [OF I, where x = x and v = v])
  show "vcpus s \<subseteq> vcpus s'" "vcpu_of s' x \<in> vcpus s'" using th by simp_all
  show "runq s' u \<noteq> []" if "u \<in> vcpus s'" for u using ne that th(2) by simp
qed (fact th(1) vc wq st mr mb mw sl xr xb xw xs ds rn ct)+

subsection \<open>Going to sleep\<close>

lemma inv_ready_next:
  assumes I: "sched_inv s" and r: "runq s v = c # to # rest"
  shows "to \<in> threads s" "vcpu_of s to = v" "th_state s to = READY" "to \<noteq> c" "waitq_of s to = None"
    "to \<notin> set rest" "distinct rest" "c \<notin> set rest"
proof -
  show "to \<in> threads s" "vcpu_of s to = v" and st: "th_state s to = READY" and "to \<noteq> c"
    using inv_runq [OF I, of to v] r inv_current(8) [OF I r, of to] inv_current(9) [OF I r] by auto
  then show "waitq_of s to = None" using inv_waitq [OF I, of to] by (cases "waitq_of s to") auto
  show "to \<notin> set rest" "distinct rest" "c \<notin> set rest" using inv_distinct_runq [OF I, of v] r by auto
qed

lemma inv_park:
  assumes I: "sched_inv s" and r: "runq s v = fr # to # rest"
    and q: "set q = insert fr (set (sleepq s v))" "sq_fine ts f q" "\<And>x. x \<notin> set q \<Longrightarrow> f x = th_idx s x"
    and ts: "ts = (ts_wakeup s)(fr := tmo)"
  shows "sched_inv (s\<lparr>runq := (runq s)(v := to # rest), th_state := (th_state s)(fr := SLEEPING, to := RUNNING),
    waiters := (case w of None \<Rightarrow> waiters s | Some w \<Rightarrow> (waiters s)(w := waiters s w @ [fr])),
    waitq_of := (waitq_of s)(fr := w), ts_wakeup := ts, sleepq := (sleepq s)(v := q), th_idx := f\<rparr>)"
    (is "sched_inv ?s")
proof (rule sched_inv_relocate [OF I, where x = fr and v = v])
  note c = inv_current [OF I r] and n = inv_ready_next [OF I r]
  show "threads ?s = insert fr (threads s)" using c(1) by auto
  show "vcpu_of ?s fr \<in> vcpus s" using inv_vcpus [OF I c(1)] by simp
  show "th_state ?s t = th_state s t \<or> runnable_state (th_state ?s t) \<and> runnable_state (th_state s t)"
    if "t \<noteq> fr" for t using n that by (simp add: runnable_state_def)
  show "t \<in> set (runq ?s u) \<longleftrightarrow> t \<in> set (runq s u)" if "t \<noteq> fr" for t u using that r by simp
  show "t \<in> set (waiters ?s x) \<longleftrightarrow> t \<in> set (waiters s x)" if "t \<noteq> fr" for t x
    using that by (auto split: option.splits)
  show "fr \<in> set (runq ?s u) \<longleftrightarrow> vcpu_of ?s fr = u \<and> runnable_state (th_state ?s fr)" for u
    using c(2,9) n(4) inv_runq [OF I, of fr u] by (simp add: runnable_state_def)
  show "fr \<in> set (standbyq ?s u) \<longleftrightarrow> vcpu_of ?s fr = u \<and> th_state ?s fr = STANDBY" for u
    using c(6) n(4) by simp
  show "fr \<in> set (waiters ?s x) \<longleftrightarrow> waitq_of ?s fr = Some x" for x
    using c(7) by (auto split: option.splits)
  show "runq ?s u \<noteq> []" if "u \<in> vcpus s" for u using inv_nonempty [OF I that] by simp
  show "distinct (runq ?s u)" for u using inv_distinct_runq [OF I, of u] r by (cases "u = v") auto
  show "distinct (waiters ?s x)" for x using inv_distinct_waiters [OF I, of x] c(7) by (auto split: option.splits)
  show "th_state ?s t = RUNNING \<longleftrightarrow> t = hd (runq ?s u)" if "t \<in> set (runq ?s u)" for t u
    using that inv_running [OF I, of t u] inv_runq [OF I, of t u] c(8) [of t] c(2,9) n
    by (cases "u = v"; cases "t = to") auto
  show "nthreads ?s u = nthreads s u + of_bool (vcpu_of ?s fr = u \<and> th_state ?s fr \<noteq> DONE)
    - of_bool (fr \<in> threads s \<and> vcpu_of s fr = u \<and> th_state s fr \<noteq> DONE)" for u
    using c(1-3) n(4) by simp
  show "sq_fine (ts_wakeup ?s) (th_idx ?s) (sleepq ?s v)" using q(2) by simp
  show "th_idx ?s t = th_idx s t" if "t \<noteq> fr" "t \<notin> set (sleepq s v)" for t using that q(1,3) by simp
  show "fr \<notin> set (sleepq s u)" for u using c(5) .
qed (use q(1) ts inv_current(2) [OF I r] inv_ready_next(4) [OF I r] inv_distinct_standbyq [OF I] in auto)


end
