(* ===== verification/Scheduler_Moves.thy ===== *)
theory Scheduler_Moves
  imports Scheduler_Inv
begin

text \<open>
  The moves of a thread between the queues of the scheduler, each shown to keep the invariant of
  theory Scheduler_Inv.  The operations of theory Scheduler are compositions of these moves.
\<close>

subsection \<open>Leaving a wait queue\<close>

text \<open>The wait queues after \<open>t\<close> has left the one it was in.\<close>

definition waiters_without :: "tid \<Rightarrow> sched \<Rightarrow> wid \<Rightarrow> tid list" where
  "waiters_without t s w = (if waitq_of s t = Some w then remove1 t (waiters s w) else waiters s w)"

lemma waiters_without:
  assumes "sched_inv s" "t \<in> threads s"
  shows "x \<noteq> t \<Longrightarrow> x \<in> set (waiters_without t s w) \<longleftrightarrow> x \<in> set (waiters s w)"
    and "t \<notin> set (waiters_without t s w)" and "distinct (waiters_without t s w)"
  using inv_waiters [OF assms(1), of t w] inv_distinct_waiters [OF assms(1), of w] assms(2)
  by (auto simp: waiters_without_def set_remove1_eq distinct_remove1)

lemma dequeue_ready_sleeping:
  assumes I: "sched_inv s" and t: "t \<in> threads s" "th_state s t = SLEEPING"
  shows "dequeue_ready_atomic t st s = Some (s\<lparr>waiters := waiters_without t s,
    waitq_of := (waitq_of s)(t := None), th_state := (th_state s)(t := st)\<rparr>)"
proof (cases "waitq_of s t")
  case None
  moreover have "waiters_without t s = waiters s" using None by (auto simp: waiters_without_def)
  moreover have "(waitq_of s)(t := None) = waitq_of s" using None by auto
  moreover have "t \<notin> set (runq s u)" "t \<notin> set (standbyq s u)" for u
    using inv_runq [OF I, of t u] inv_standby [OF I, of t u] t(2) by auto
  ultimately show ?thesis by (simp add: dequeue_ready_atomic_def)
next
  case (Some w)
  then have "waiters s w \<noteq> []" using inv_waiters [OF I, of t w] t(1) by auto
  moreover have "(waiters s)(w := remove1 t (waiters s w)) = waiters_without t s"
    using Some by (auto simp: waiters_without_def)
  ultimately show ?thesis using Some by (simp add: dequeue_ready_atomic_def)
qed

subsection \<open>Back to the run queue\<close>

lemma inv_hd_runq: "sched_inv s \<Longrightarrow> v \<in> vcpus s \<Longrightarrow> th_state s (hd (runq s v)) = RUNNING"
  using inv_running [of s "hd (runq s v)" v] inv_nonempty [of s v] by simp

lemma inv_to_runq:
  assumes I: "sched_inv s" and t: "t \<in> threads s" "vcpu_of s t = v" "th_state s t \<in> {SLEEPING, STANDBY}"
    and B: "\<And>u x. x \<noteq> t \<Longrightarrow> x \<in> set (B u) \<longleftrightarrow> x \<in> set (standbyq s u)" "\<And>u. t \<notin> set (B u)" "\<And>u. distinct (B u)"
    and q: "set q = set (sleepq s v) - {t}" "sq_fine (ts_wakeup s) f q" "f t = -1"
      "\<And>x. x \<notin> set (sleepq s v) \<Longrightarrow> f x = th_idx s x"
  shows "sched_inv (s\<lparr>waiters := waiters_without t s, waitq_of := (waitq_of s)(t := None),
    th_state := (th_state s)(t := READY), standbyq := B, sleepq := (sleepq s)(v := q), th_idx := f,
    runq := (runq s)(v := runq s v @ [t])\<rparr>)" (is "sched_inv ?s")
proof (rule sched_inv_relocate [OF I, where x = t and v = v])
  have v: "v \<in> vcpus s" using inv_vcpus [OF I t(1)] t(2) by simp
  have n: "t \<notin> set (runq s u)" for u using inv_runq [OF I, of t u] t(3) by auto
  note W = waiters_without [OF I t(1)]
  show "threads ?s = insert t (threads s)" using t(1) by auto
  show "vcpu_of ?s t \<in> vcpus s" using v t(2) by simp
  show "x \<in> set (waiters ?s w) \<longleftrightarrow> x \<in> set (waiters s w)" if "x \<noteq> t" for x w using W(1) [OF that] by simp
  show "t \<in> set (runq ?s u) \<longleftrightarrow> vcpu_of ?s t = u \<and> runnable_state (th_state ?s t)" for u
    using n [of u] t(2) by (auto simp: runnable_state_def)
  show "t \<in> set (waiters ?s w) \<longleftrightarrow> waitq_of ?s t = Some w" for w using W(2) [of w] by simp
  show "runq ?s u \<noteq> []" if "u \<in> vcpus s" for u using inv_nonempty [OF I that] by simp
  show "distinct (runq ?s u)" for u using inv_distinct_runq [OF I, of u] n [of u] by auto
  show "distinct (waiters ?s w)" for w using W(3) [of w] by simp
  show "th_state ?s x = RUNNING \<longleftrightarrow> x = hd (runq ?s u)" if x: "x \<in> set (runq ?s u)" for x u
  proof (cases "x = t")
    case True
    then have "u = v" using x n [of u] by (auto split: if_splits)
    then show ?thesis using True inv_nonempty [OF I v] n [of v] hd_in_set [of "runq s v"] by auto
  next
    case False
    then have "x \<in> set (runq s u)" using x by (auto split: if_splits)
    then show ?thesis using False inv_running [OF I, of x u] inv_nonempty [OF I v] by auto
  qed
  show "nthreads ?s u = nthreads s u + of_bool (vcpu_of ?s t = u \<and> th_state ?s t \<noteq> DONE)
    - of_bool (t \<in> threads s \<and> vcpu_of s t = u \<and> th_state s t \<noteq> DONE)" for u
    using t by auto
  show "sq_fine (ts_wakeup ?s) (th_idx ?s) (sleepq ?s v)" using q(2) by simp
  show "th_idx ?s x = th_idx s x" if "x \<noteq> t" "x \<notin> set (sleepq s v)" for x using that q(4) by simp
  show "t \<notin> set (sleepq s u)" if "u \<noteq> v" for u using inv_sleepq [OF I, of t u] t(2) that by auto
qed (use B q t in auto)

lemma inv_to_standby:
  assumes I: "sched_inv s" and t: "t \<in> threads s" "vcpu_of s t = v" "th_state s t = SLEEPING"
  shows "sched_inv (s\<lparr>waiters := waiters_without t s, waitq_of := (waitq_of s)(t := None),
    th_state := (th_state s)(t := STANDBY), standbyq := (standbyq s)(v := standbyq s v @ [t])\<rparr>)" (is "sched_inv ?s")
proof (rule sched_inv_relocate [OF I, where x = t and v = v])
  have v: "v \<in> vcpus s" using inv_vcpus [OF I t(1)] t(2) by simp
  have n: "t \<notin> set (runq s u)" "t \<notin> set (standbyq s u)" for u
    using inv_runq [OF I, of t u] inv_standby [OF I, of t u] t(3) by auto
  have sl: "t \<in> set (sleepq s v)" using inv_sleeping [OF I t(1)] t by simp
  note W = waiters_without [OF I t(1)]
  show "threads ?s = insert t (threads s)" using t(1) by auto
  show "vcpu_of ?s t \<in> vcpus s" using v t(2) by simp
  show "x \<in> set (waiters ?s w) \<longleftrightarrow> x \<in> set (waiters s w)" if "x \<noteq> t" for x w using W(1) [OF that] by simp
  show "t \<in> set (runq ?s u) \<longleftrightarrow> vcpu_of ?s t = u \<and> runnable_state (th_state ?s t)" for u
    using n(1) [of u] by (auto simp: runnable_state_def)
  show "t \<in> set (standbyq ?s u) \<longleftrightarrow> vcpu_of ?s t = u \<and> th_state ?s t = STANDBY" for u
    using n(2) [of u] t(2) by auto
  show "t \<in> set (waiters ?s w) \<longleftrightarrow> waitq_of ?s t = Some w" for w using W(2) [of w] by simp
  show "runq ?s u \<noteq> []" if "u \<in> vcpus s" for u using inv_nonempty [OF I that] by simp
  show "distinct (runq ?s u)" for u using inv_distinct_runq [OF I, of u] by simp
  show "distinct (standbyq ?s u)" for u using inv_distinct_standbyq [OF I, of u] n(2) [of u] by auto
  show "distinct (waiters ?s w)" for w using W(3) [of w] by simp
  show "th_state ?s x = RUNNING \<longleftrightarrow> x = hd (runq ?s u)" if "x \<in> set (runq ?s u)" for x u
    using that inv_running [OF I, of x u] n(1) [of u] by auto
  show "nthreads ?s u = nthreads s u + of_bool (vcpu_of ?s t = u \<and> th_state ?s t \<noteq> DONE)
    - of_bool (t \<in> threads s \<and> vcpu_of s t = u \<and> th_state s t \<noteq> DONE)" for u
    using t by auto
  show "sq_fine (ts_wakeup ?s) (th_idx ?s) (sleepq ?s v)"
    using inv_heap [OF I, of v, unfolded sq_inv_view] by simp
  show "t \<notin> set (sleepq s u)" if "u \<noteq> v" for u using inv_sleepq [OF I, of t u] t(2) that by auto
  show "t \<in> set (sleepq ?s v)" using sl by simp
qed (use t inv_sleeping [OF I t(1)] in auto)


subsection \<open>Switching, creating, terminating, migrating\<close>

lemma inv_goto:
  assumes I: "sched_inv s" and r: "runq s v = c # rest" and to: "to \<in> set rest"
    and ys: "set ys = set (runq s v)" "distinct ys" "ys \<noteq> []" "hd ys = to"
  shows "sched_inv (s\<lparr>th_state := (th_state s)(c := READY, to := RUNNING), runq := (runq s)(v := ys)\<rparr>)"
    (is "sched_inv ?s")
proof (rule sched_inv_relocate [OF I, where x = to and v = v])
  note c = inv_current [OF I r]
  have tor: "to \<in> set (runq s v)" using to r by simp
  then have t: "to \<in> threads s" "vcpu_of s to = v" "th_state s to = READY" "to \<noteq> c"
    using inv_runq [OF I, of to v] c(8) [OF to] c(9) to by auto
  have nw: "waitq_of s to = None" using inv_waitq [OF I t(1)] t(3) by (cases "waitq_of s to") auto
  have ns: "to \<notin> set (sleepq s u)" "to \<notin> set (standbyq s u)" for u
    using inv_sleepq [OF I, of to u] inv_standby [OF I, of to u] t(3) by auto
  show "threads ?s = insert to (threads s)" using t(1) by auto
  show "vcpu_of ?s to \<in> vcpus s" using inv_vcpus [OF I t(1)] by simp
  show "th_state ?s x = th_state s x \<or> runnable_state (th_state ?s x) \<and> runnable_state (th_state s x)"
    if "x \<noteq> to" for x using that c(3) by (simp add: runnable_state_def)
  show "x \<in> set (runq ?s u) \<longleftrightarrow> x \<in> set (runq s u)" for x u using ys(1) by simp
  show "to \<in> set (runq ?s u) \<longleftrightarrow> vcpu_of ?s to = u \<and> runnable_state (th_state ?s to)" for u
    using ys(1) t tor inv_runq [OF I, of to u] by (auto simp: runnable_state_def)
  show "to \<in> set (standbyq ?s u) \<longleftrightarrow> vcpu_of ?s to = u \<and> th_state ?s to = STANDBY" for u using ns(2) by simp
  show "to \<in> set (waiters ?s w) \<longleftrightarrow> waitq_of ?s to = Some w" for w using inv_waiters [OF I, of to w] nw by simp
  show "runq ?s u \<noteq> []" if "u \<in> vcpus s" for u using inv_nonempty [OF I that] ys(3) by simp
  show "distinct (runq ?s u)" for u using inv_distinct_runq [OF I, of u] ys(2) by simp
  show "th_state ?s x = RUNNING \<longleftrightarrow> x = hd (runq ?s u)" if x: "x \<in> set (runq ?s u)" for x u
  proof (cases "u = v")
    case True
    then have "x \<in> set (c # rest)" using x ys(1) r by simp
    then show ?thesis using True ys(4) c(8) [of x] t(4) by (cases "x = c") auto
  next
    case False
    then have xu: "x \<in> set (runq s u)" using x by simp
    then have "vcpu_of s x = u" using inv_runq [OF I, of x u] by simp
    then have "x \<noteq> c" "x \<noteq> to" using False c(2) t(2) by auto
    then show ?thesis using False inv_running [OF I xu] by simp
  qed
  show "nthreads ?s u = nthreads s u + of_bool (vcpu_of ?s to = u \<and> th_state ?s to \<noteq> DONE)
    - of_bool (to \<in> threads s \<and> vcpu_of s to = u \<and> th_state s to \<noteq> DONE)" for u
    using t by simp
  show "sq_fine (ts_wakeup ?s) (th_idx ?s) (sleepq ?s v)"
    using inv_heap [OF I, of v, unfolded sq_inv_view] by simp
  show "to \<notin> set (sleepq s u)" for u by (rule ns)
  show "th_idx ?s to = -1" using inv_idx [OF I t(1)] ns(1) by simp
  show "to \<in> set (sleepq ?s v) \<Longrightarrow> vcpu_of ?s to = v \<and> th_state ?s to \<in> {SLEEPING, STANDBY}" using ns(1) by simp
  show "waitq_of ?s to \<noteq> None \<Longrightarrow> th_state ?s to = SLEEPING" using nw by simp
qed (use inv_distinct_standbyq [OF I] inv_distinct_waiters [OF I] in simp_all)


lemma inv_create:
  assumes I: "sched_inv s" and t: "t \<notin> threads s" and v: "v \<in> vcpus s" and w: "waiters s (Cond t) = []"
  shows "sched_inv (thread_create v t flags s)"
proof (rule sched_inv_relocate [OF I, where x = t and v = v])
  let ?s = "thread_create v t flags s"
  note d = thread_create_def Let_def rq_insert_tail_def
  have n: "t \<notin> set (runq s u)" "t \<notin> set (standbyq s u)" "t \<notin> set (sleepq s u)" for u
    using inv_runq [OF I, of t u] inv_standby [OF I, of t u] inv_sleepq [OF I, of t u] t by auto
  have nw: "t \<notin> set (waiters s x)" for x using inv_waiters [OF I, of t x] t by simp
  show "threads ?s = insert t (threads s)" by (simp add: d)
  show "t \<in> set (runq ?s u) \<longleftrightarrow> vcpu_of ?s t = u \<and> runnable_state (th_state ?s t)" for u
    using n(1) [of u] by (auto simp: d runnable_state_def)
  show "x \<in> set (waiters ?s y) \<longleftrightarrow> x \<in> set (waiters s y)" for x y using w by (simp add: d)
  show "t \<in> set (waiters ?s y) \<longleftrightarrow> waitq_of ?s t = Some y" for y using nw [of y] by (simp add: d)
  show "runq ?s u \<noteq> []" if "u \<in> vcpus s" for u using inv_nonempty [OF I that] by (simp add: d)
  show "distinct (runq ?s u)" for u using inv_distinct_runq [OF I, of u] n(1) [of u] by (auto simp: d)
  show "th_state ?s x = RUNNING \<longleftrightarrow> x = hd (runq ?s u)" if x: "x \<in> set (runq ?s u)" for x u
  proof (cases "x = t")
    case True
    then have "u = v" using x n(1) [of u] by (auto simp: d split: if_splits)
    then show ?thesis using True inv_nonempty [OF I v] n(1) [of v] hd_in_set [of "runq s v"] by (auto simp: d)
  next
    case False
    then have "x \<in> set (runq s u)" using x by (auto simp: d split: if_splits)
    then show ?thesis using False inv_running [OF I, of x u] inv_nonempty [OF I v] by (auto simp: d)
  qed
  have "sq_fine (ts_wakeup ?s) (th_idx ?s) (sleepq s v)"
    by (rule sq_fine_cong [OF inv_heap [OF I, of v, unfolded sq_inv_view]]) (use n(3) [of v] in \<open>auto simp: d\<close>)
  then show "sq_fine (ts_wakeup ?s) (th_idx ?s) (sleepq ?s v)" by (simp add: d)
  show "t \<notin> set (sleepq s u)" for u by (rule n)
  show "t \<in> set (sleepq ?s v) \<Longrightarrow> vcpu_of ?s t = v \<and> th_state ?s t \<in> {SLEEPING, STANDBY}"
    using n(3) by (simp add: d)
  show "t \<in> set (standbyq ?s u) \<longleftrightarrow> vcpu_of ?s t = u \<and> th_state ?s t = STANDBY" for u using n(2) by (simp add: d)
  show "vcpu_of ?s t \<in> vcpus s" using v by (simp add: d)
  show "distinct (standbyq ?s u)" for u using inv_distinct_standbyq [OF I] by (simp add: d)
  show "distinct (waiters ?s y)" for y using inv_distinct_waiters [OF I] by (simp add: d)
  show "nthreads ?s u = nthreads s u + of_bool (vcpu_of ?s t = u \<and> th_state ?s t \<noteq> DONE)
    - of_bool (t \<in> threads s \<and> vcpu_of s t = u \<and> th_state s t \<noteq> DONE)" for u
    using t by (simp add: d)
qed (use t in \<open>simp_all add: thread_create_def rq_insert_tail_def Let_def\<close>)

lemma inv_exit:
  assumes I: "sched_inv s" and r: "runq s v = c # to # rest"
  shows "sched_inv (s\<lparr>runq := (runq s)(v := to # rest), th_state := (th_state s)(c := DONE, to := RUNNING),
    nthreads := (nthreads s)(v := nthreads s v - 1)\<rparr>)" (is "sched_inv ?s")
proof (rule sched_inv_relocate [OF I, where x = c and v = v])
  note c = inv_current [OF I r] and n = inv_ready_next [OF I r]
  show "threads ?s = insert c (threads s)" using c(1) by auto
  show "vcpu_of ?s c \<in> vcpus s" using inv_vcpus [OF I c(1)] by simp
  show "th_state ?s t = th_state s t \<or> runnable_state (th_state ?s t) \<and> runnable_state (th_state s t)"
    if "t \<noteq> c" for t using n that by (simp add: runnable_state_def)
  show "t \<in> set (runq ?s u) \<longleftrightarrow> t \<in> set (runq s u)" if "t \<noteq> c" for t u using that r by simp
  show "c \<in> set (runq ?s u) \<longleftrightarrow> vcpu_of ?s c = u \<and> runnable_state (th_state ?s c)" for u
    using c(2,9) n(4) inv_runq [OF I, of c u] by (simp add: runnable_state_def)
  show "c \<in> set (standbyq ?s u) \<longleftrightarrow> vcpu_of ?s c = u \<and> th_state ?s c = STANDBY" for u
    using c(6) n(4) by simp
  show "c \<in> set (waiters ?s x) \<longleftrightarrow> waitq_of ?s c = Some x" for x using c(4,7) by simp
  show "runq ?s u \<noteq> []" if "u \<in> vcpus s" for u using inv_nonempty [OF I that] by simp
  show "distinct (runq ?s u)" for u using inv_distinct_runq [OF I, of u] r by (cases "u = v") auto
  show "distinct (standbyq ?s u)" for u using inv_distinct_standbyq [OF I] by simp
  show "distinct (waiters ?s y)" for y using inv_distinct_waiters [OF I] by simp
  show "th_state ?s t = RUNNING \<longleftrightarrow> t = hd (runq ?s u)" if "t \<in> set (runq ?s u)" for t u
    using that inv_running [OF I, of t u] inv_runq [OF I, of t u] c(8) [of t] c(2,9) n
    by (cases "u = v"; cases "t = to") auto
  show "nthreads ?s u = nthreads s u + of_bool (vcpu_of ?s c = u \<and> th_state ?s c \<noteq> DONE)
    - of_bool (c \<in> threads s \<and> vcpu_of s c = u \<and> th_state s c \<noteq> DONE)" for u
    using c(1-3) n(4) by simp
  show "sq_fine (ts_wakeup ?s) (th_idx ?s) (sleepq ?s v)"
    using inv_heap [OF I, of v, unfolded sq_inv_view] by simp
  show "c \<notin> set (sleepq s u)" for u using c(5) .
  show "th_idx ?s c = -1" using inv_idx [OF I c(1)] c(5) by simp
  show "c \<in> set (sleepq ?s v) \<Longrightarrow> vcpu_of ?s c = v \<and> th_state ?s c \<in> {SLEEPING, STANDBY}" using c(5) by simp
  show "waitq_of ?s c \<noteq> None \<Longrightarrow> th_state ?s c = SLEEPING" using c(4) by simp
  show "th_state ?s c = SLEEPING \<Longrightarrow> c \<in> set (sleepq ?s v)" using n(4) by simp
qed simp_all

lemma inv_dispose:
  assumes I: "sched_inv s" and t: "th_state s t = DONE"
  shows "sched_inv (s\<lparr>threads := threads s - {t}\<rparr>)" (is "sched_inv ?s")
proof -
  have "waitq_of s t = None" if "t \<in> threads s"
    using inv_waitq [OF I that] t by (cases "waitq_of s t") auto
  then have "queues_inv ?s"
    unfolding queues_inv_def
    using inv_runq [OF I] inv_standby [OF I] inv_waiters [OF I] inv_waitq [OF I] t by auto
  moreover have "running_inv ?s"
    unfolding running_inv_def using inv_nonempty [OF I] inv_vcpus [OF I] inv_running [OF I] by simp
  moreover have "distinct_inv ?s"
    unfolding distinct_inv_def
    using inv_distinct_runq [OF I] inv_distinct_standbyq [OF I] inv_distinct_waiters [OF I] by simp
  moreover have "t \<notin> set (sleepq s u)" for u using inv_sleepq [OF I, of t u] t by auto
  then have "sleep_inv ?s"
    unfolding sleep_inv_def using inv_sleeping [OF I] inv_sleepq [OF I] inv_heap [OF I] inv_idx [OF I]
    by (auto simp: sq_view_def)
  moreover have "{x \<in> threads s - {t}. vcpu_of s x = u \<and> th_state s x \<noteq> DONE} =
      {x \<in> threads s. vcpu_of s x = u \<and> th_state s x \<noteq> DONE}" for u using t by auto
  then have "count_inv ?s"
    unfolding count_inv_def using inv_finite [OF I] inv_count [OF I] by simp
  ultimately show ?thesis by (simp add: sched_inv_def)
qed


text \<open>A READY thread that is not the running one, and the run queue without it.\<close>

lemma inv_ready:
  assumes I: "sched_inv s" and t: "t \<in> threads s" "vcpu_of s t = v" "th_state s t = READY"
  shows "t \<in> set (runq s v)" "t \<noteq> hd (runq s v)" "waitq_of s t = None" "\<And>u. t \<notin> set (standbyq s u)"
    "\<And>u. t \<notin> set (sleepq s u)" "\<And>w. t \<notin> set (waiters s w)" "th_idx s t = -1"
    "remove1 t (runq s v) \<noteq> []" "hd (remove1 t (runq s v)) = hd (runq s v)"
    "set (remove1 t (runq s v)) = set (runq s v) - {t}"
proof -
  show m: "t \<in> set (runq s v)" using inv_runq [OF I, of t v] t by simp
  then show h: "t \<noteq> hd (runq s v)" using inv_running [OF I m] t(3) by auto
  show w: "waitq_of s t = None" using inv_waitq [OF I t(1)] t(3) by (cases "waitq_of s t") auto
  show "t \<notin> set (standbyq s u)" for u using inv_standby [OF I, of t u] t(3) by simp
  show n: "t \<notin> set (sleepq s u)" for u using inv_sleepq [OF I, of t u] t(3) by auto
  show "t \<notin> set (waiters s x)" for x using inv_waiters [OF I, of t x] w by simp
  show "th_idx s t = -1" using inv_idx [OF I t(1)] n by simp
  obtain c rest where "runq s v = c # rest" using m by (cases "runq s v") auto
  then show "remove1 t (runq s v) \<noteq> []" "hd (remove1 t (runq s v)) = hd (runq s v)" using h by auto
  show "set (remove1 t (runq s v)) = set (runq s v) - {t}" using inv_distinct_runq [OF I] by (simp add: set_remove1_eq)
qed

lemma inv_migrate:
  assumes I: "sched_inv s" and t: "t \<in> threads s" "vcpu_of s t = v" "th_state s t = READY"
    and w: "w \<in> vcpus s" "w \<noteq> v"
  shows "sched_inv (s\<lparr>runq := (runq s)(v := remove1 t (runq s v)), th_state := (th_state s)(t := STANDBY),
    vcpu_of := (vcpu_of s)(t := w), nthreads := (nthreads s)(v := nthreads s v - 1, w := nthreads s w + 1),
    standbyq := (standbyq s)(w := standbyq s w @ [t])\<rparr>)" (is "sched_inv ?s")
proof (rule sched_inv_relocate [OF I, where x = t and v = w])
  note r = inv_ready [OF I t]
  have nu: "t \<notin> set (runq s u)" if "u \<noteq> v" for u using inv_runq [OF I, of t u] t(2) that by simp
  show "threads ?s = insert t (threads s)" using t(1) by auto
  show "x \<in> set (runq ?s u) \<longleftrightarrow> x \<in> set (runq s u)" if "x \<noteq> t" for x u using r(10) that by simp
  show "t \<in> set (runq ?s u) \<longleftrightarrow> vcpu_of ?s t = u \<and> runnable_state (th_state ?s t)" for u
    using r(10) nu [of u] by (simp add: runnable_state_def)
  show "t \<in> set (standbyq ?s u) \<longleftrightarrow> vcpu_of ?s t = u \<and> th_state ?s t = STANDBY" for u using r(4) [of u] by auto
  show "t \<in> set (waiters ?s x) \<longleftrightarrow> waitq_of ?s t = Some x" for x using r(3) r(6) [of x] by simp
  show "runq ?s u \<noteq> []" if "u \<in> vcpus s" for u using inv_nonempty [OF I that] r(8) by simp
  show "distinct (runq ?s u)" for u using inv_distinct_runq [OF I, of u] by (cases "u = v") (auto intro: distinct_remove1)
  show "distinct (standbyq ?s u)" for u using inv_distinct_standbyq [OF I, of u] r(4) [of u] by auto
  show "distinct (waiters ?s x)" for x using inv_distinct_waiters [OF I] by simp
  show "th_state ?s x = RUNNING \<longleftrightarrow> x = hd (runq ?s u)" if x: "x \<in> set (runq ?s u)" for x u
  proof (cases "u = v")
    case True
    then have "x \<in> set (runq s v)" "x \<noteq> t" using x r(10) by auto
    then show ?thesis using True inv_running [OF I, of x v] r(9) by simp
  next
    case False
    then have "x \<in> set (runq s u)" "x \<noteq> t" using x nu [OF False] by auto
    then show ?thesis using False inv_running [OF I, of x u] by simp
  qed
  show "nthreads ?s u = nthreads s u + of_bool (vcpu_of ?s t = u \<and> th_state ?s t \<noteq> DONE)
    - of_bool (t \<in> threads s \<and> vcpu_of s t = u \<and> th_state s t \<noteq> DONE)" for u
    using t w(2) by auto
  show "sq_fine (ts_wakeup ?s) (th_idx ?s) (sleepq ?s w)"
    using inv_heap [OF I, of w, unfolded sq_inv_view] by simp
  show "t \<notin> set (sleepq s u)" for u using r(5) .
  show "th_idx ?s t = -1" using r(7) by simp
  show "waitq_of ?s t \<noteq> None \<Longrightarrow> th_state ?s t = SLEEPING" using r(3) by simp
qed (use w inv_ready(5) [OF I t] in simp_all)

lemma inv_steal:
  assumes I: "sched_inv s" and t: "t \<in> threads s" "vcpu_of s t = u" "th_state s t = READY"
    and v: "v \<in> vcpus s" "v \<noteq> u"
  shows "sched_inv (s\<lparr>runq := (runq s)(u := remove1 t (runq s u), v := runq s v @ [t]),
    vcpu_of := (vcpu_of s)(t := v), nthreads := (nthreads s)(u := nthreads s u - 1, v := nthreads s v + 1)\<rparr>)"
    (is "sched_inv ?s")
proof (rule sched_inv_relocate [OF I, where x = t and v = v])
  note r = inv_ready [OF I t]
  have nu: "t \<notin> set (runq s w)" if "w \<noteq> u" for w using inv_runq [OF I, of t w] t(2) that by simp
  show "threads ?s = insert t (threads s)" using t(1) by auto
  show "x \<in> set (runq ?s w) \<longleftrightarrow> x \<in> set (runq s w)" if "x \<noteq> t" for x w using r(10) that by simp
  show "t \<in> set (runq ?s w) \<longleftrightarrow> vcpu_of ?s t = w \<and> runnable_state (th_state ?s t)" for w
    using r(10) nu [of w] t(3) v(2) by (auto simp: runnable_state_def)
  show "t \<in> set (standbyq ?s w) \<longleftrightarrow> vcpu_of ?s t = w \<and> th_state ?s t = STANDBY" for w
    using r(4) [of w] t(3) by simp
  show "t \<in> set (waiters ?s x) \<longleftrightarrow> waitq_of ?s t = Some x" for x using r(3) r(6) [of x] by simp
  show "runq ?s w \<noteq> []" if "w \<in> vcpus s" for w using inv_nonempty [OF I that] r(8) by simp
  show "distinct (runq ?s w)" for w
    using inv_distinct_runq [OF I, of w] nu [OF v(2)] inv_distinct_runq [OF I, of u]
    by (cases "w = u"; cases "w = v") (auto intro: distinct_remove1)
  show "distinct (standbyq ?s w)" for w using inv_distinct_standbyq [OF I, of w] by simp
  show "distinct (waiters ?s x)" for x using inv_distinct_waiters [OF I] by simp
  show "th_state ?s x = RUNNING \<longleftrightarrow> x = hd (runq ?s w)" if x: "x \<in> set (runq ?s w)" for x w
  proof -
    consider "x = t" | "w = u" "x \<noteq> t" | "w \<noteq> u" "x \<noteq> t" by blast
    then show ?thesis
    proof cases
      case 1
      then have "w = v" using x nu [of w] r(10) by (auto split: if_splits)
      then show ?thesis
        using 1 t(3) inv_nonempty [OF I v(1)] nu [OF v(2)] hd_in_set [of "runq s v"] by auto
    next
      case 2
      then have "x \<in> set (runq s u)" using x r(10) v(2) by simp
      then show ?thesis using 2 inv_running [OF I, of x u] r(9) v(2) by simp
    next
      case 3
      then have "x \<in> set (runq s w)" using x by (auto split: if_splits)
      then show ?thesis using 3 inv_running [OF I, of x w] inv_nonempty [OF I v(1)] by simp
    qed
  qed
  show "nthreads ?s w = nthreads s w + of_bool (vcpu_of ?s t = w \<and> th_state ?s t \<noteq> DONE)
    - of_bool (t \<in> threads s \<and> vcpu_of s t = w \<and> th_state s t \<noteq> DONE)" for w
    using t v(2) by auto
  show "sq_fine (ts_wakeup ?s) (th_idx ?s) (sleepq ?s v)"
    using inv_heap [OF I, of v, unfolded sq_inv_view] by simp
  show "t \<notin> set (sleepq s w)" for w using r(5) .
  show "th_idx ?s t = -1" using r(7) by simp
  show "waitq_of ?s t \<noteq> None \<Longrightarrow> th_state ?s t = SLEEPING" using r(3) by simp
  show "th_state ?s t = SLEEPING \<Longrightarrow> t \<in> set (sleepq ?s v)" using t(3) by simp
qed (use v inv_ready(5) [OF I t] in simp_all)

end
