(* ===== verification/Scheduler_Ops.thy ===== *)
theory Scheduler_Ops
  imports Scheduler_Moves
begin

text \<open>
  The operations of theory Scheduler succeed on states that satisfy the invariant and keep it.
\<close>

subsection \<open>Sleeping and yielding\<close>

lemma prepare_usleep_ok:
  assumes I: "sched_inv s" and r: "runq s v = c # to # rest"
  shows "\<exists>s'. prepare_usleep v tmo w clk s = Some (s', c, to) \<and> sched_inv s' \<and> runq s' v = to # rest \<and>
    th_state s' = (th_state s)(c := SLEEPING, to := RUNNING) \<and> vcpu_of s' = vcpu_of s \<and>
    waitq_of s' = (waitq_of s)(c := w) \<and> ts_wakeup s' = (ts_wakeup s)(c := tmo) \<and>
    error_number s' = error_number s \<and> threads s' = threads s"
proof -
  note c = inv_current [OF I r]
  define s4 where "s4 = s\<lparr>runq := (runq s)(v := to # rest), th_state := (th_state s)(c := SLEEPING, to := RUNNING),
    waiters := (case w of None \<Rightarrow> waiters s | Some w \<Rightarrow> (waiters s)(w := waiters s w @ [c])),
    waitq_of := (waitq_of s)(c := w), now := clk, ts_wakeup := (ts_wakeup s)(c := tmo)\<rparr>"
  have "sq_fine ((ts_wakeup s)(c := tmo)) (th_idx s) (sleepq s v)"
    by (rule sq_fine_cong [OF inv_heap [OF I, of v, unfolded sq_inv_view]]) (use c(5) [of v] in auto)
  then have "sq_fine (ts_wakeup s4) (th_idx s4) (sleepq s4 v)" by (simp add: s4_def)
  moreover have "c \<notin> set (sleepq s4 v)" using c(5) by (simp add: s4_def)
  ultimately obtain q f where q: "sleepq_push v c s4 = s4\<lparr>sleepq := (sleepq s4)(v := q), th_idx := f\<rparr>"
    "set q = insert c (set (sleepq s4 v))" "sq_fine (ts_wakeup s4) f q" "\<And>x. x \<notin> set q \<Longrightarrow> f x = th_idx s4 x"
    by (rule sleepq_push_fine) blast
  have "waitq_of s = (waitq_of s)(c := None)" using c(4) by auto
  then have p: "prepare_usleep v tmo w clk s = Some (sleepq_push v c s4, c, to)"
    using r c(2) by (cases w) (simp_all add: prepare_usleep_def remove_current_def s4_def Let_def)
  have "sched_inv (sleepq_push v c s4)"
    unfolding q(1)
    by (rule sched_inv_frame [OF inv_park [OF I r, of q "ts_wakeup s4" f tmo w]])
      (use q in \<open>simp_all add: s4_def\<close>)
  then show ?thesis unfolding p q(1) by (simp add: s4_def)
qed

lemma prepare_switch_ok:
  assumes "sched_inv s" "runq s v = to # rest" "vcpu_of s c = v"
  shows "prepare_switch c to s = Some (s\<lparr>switch_count := (switch_count s)(v := switch_count s v + 1)\<rparr>)"
  using inv_current [OF assms(1,2)] assms(3) by (simp add: prepare_switch_def Let_def)

lemma inv_switch_count: "sched_inv s \<Longrightarrow> sched_inv (s\<lparr>switch_count := x\<rparr>)"
  by (erule sched_inv_frame) simp_all

lemma inv_error_number: "sched_inv s \<Longrightarrow> sched_inv (s\<lparr>error_number := x\<rparr>)"
  by (erule sched_inv_frame) simp_all

lemma inv_now: "sched_inv s \<Longrightarrow> sched_inv (s\<lparr>now := x\<rparr>)"
  by (erule sched_inv_frame) simp_all

lemma inv_flags: "sched_inv s \<Longrightarrow> sched_inv (s\<lparr>th_flags := x\<rparr>)"
  by (erule sched_inv_frame) simp_all

lemmas inv_aux = inv_switch_count inv_error_number inv_now inv_flags

text \<open>The ring seen from another thread.\<close>

lemma ring_from_mem:
  assumes "x \<in> set xs"
  shows "set (ring_from x xs) = set xs" "ring_from x xs \<noteq> []" "hd (ring_from x xs) = x"
    "distinct xs \<Longrightarrow> distinct (ring_from x xs)"
proof -
  have a: "dropWhile (\<lambda>y. y \<noteq> x) xs \<noteq> []" using assms by (simp add: dropWhile_eq_Nil_conv)
  have eq: "set (ring_from x xs) = set (takeWhile (\<lambda>y. y \<noteq> x) xs @ dropWhile (\<lambda>y. y \<noteq> x) xs)"
    unfolding ring_from_def set_append by (rule Un_commute)
  then show "set (ring_from x xs) = set xs" by simp
  show "ring_from x xs \<noteq> []" using a by (simp add: ring_from_def)
  show "hd (ring_from x xs) = x" using hd_dropWhile [OF a] a by (simp add: ring_from_def)
  assume "distinct xs"
  then have "distinct (takeWhile (\<lambda>y. y \<noteq> x) xs @ dropWhile (\<lambda>y. y \<noteq> x) xs)" by simp
  then show "distinct (ring_from x xs)" unfolding ring_from_def distinct_append by blast
qed

lemma do_goto_ok:
  assumes I: "sched_inv s" and r: "runq s v = c # rest" and to: "to \<in> set rest"
    and ys: "ys = c # rest'" "set rest' = set rest" "distinct ys"
  shows "\<exists>s'. do_goto v to (s\<lparr>runq := (runq s)(v := ys)\<rparr>) = (s', c, to) \<and> sched_inv s' \<and> hd (runq s' v) = to \<and>
    th_state s' = (th_state s)(c := READY, to := RUNNING) \<and> vcpu_of s' = vcpu_of s \<and> runq s' v \<noteq> []"
proof -
  have m: "to \<in> set ys" "set ys = set (runq s v)" using to ys r by auto
  note g = ring_from_mem [OF m(1)]
  have "sched_inv (s\<lparr>th_state := (th_state s)(c := READY, to := RUNNING), runq := (runq s)(v := ring_from to ys)\<rparr>)"
    by (rule inv_goto [OF I r to]) (use g m ys(3) in simp_all)
  then show ?thesis using ys(1) g by (simp add: do_goto_def current_def)
qed

lemma switch_goto_ok:
  assumes "sched_inv s'" "runq s' v \<noteq> []" "hd (runq s' v) = to" "vcpu_of s' c = v"
  shows "\<exists>s''. prepare_switch c to s' = Some s'' \<and> sched_inv s'' \<and> runq s'' = runq s' \<and>
    th_state s'' = th_state s' \<and> vcpu_of s'' = vcpu_of s'"
proof -
  obtain rest where "runq s' v = to # rest" using assms(2,3) by (cases "runq s' v") auto
  then show ?thesis using prepare_switch_ok [OF assms(1) _ assms(4)] inv_switch_count [OF assms(1)] by simp
qed

lemma goto_next_ok:
  assumes I: "sched_inv s" and r: "runq s v = c # to # rest"
  shows "\<exists>s'. goto_next v s = Some (s', c, to) \<and> sched_inv s' \<and> hd (runq s' v) = to \<and>
    th_state s' = (th_state s)(c := READY, to := RUNNING) \<and> vcpu_of s' = vcpu_of s \<and> runq s' v \<noteq> []"
proof -
  have "s\<lparr>runq := (runq s)(v := c # to # rest)\<rparr> = s" using r by (simp flip: r)
  then show ?thesis
    using do_goto_ok [OF I r, of to "c # to # rest" "to # rest"] inv_distinct_runq [OF I, of v] r
    by (simp add: goto_next_def)
qed

lemma thread_yield_ok:
  assumes I: "sched_inv s" and r: "runq s v = c # to # rest"
  shows "\<exists>s'. thread_yield v clk s = Some s' \<and> sched_inv s' \<and> hd (runq s' v) = to \<and> th_state s' c = READY"
proof -
  let ?s = "s\<lparr>now := clk, error_number := (error_number s)(c := 0)\<rparr>"
  have I': "sched_inv ?s" using I by (simp add: inv_aux)
  have r': "runq ?s v = c # to # rest" using r by simp
  obtain s1 where s1: "goto_next v ?s = Some (s1, c, to)" "sched_inv s1" "hd (runq s1 v) = to"
    "th_state s1 = (th_state ?s)(c := READY, to := RUNNING)" "vcpu_of s1 = vcpu_of ?s" "runq s1 v \<noteq> []"
    using goto_next_ok [OF I' r'] by blast
  have "vcpu_of s1 c = v" using s1(5) inv_current(2) [OF I r] by simp
  then obtain s2 where "prepare_switch c to s1 = Some s2" "sched_inv s2" "runq s2 = runq s1" "th_state s2 = th_state s1"
    using switch_goto_ok [OF s1(2,6,3)] by blast
  then show ?thesis
    using s1 inv_ready_next(4) [OF I r] r by (simp add: thread_yield_def switch_to_def current_def)
qed


subsection \<open>Waking\<close>

lemma sleeping_not_current:
  assumes "sched_inv s" "w \<in> vcpus s" "th_state s t = SLEEPING"
  shows "t \<noteq> current w s"
  using inv_hd_runq [OF assms(1,2)] assms(3) by (auto simp: current_def)

lemma sq_fine_aux: "sq_inv (th_idx s) (ts_wakeup s) (sq_view v s) \<Longrightarrow> sq_fine (ts_wakeup s) (th_idx s) (sleepq s v)"
  by (simp add: sq_inv_view)

lemma interrupt_local_ok:
  assumes I: "sched_inv s" and t: "t \<in> threads s" "th_state s t = SLEEPING" and v: "vcpu_of s t = v"
  shows "\<exists>s'. prelocked_thread_interrupt (Some v) t e s = Some s' \<and> sched_inv s' \<and> th_state s' t = READY \<and>
    runq s' v = runq s v @ [t] \<and> waitq_of s' t = None \<and> error_number s' = (error_number s)(t := e) \<and>
    waiters s' = waiters_without t s \<and> t \<notin> set (sleepq s' v)"
proof -
  have vv: "v \<in> vcpus s" using inv_vcpus [OF I t(1)] v by simp
  define s1 where "s1 = s\<lparr>error_number := (error_number s)(t := e)\<rparr>"
  have I1: "sched_inv s1" using I by (simp add: s1_def inv_aux)
  have wo: "waiters_without t s1 = waiters_without t s" by (rule ext) (simp add: s1_def waiters_without_def)
  define s2 where "s2 = s1\<lparr>waiters := waiters_without t s, waitq_of := (waitq_of s)(t := None),
    th_state := (th_state s)(t := READY)\<rparr>"
  have d: "dequeue_ready_atomic t READY s1 = Some s2"
    using dequeue_ready_sleeping [OF I1, of t READY] t wo by (simp add: s2_def s1_def)
  have a: "sq_fine (ts_wakeup s2) (th_idx s2) (sleepq s2 v)"
    using inv_heap [OF I, of v, THEN sq_fine_aux] by (simp add: s2_def s1_def)
  have b: "t \<notin> set (sleepq s2 v) \<longrightarrow> th_idx s2 t = -1"
    using inv_idx [OF I t(1)] v by (simp add: s2_def s1_def)
  obtain q f where q: "sleepq_pop v t s2 = s2\<lparr>sleepq := (sleepq s2)(v := q), th_idx := f\<rparr>"
    "set q = set (sleepq s2 v) - {t}" "sq_fine (ts_wakeup s2) f q" "f t = -1"
    "\<And>x. x \<notin> set (sleepq s2 v) \<Longrightarrow> f x = th_idx s2 x"
    by (rule sleepq_pop_fine [OF a b]) (rule that)
  have p: "prelocked_thread_interrupt (Some v) t e s = Some (rq_insert_tail v t (sleepq_pop v t s2))"
    using t(2) v sleeping_not_current [OF I vv t(2)] d
    by (simp add: prelocked_thread_interrupt_def Let_def flip: s1_def)
  have sb: "t \<notin> set (standbyq s u)" for u using inv_standby [OF I, of t u] t(2) by simp
  have "sched_inv (rq_insert_tail v t (sleepq_pop v t s2))"
    unfolding q(1)
    by (rule sched_inv_frame [OF inv_to_runq [OF I1, of t v "standbyq s" q f]])
      (use q t v wo sb inv_distinct_standbyq [OF I] in \<open>simp_all add: s2_def s1_def rq_insert_tail_def\<close>)
  then show ?thesis unfolding p q(1) using q(2) by (simp add: rq_insert_tail_def s2_def s1_def)
qed

lemma interrupt_remote_ok:
  assumes I: "sched_inv s" and t: "t \<in> threads s" "th_state s t = SLEEPING" and v: "vcpu_of s t = v"
    and rq: "rq \<noteq> Some v" "\<And>w. rq = Some w \<Longrightarrow> w \<in> vcpus s"
  shows "\<exists>s'. prelocked_thread_interrupt rq t e s = Some s' \<and> sched_inv s' \<and> th_state s' t = STANDBY \<and>
    standbyq s' v = standbyq s v @ [t] \<and> waitq_of s' t = None \<and> error_number s' = (error_number s)(t := e) \<and>
    waiters s' = waiters_without t s"
proof -
  define s1 where "s1 = s\<lparr>error_number := (error_number s)(t := e)\<rparr>"
  have I1: "sched_inv s1" using I by (simp add: s1_def inv_aux)
  have wo: "waiters_without t s1 = waiters_without t s" by (rule ext) (simp add: s1_def waiters_without_def)
  have d: "dequeue_ready_atomic t STANDBY s1 = Some (s1\<lparr>waiters := waiters_without t s,
    waitq_of := (waitq_of s)(t := None), th_state := (th_state s)(t := STANDBY)\<rparr>)"
    using dequeue_ready_sleeping [OF I1, of t STANDBY] t wo by (simp add: s1_def)
  have "\<not> (case rq of None \<Rightarrow> False | Some w \<Rightarrow> t = current w s)"
    using sleeping_not_current [OF I _ t(2)] rq(2) by (cases rq) auto
  then have p: "prelocked_thread_interrupt rq t e s = Some (s1\<lparr>waiters := waiters_without t s,
      waitq_of := (waitq_of s)(t := None), th_state := (th_state s)(t := STANDBY),
      standbyq := (standbyq s)(v := standbyq s v @ [t])\<rparr>)"
    using t(2) v d rq(1)
    by (simp add: prelocked_thread_interrupt_def Let_def move_to_standbyq_atomic_def s1_def)
  have "sched_inv (s1\<lparr>waiters := waiters_without t s,
      waitq_of := (waitq_of s)(t := None), th_state := (th_state s)(t := STANDBY),
      standbyq := (standbyq s)(v := standbyq s v @ [t])\<rparr>)"
    by (rule sched_inv_frame [OF inv_to_standby [OF I1, of t v]]) (use t v wo in \<open>simp_all add: s1_def\<close>)
  then show ?thesis unfolding p by (simp add: s1_def)
qed

text \<open>On either path the thread leaves its wait queue and gets the error number.\<close>

lemma prelocked_interrupt_ok:
  assumes I: "sched_inv s" and t: "t \<in> threads s" "th_state s t = SLEEPING"
    and rq: "\<And>w. rq = Some w \<Longrightarrow> w \<in> vcpus s"
  shows "\<exists>s'. prelocked_thread_interrupt rq t e s = Some s' \<and> sched_inv s' \<and>
    th_state s' t = (if rq = Some (vcpu_of s t) then READY else STANDBY) \<and> waitq_of s' t = None \<and>
    error_number s' = (error_number s)(t := e) \<and> waiters s' = waiters_without t s"
  using interrupt_local_ok [OF I t refl, of e] interrupt_remote_ok [OF I t refl _ rq, of rq e]
  by (cases "rq = Some (vcpu_of s t)") auto

lemma thread_interrupt_ok:
  assumes I: "sched_inv s" and t: "t \<in> threads s" and rq: "\<And>w. rq = Some w \<Longrightarrow> w \<in> vcpus s"
  shows "\<exists>s'. thread_interrupt rq t e s = Some s' \<and> sched_inv s'"
  using prelocked_interrupt_ok [OF I t _ rq, of rq e] inv_error_number [OF I] I
  by (cases "th_state s t = SLEEPING") (auto simp: thread_interrupt_def)

lemma resume_one_ok:
  assumes I: "sched_inv s" and rq: "\<And>x. rq = Some x \<Longrightarrow> x \<in> vcpus s" and w: "waiters s w = h # rest"
  shows "\<exists>s'. resume_one rq w e s = Some (s', Some h) \<and> sched_inv s' \<and>
    th_state s' h = (if rq = Some (vcpu_of s h) then READY else STANDBY) \<and> waitq_of s' h = None \<and>
    error_number s' = (error_number s)(h := e) \<and> waiters s' w = rest"
proof -
  have h: "h \<in> threads s" "waitq_of s h = Some w" using inv_waiters [OF I, of h w] w by simp_all
  then have "th_state s h = SLEEPING" using inv_waitq [OF I h(1)] by simp
  from prelocked_interrupt_ok [OF I h(1) this rq, of rq e] show ?thesis
    using w h(2) by (auto simp: resume_one_def waiters_without_def)
qed

end
