(* ===== verification/Scheduler_Resume.thy ===== *)
theory Scheduler_Resume
  imports Scheduler_Ops
begin

text \<open>
  The loops of \<open>resume_threads\<close>, and the operations built on it and on the basic ones: termination,
  migration and yielding to a given thread, all kept within the invariant.
\<close>

subsection \<open>Resuming threads\<close>

text \<open>
  While \<open>resume_threads\<close> runs, threads are in its local list.  The state in which the threads
  still to be processed are in the stand-by queue and the processed ones at the end of the run
  queue satisfies the invariant at every turn of the loops.
\<close>

definition in_transit :: "vid \<Rightarrow> tid list \<Rightarrow> tid list \<Rightarrow> sched \<Rightarrow> sched" where
  "in_transit v todo ready s =
     s\<lparr>standbyq := (standbyq s)(v := todo), runq := (runq s)(v := runq s v @ ready)\<rparr>"

lemma in_transit_simps [simp]:
  "threads (in_transit v a b s) = threads s" "vcpu_of (in_transit v a b s) = vcpu_of s"
  "waitq_of (in_transit v a b s) = waitq_of s" "th_state (in_transit v a b s) = th_state s"
  "ts_wakeup (in_transit v a b s) = ts_wakeup s" "th_idx (in_transit v a b s) = th_idx s"
  "vcpus (in_transit v a b s) = vcpus s" "sleepq (in_transit v a b s) = sleepq s"
  "nthreads (in_transit v a b s) = nthreads s" "waiters (in_transit v a b s) = waiters s"
  "runq (in_transit v a b s) = (runq s)(v := runq s v @ b)"
  "standbyq (in_transit v a b s) = (standbyq s)(v := a)"
  by (simp_all add: in_transit_def)

lemma waiters_without_None: "waitq_of s t = None \<Longrightarrow> waiters_without t s = waiters s"
  by (auto simp: waiters_without_def)

lemma resume_standby_ok:
  "sched_inv (in_transit v lst dn s) \<Longrightarrow>
    \<exists>s'. resume_standby v lst s = Some s' \<and> sched_inv (in_transit v [] (dn @ lst) s') \<and>
      runq s' = runq s \<and> standbyq s' = standbyq s \<and> ts_wakeup s' = ts_wakeup s \<and>
      threads s' = threads s \<and> vcpus s' = vcpus s \<and> vcpu_of s' = vcpu_of s \<and>
      set (sleepq s' v) = set (sleepq s v) - set lst"
proof (induction lst arbitrary: dn s)
  case (Cons th ths)
  note I = Cons.prems
  have th: "th \<in> threads s" "vcpu_of s th = v" "th_state s th = STANDBY"
    using inv_standby [OF I, of th v] by simp_all
  have nw: "waitq_of s th = None" using inv_waitq [OF I] th by (cases "waitq_of s th") auto
  have d: "distinct (th # ths)" using inv_distinct_standbyq [OF I, of v] by simp
  have nu: "th \<notin> set (standbyq s u)" if "u \<noteq> v" for u using inv_standby [OF I, of th u] that th(2) by auto
  have du: "distinct (standbyq s u)" if "u \<noteq> v" for u using inv_distinct_standbyq [OF I, of u] that by simp
  let ?s1 = "s\<lparr>th_state := (th_state s)(th := READY)\<rparr>"
  have a: "sq_fine (ts_wakeup ?s1) (th_idx ?s1) (sleepq ?s1 v)"
    using inv_heap [OF I, of v, THEN sq_fine_aux] by simp
  have b: "th \<notin> set (sleepq ?s1 v) \<longrightarrow> th_idx ?s1 th = -1" using inv_idx [OF I, of th] th by simp
  obtain q f where q: "sleepq_pop v th ?s1 = ?s1\<lparr>sleepq := (sleepq ?s1)(v := q), th_idx := f\<rparr>"
    "set q = set (sleepq ?s1 v) - {th}" "sq_fine (ts_wakeup ?s1) f q" "f th = -1"
    "\<And>x. x \<notin> set (sleepq ?s1 v) \<Longrightarrow> f x = th_idx ?s1 x"
    by (rule sleepq_pop_fine [OF a b]) (rule that)
  let ?s2 = "?s1\<lparr>sleepq := (sleepq ?s1)(v := q), th_idx := f\<rparr>"
  have "sched_inv (in_transit v ths (dn @ [th]) ?s2)"
    by (rule sched_inv_frame [OF inv_to_runq [OF I, of th v "(standbyq s)(v := ths)" q f]])
      (use q th d nu du nw in \<open>auto simp: waiters_without_None split: if_splits\<close>)
  from Cons.IH [OF this] obtain s' where "resume_standby v ths ?s2 = Some s'"
    "sched_inv (in_transit v [] (dn @ th # ths) s')" "runq s' = runq s" "standbyq s' = standbyq s"
    "ts_wakeup s' = ts_wakeup s" "threads s' = threads s" "vcpus s' = vcpus s" "vcpu_of s' = vcpu_of s"
    "set (sleepq s' v) = set q - set ths" by auto
  then show ?case using th(3) q(1,2) by auto
qed auto

lemma dequeue_ready_eq:
  assumes "\<And>w. waitq_of s t = Some w \<Longrightarrow> waiters s w \<noteq> []"
    and "t \<notin> set (runq s (vcpu_of s t))" "t \<notin> set (standbyq s (vcpu_of s t))"
  shows "dequeue_ready_atomic t st s = Some (s\<lparr>waiters := waiters_without t s,
    waitq_of := (waitq_of s)(t := None), th_state := (th_state s)(t := st)\<rparr>)"
proof (cases "waitq_of s t")
  case None
  moreover have "(waitq_of s)(t := None) = waitq_of s" using None by auto
  ultimately show ?thesis using assms by (simp add: dequeue_ready_atomic_def waiters_without_None)
next
  case (Some w)
  moreover have "(waiters s)(w := remove1 t (waiters s w)) = waiters_without t s"
    using Some by (auto simp: waiters_without_def)
  ultimately show ?thesis using assms(1) by (simp add: dequeue_ready_atomic_def)
qed

lemma sq_fine_root: "sq_fine ts f (x # xs) \<Longrightarrow> t \<in> set (x # xs) \<Longrightarrow> ts x \<le> ts t"
proof -
  assume "sq_fine ts f (x # xs)" "t \<in> set (x # xs)"
  then obtain i where "i < length (x # xs)" "t = (x # xs) ! i" by (metis in_set_conv_nth)
  then show ?thesis using heap_root [of ts "x # xs" i] \<open>sq_fine ts f (x # xs)\<close> by (simp add: sq_fine_def)
qed

lemma resume_sleepers_ok:
  "sched_inv (in_transit v [] dn s) \<Longrightarrow> standbyq s v = [] \<Longrightarrow>
    \<exists>s' ths. resume_sleepers v s = Some (s', ths) \<and> sched_inv (in_transit v [] (dn @ ths) s') \<and>
      runq s' = runq s \<and> standbyq s' = standbyq s \<and> ts_wakeup s' = ts_wakeup s \<and>
      set (sleepq s' v) = {t \<in> set (sleepq s v). now s < ts_wakeup s t} \<and>
      set ths = {t \<in> set (sleepq s v). ts_wakeup s t \<le> now s}"
proof (induction v s arbitrary: dn rule: resume_sleepers.induct)
  case (1 v s)
  note I = 1(3)
  have fine: "sq_fine (ts_wakeup s) (th_idx s) (sleepq s v)" using inv_heap [OF I, of v, THEN sq_fine_aux] by simp
  show ?case
  proof (cases "sleepq s v")
    case Nil
    then show ?thesis using I by (simp add: resume_sleepers.simps [of v s])
  next
    case (Cons th rest)
    show ?thesis
    proof (cases "now s < ts_wakeup s th")
      case True
      have "now s < ts_wakeup s t" if "t \<in> set (sleepq s v)" for t
        using sq_fine_root [of "ts_wakeup s" "th_idx s" th rest t] fine that Cons True by simp
      then have "{t \<in> set (sleepq s v). now s < ts_wakeup s t} = set (sleepq s v)"
        "{t \<in> set (sleepq s v). ts_wakeup s t \<le> now s} = {}" by (auto dest: leD)
      then show ?thesis using I True by (simp add: resume_sleepers.simps [of v s] Cons)
    next
      case False
      obtain q f where q: "sleepq_pop_front v s = Some (s\<lparr>sleepq := (sleepq s)(v := q), th_idx := f\<rparr>, th)"
        "set q = set (sleepq s v) - {th}" "sq_fine (ts_wakeup s) f q" "f th = -1"
        "\<And>x. x \<notin> set (sleepq s v) \<Longrightarrow> f x = th_idx s x"
        by (rule sleepq_pop_front_fine [OF fine Cons]) (rule that)
      let ?s1 = "s\<lparr>sleepq := (sleepq s)(v := q), th_idx := f\<rparr>"
      have mem: "th \<in> set (sleepq s v)" using Cons by simp
      then have th: "th \<in> threads s" "vcpu_of s th = v" "th_state s th = SLEEPING"
        using inv_sleepq [OF I, of th v] inv_standby [OF I, of th v] by auto
      have nr: "th \<notin> set (runq s v)" using inv_runq [OF I, of th v] th(3) by auto
      have nb: "th \<notin> set (((standbyq s)(v := [])) u)" for u using inv_standby [OF I, of th u] th(3) by simp
      have wne: "waiters s w \<noteq> []" if "waitq_of s th = Some w" for w
        using inv_waiters [OF I, of th w] th(1) that by auto
      let ?s2 = "?s1\<lparr>waiters := waiters_without th s, waitq_of := (waitq_of s)(th := None),
        th_state := (th_state s)(th := READY)\<rparr>"
      have wo: "waiters_without th (s\<lparr>sleepq := a, th_idx := b\<rparr>) = waiters_without th s"
        "waiters_without th (in_transit v [] dn s) = waiters_without th s" for a b
        by (auto simp: waiters_without_def)
      have deq: "dequeue_ready_atomic th READY ?s1 = Some ?s2"
        using dequeue_ready_eq [of ?s1 th READY] wne nr 1(4) th(2) by (simp add: wo)
      have I2: "sched_inv (in_transit v [] (dn @ [th]) ?s2)"
        by (rule sched_inv_frame [OF inv_to_runq [OF I, of th v "(standbyq s)(v := [])" q f]])
          (use q th nb wo inv_distinct_standbyq [OF I] in simp_all)
      have "now s < ts_wakeup s th \<longleftrightarrow> False" using False by simp
      note eq = resume_sleepers.simps [of v s, unfolded Cons list.case this if_False q(1) option.case prod.case]
      obtain s' ths where R: "resume_sleepers v ?s2 = Some (s', ths)"
        "sched_inv (in_transit v [] ((dn @ [th]) @ ths) s')" "runq s' = runq s" "standbyq s' = standbyq s"
        "ts_wakeup s' = ts_wakeup s" "set (sleepq s' v) = {t \<in> set q. now s < ts_wakeup s t}"
        "set ths = {t \<in> set q. ts_wakeup s t \<le> now s}"
        using 1(1) [OF Cons _ q(1) refl _ deq I2] False th(3) 1(4) by auto
      have "resume_sleepers v s = Some (s', th # ths)" using eq th(3) deq R(1) by simp
      moreover have "set (sleepq s' v) = {t \<in> set (sleepq s v). now s < ts_wakeup s t}"
        using R(6) q(2) False by auto
      moreover have "set (th # ths) = {t \<in> set (sleepq s v). ts_wakeup s t \<le> now s}"
        using R(7) q(2) leI [OF False] mem by auto
      ultimately show ?thesis using R(2-5) by (intro exI [of _ s'] exI [of _ "th # ths"]) simp
    qed
  qed
qed


lemma resume_threads_ok:
  assumes I: "sched_inv s"
  shows "\<exists>s' L. resume_threads v clk s = Some (s', length L) \<and> sched_inv s' \<and> standbyq s' v = [] \<and>
    runq s' v = runq s v @ L \<and> ts_wakeup s' = ts_wakeup s \<and>
    set L = set (standbyq s v) \<union> {t \<in> set (sleepq s v) - set (standbyq s v). ts_wakeup s t \<le> clk} \<and>
    set (sleepq s' v) = {t \<in> set (sleepq s v) - set (standbyq s v). clk < ts_wakeup s t}"
proof -
  let ?s0 = "s\<lparr>standbyq := (standbyq s)(v := [])\<rparr>"
  have "in_transit v (standbyq s v) [] ?s0 = s" by (simp add: in_transit_def)
  with I have "sched_inv (in_transit v (standbyq s v) [] ?s0)" by simp
  from resume_standby_ok [OF this] obtain s1 where s1: "resume_standby v (standbyq s v) ?s0 = Some s1"
    "sched_inv (in_transit v [] (standbyq s v) s1)" "runq s1 = runq s" "standbyq s1 = (standbyq s)(v := [])"
    "ts_wakeup s1 = ts_wakeup s" "set (sleepq s1 v) = set (sleepq s v) - set (standbyq s v)" by auto
  show ?thesis
  proof (cases "sleepq s1 v = []")
    case True
    have "(standbyq s1)(v := []) = standbyq s1" using s1(4) by auto
    then have "in_transit v [] (standbyq s v) s1 = rq_insert_list_before v (standbyq s v) s1"
      by (simp add: in_transit_def rq_insert_list_before_def)
    moreover have "rq_insert_list_before v [] s1 = s1" by (simp add: rq_insert_list_before_def)
    ultimately show ?thesis
      using s1 True
      by (intro exI [of _ "rq_insert_list_before v (standbyq s v) s1"] exI [of _ "standbyq s v"])
        (auto simp: resume_threads_def Let_def rq_insert_list_before_def)
  next
    case False
    let ?s2 = "s1\<lparr>now := clk\<rparr>"
    have "in_transit v [] (standbyq s v) ?s2 = (in_transit v [] (standbyq s v) s1)\<lparr>now := clk\<rparr>"
      by (simp add: in_transit_def)
    then have I2: "sched_inv (in_transit v [] (standbyq s v) ?s2)" using inv_now [OF s1(2)] by simp
    have "standbyq ?s2 v = []" using s1(4) by simp
    from resume_sleepers_ok [OF I2 this] obtain s' ths where s': "resume_sleepers v ?s2 = Some (s', ths)"
      "sched_inv (in_transit v [] (standbyq s v @ ths) s')" "runq s' = runq s" "standbyq s' = (standbyq s)(v := [])"
      "ts_wakeup s' = ts_wakeup s"
      "set (sleepq s' v) = {t \<in> set (sleepq s1 v). clk < ts_wakeup s t}"
      "set ths = {t \<in> set (sleepq s1 v). ts_wakeup s t \<le> clk}" using s1 by auto
    have "(standbyq s')(v := []) = standbyq s'" using s'(4) by auto
    then have "in_transit v [] (standbyq s v @ ths) s' = rq_insert_list_before v (standbyq s v @ ths) s'"
      by (simp add: in_transit_def rq_insert_list_before_def)
    then show ?thesis
      using s' s1 False
      by (intro exI [of _ "rq_insert_list_before v (standbyq s v @ ths) s'"] exI [of _ "standbyq s v @ ths"])
        (auto simp: resume_threads_def Let_def rq_insert_list_before_def)
  qed
qed


subsection \<open>Termination and joining\<close>

text \<open>Waking another thread does not look at the state of the dying thread.\<close>

lemma resume_one_done:
  assumes I: "sched_inv s" and r: "runq s v = c # rest"
  shows "resume_one (Some v) w e (s\<lparr>th_state := (th_state s)(c := DONE)\<rparr>) =
    map_option (\<lambda>(s', h). (s'\<lparr>th_state := (th_state s')(c := DONE)\<rparr>, h)) (resume_one (Some v) w e s)"
proof (cases "waiters s w")
  case (Cons h hs)
  then have h: "h \<in> threads s" "waitq_of s h = Some w" using inv_waiters [OF I, of h w] by simp_all
  then have sl: "th_state s h = SLEEPING" using inv_waitq [OF I] by simp
  then have "h \<noteq> c" using inv_current(3) [OF I r] by auto
  then show ?thesis
    using Cons h sl r
    by (simp add: resume_one_def prelocked_thread_interrupt_def Let_def dequeue_ready_atomic_def current_def
        move_to_standbyq_atomic_def sleepq_pop_def sq_put_def sq_view_def rq_insert_tail_def fun_upd_twist)
qed (simp add: resume_one_def)

lemma resume_one_result:
  assumes I: "sched_inv s" and v: "v \<in> vcpus s"
  shows "\<exists>s' h L. resume_one (Some v) w e s = Some (s', h) \<and> sched_inv s' \<and> runq s' v = runq s v @ L \<and>
    vcpu_of s' = vcpu_of s \<and> th_flags s' = th_flags s \<and> (\<forall>t. th_state s' t \<noteq> th_state s t \<longrightarrow> h = Some t)"
proof (cases "waiters s w")
  case Nil
  then show ?thesis using I by (simp add: resume_one_def)
next
  case (Cons h hs)
  then have h: "h \<in> threads s" "waitq_of s h = Some w" using inv_waiters [OF I, of h w] by simp_all
  then have sl: "th_state s h = SLEEPING" using inv_waitq [OF I] by simp
  have rq: "x \<in> vcpus s" if "Some v = Some x" for x using that v by simp
  obtain s' where s': "resume_one (Some v) w e s = Some (s', Some h)" "sched_inv s'"
    using resume_one_ok [OF I rq Cons, of "Some v" e] by blast
  then show ?thesis
    using Cons h sl
    by (intro exI [of _ s'] exI [of _ "Some h"] exI [of _ "if vcpu_of s h = v then [h] else []"])
      (auto simp: resume_one_def prelocked_thread_interrupt_def Let_def dequeue_ready_atomic_def
        move_to_standbyq_atomic_def sleepq_pop_def sq_put_def rq_insert_tail_def split: if_splits)
qed

lemma die_ok:
  assumes I: "sched_inv s" and r: "runq s v = c # to # rest"
  shows "\<exists>s'. die v s = Some s' \<and> sched_inv s' \<and> th_state s' c = DONE \<and> hd (runq s' v) = to \<and>
    c \<notin> set (runq s' v) \<and> (c \<in> threads s' \<longleftrightarrow> is_joinable c s)"
proof -
  note c = inv_current [OF I r]
  have v: "v \<in> vcpus s" using inv_vcpus [OF I c(1)] c(2) by simp
  obtain s1 h L where s1: "resume_one (Some v) (Cond c) (-1) s = Some (s1, h)" "sched_inv s1"
    "runq s1 v = c # to # rest @ L" "vcpu_of s1 = vcpu_of s" "th_flags s1 = th_flags s"
    using resume_one_result [OF I v, of "Cond c" "-1"] r by auto
  define s4 where "s4 = s1\<lparr>runq := (runq s1)(v := to # rest @ L), th_state := (th_state s1)(c := DONE, to := RUNNING),
    nthreads := (nthreads s1)(v := nthreads s1 v - 1)\<rparr>"
  have I4: "sched_inv s4" unfolding s4_def by (rule inv_exit [OF s1(2,3)])
  have "die v s = Some (if is_joinable c s then s4 else s4\<lparr>threads := threads s4 - {c}\<rparr>)"
    using s1 c(2) r resume_one_done [OF I r, of "Cond c" "-1"]
    by (simp add: die_def Let_def current_def remove_current_def s4_def is_joinable_def)
  moreover have d: "th_state s4 c = DONE" "c \<in> threads s4" "c \<notin> set (runq s4 v)"
    using inv_ready_next(4,8) [OF s1(2,3)] inv_current(1) [OF s1(2,3)] by (auto simp: s4_def)
  ultimately show ?thesis using I4 inv_dispose [OF I4 d(1)] by (simp add: s4_def)
qed

subsection \<open>Migration, yielding to a thread\<close>

lemma do_thread_migrate_ok:
  assumes I: "sched_inv s" and t: "t \<in> threads s" "vcpu_of s t = v" "th_state s t = READY"
    and w: "w \<in> vcpus s" "w \<noteq> v"
  shows "\<exists>s'. do_thread_migrate v t w s = Some s' \<and> sched_inv s' \<and> vcpu_of s' t = w \<and> th_state s' t = STANDBY"
proof -
  have "do_thread_migrate v t w s = Some (s\<lparr>runq := (runq s)(v := remove1 t (runq s v)),
    th_state := (th_state s)(t := STANDBY), vcpu_of := (vcpu_of s)(t := w),
    nthreads := (nthreads s)(v := nthreads s v - 1, w := nthreads s w + 1),
    standbyq := (standbyq s)(w := standbyq s w @ [t])\<rparr>)"
    using t w inv_ready(2) [OF I t]
    by (simp add: do_thread_migrate_def rq_remove_from_list_def current_def Let_def move_to_standbyq_atomic_def)
  then show ?thesis using inv_migrate [OF I t w] by simp
qed

lemma defer_migrate_current_ok:
  assumes I: "sched_inv s" and r: "runq s v = c # to # rest" and w: "w \<in> vcpus s" "w \<noteq> v"
  shows "\<exists>s'. defer_migrate_current v w s = Some s' \<and> sched_inv s' \<and> vcpu_of s' c = w \<and> th_state s' c = STANDBY"
proof -
  note c = inv_current [OF I r]
  obtain s1 where s1: "goto_next v s = Some (s1, c, to)" "sched_inv s1" "hd (runq s1 v) = to"
    "th_state s1 = (th_state s)(c := READY, to := RUNNING)" "vcpu_of s1 = vcpu_of s" "runq s1 v \<noteq> []"
    using goto_next_ok [OF I r] by blast
  have th: "threads s1 = threads s" "vcpus s1 = vcpus s"
    using s1(1) r by (auto simp: goto_next_def do_goto_def Let_def)
  obtain rest' where r1: "runq s1 v = to # rest'" using s1(3,6) by (cases "runq s1 v") auto
  have vc: "vcpu_of s1 c = v" using s1(5) c(2) by simp
  let ?s2 = "s1\<lparr>switch_count := (switch_count s1)(v := switch_count s1 v + 1)\<rparr>"
  have I2: "sched_inv ?s2" using s1(2) by (rule inv_switch_count)
  have "prepare_switch c to s1 = Some ?s2" by (rule prepare_switch_ok [OF s1(2) r1 vc])
  moreover have "\<exists>s'. do_thread_migrate v c w ?s2 = Some s' \<and> sched_inv s' \<and> vcpu_of s' c = w \<and> th_state s' c = STANDBY"
    by (rule do_thread_migrate_ok [OF I2]) (use s1 th c(1,2) w inv_ready_next(4) [OF I r] in auto)
  ultimately show ?thesis using s1(1) by (simp add: defer_migrate_current_def)
qed

lemma thread_migrate_ok:
  assumes I: "sched_inv s" and r: "runq s v = c # to # rest"
    and t: "\<And>t. target = Some t \<Longrightarrow> t \<in> threads s" and w: "\<And>w. dest = Some w \<Longrightarrow> w \<in> vcpus s"
  shows "\<exists>s' oc. thread_migrate v target dest s = Some (s', oc) \<and> sched_inv s'"
proof (cases "\<exists>x y. target = Some x \<and> dest = Some y \<and> y \<noteq> v \<and> vcpu_of s x = v \<and> (x = c \<or> th_state s x = READY)")
  case True
  then obtain x y where xy: "target = Some x" "dest = Some y" "y \<noteq> v" "vcpu_of s x = v" "x = c \<or> th_state s x = READY" by blast
  note c = inv_current [OF I r]
  have y: "y \<in> vcpus s" and x: "x \<in> threads s" using t w xy by auto
  show ?thesis
  proof (cases "x = c")
    case True
    then show ?thesis
      using defer_migrate_current_ok [OF I r y xy(3)] xy r c(2) by (auto simp: thread_migrate_def current_def)
  next
    case False
    then have "th_state s x = READY" using xy(5) by simp
    then show ?thesis
      using do_thread_migrate_ok [OF I x xy(4) _ y xy(3)] xy r c(2) False by (auto simp: thread_migrate_def current_def)
  qed
next
  case False
  then show ?thesis
    using I r inv_current(2) [OF I r]
    by (cases target; cases dest) (auto simp: thread_migrate_def current_def)
qed

lemma do_yield_to_ok:
  assumes I: "sched_inv s" and r: "runq s v = c # rest" and t: "t \<in> set rest"
  shows "\<exists>s'. do_yield_to v t clk s = Some (s', Switched) \<and> sched_inv s' \<and> hd (runq s' v) = t \<and> th_state s' c = READY"
proof -
  note c = inv_current [OF I r]
  have d: "distinct rest" "c \<notin> set rest" using inv_distinct_runq [OF I, of v] r by auto
  have tv: "vcpu_of s t = v" "t \<noteq> c" using inv_runq [OF I, of t v] t r d by auto
  have "set (t # remove1 t rest) = set rest" using t d(1) by (auto simp: set_remove1_eq)
  moreover have "distinct (c # t # remove1 t rest)" using d t tv(2) by (auto simp: set_remove1_eq distinct_remove1)
  ultimately obtain s1 where s1: "try_goto v t s = Some (s1, c, t)" "sched_inv s1" "hd (runq s1 v) = t"
    "th_state s1 = (th_state s)(c := READY, t := RUNNING)" "vcpu_of s1 = vcpu_of s" "runq s1 v \<noteq> []"
    using do_goto_ok [OF I r t, of "c # t # remove1 t rest" "t # remove1 t rest"] tv(1) r
    by (auto simp: try_goto_def)
  let ?s2 = "s1\<lparr>now := clk, error_number := (error_number s1)(c := 0)\<rparr>"
  have "sched_inv ?s2" using s1(2) by (simp add: inv_aux)
  from switch_goto_ok [OF this, of v t c] s1 c(2) obtain s3 where
    "prepare_switch c t ?s2 = Some s3" "sched_inv s3" "runq s3 = runq s1" "th_state s3 = th_state s1" by auto
  then show ?thesis using s1 r tv(2) by (simp add: do_yield_to_def current_def Let_def)
qed

text \<open>One round of \<open>resume_threads\<close> brings a stand-by thread of the vCPU to its run queue.\<close>

lemma await_ready_ok:
  assumes I: "sched_inv s" and t: "t \<in> threads s" "vcpu_of s t = v" "th_state s t = STANDBY" and v: "v \<in> vcpus s"
  shows "\<exists>s' L. await_ready v t (clk # clks) s = Some s' \<and> sched_inv s' \<and> runq s' v = runq s v @ L \<and> t \<in> set L"
proof -
  obtain s' L where s': "resume_threads v clk s = Some (s', length L)" "sched_inv s'" "runq s' v = runq s v @ L"
    "set (standbyq s v) \<subseteq> set L" using resume_threads_ok [OF I, of v clk] by auto
  have tL: "t \<in> set L" using inv_standby [OF I, of t v] t s'(4) by auto
  then have m: "t \<in> set (runq s' v)" using s'(3) by simp
  have "hd (runq s v) \<notin> set L"
    using inv_distinct_runq [OF s'(2), of v] hd_in_set [OF inv_nonempty [OF I v]] unfolding s'(3) distinct_append by blast
  then have "t \<noteq> hd (runq s' v)" using s'(3) inv_nonempty [OF I v] tL by auto
  then have "th_state s' t = READY" using inv_runq [OF s'(2), of t v] inv_running [OF s'(2) m] m by auto
  then show ?thesis
    using s' t(3) tL by (simp add: await_ready.simps [of v t "clk # clks"] await_ready.simps [of v t clks s'])
qed

lemma thread_yield_to_ok:
  assumes I: "sched_inv s" and r: "runq s v = c # to # rest" and t: "\<And>t. target = Some t \<Longrightarrow> t \<in> threads s"
    and clks: "clks \<noteq> []"
  shows "\<exists>s' oc. thread_yield_to v target clks clk s = Some (s', oc) \<and> sched_inv s'"
proof (cases target)
  case None
  then show ?thesis using thread_yield_ok [OF I r, of clk] by (auto simp: thread_yield_to_def)
next
  case (Some x)
  note c = inv_current [OF I r]
  have v: "v \<in> vcpus s" using inv_vcpus [OF I c(1)] c(2) by simp
  have cur: "current v s = c" using r by (simp add: current_def)
  consider "x = c" | "x \<noteq> c" "vcpu_of s x \<noteq> v" | "x \<noteq> c" "vcpu_of s x = v" "th_state s x = STANDBY"
    | "x \<noteq> c" "vcpu_of s x = v" "th_state s x = READY"
    | "x \<noteq> c" "vcpu_of s x = v" "th_state s x \<notin> {STANDBY, READY}" by blast
  then show ?thesis
  proof cases
    case 3
    obtain k ks where "clks = k # ks" using clks by (cases clks) auto
    with await_ready_ok [OF I t [OF Some] 3(2,3) v, of k ks] obtain s' L where
      s': "await_ready v x clks s = Some s'" "sched_inv s'" "runq s' v = c # (to # rest) @ L" "x \<in> set L" using r by auto
    then show ?thesis
      using do_yield_to_ok [OF s'(2,3), of x clk] Some 3 cur c(2) by (auto simp: thread_yield_to_def)
  next
    case 4
    have "x \<in> set (to # rest)" using inv_runq [OF I, of x v] t [OF Some] 4 r by auto
    then show ?thesis
      using thread_yield_ok [OF I r, of clk] do_yield_to_ok [OF I r, of x clk] Some 4 cur c(2) r
      by (cases "x = to") (auto simp: thread_yield_to_def)
  qed (use I inv_now [OF I] Some cur c(2) in \<open>auto simp: thread_yield_to_def\<close>)
qed

end
