(* ===== verification/Scheduler_Props.thy ===== *)
theory Scheduler_Props
  imports Scheduler_Resume
begin

text \<open>
  Work stealing and the creation of vCPUs, the steps of the whole scheduler, and its main properties.
\<close>

subsection \<open>Stealing from a run queue\<close>

text \<open>
  While a run queue is scanned, the threads taken so far have changed their vCPU; they leave the
  ring at once and join the run queue of the thief at the end.
\<close>

definition stealing :: "vid \<Rightarrow> vid \<Rightarrow> tid list \<Rightarrow> sched \<Rightarrow> sched" where
  "stealing v u taken s =
     s\<lparr>runq := (runq s)(u := filter (\<lambda>t. t \<notin> set taken) (runq s u), v := runq s v @ taken)\<rparr>"

lemma stealing_simps [simp]:
  "threads (stealing v u a s) = threads s" "vcpu_of (stealing v u a s) = vcpu_of s"
  "waitq_of (stealing v u a s) = waitq_of s" "th_state (stealing v u a s) = th_state s"
  "ts_wakeup (stealing v u a s) = ts_wakeup s" "th_idx (stealing v u a s) = th_idx s"
  "vcpus (stealing v u a s) = vcpus s" "sleepq (stealing v u a s) = sleepq s"
  "standbyq (stealing v u a s) = standbyq s"
  "nthreads (stealing v u a s) = nthreads s" "waiters (stealing v u a s) = waiters s"
  "runq (stealing v u a s) = (runq s)(u := filter (\<lambda>t. t \<notin> set a) (runq s u), v := runq s v @ a)"
  by (simp_all add: stealing_def)

lemma remove1_filter_snoc:
  "distinct xs \<Longrightarrow> remove1 t (filter (\<lambda>x. x \<notin> set a) xs) = filter (\<lambda>x. x \<notin> set (a @ [t])) xs"
  by (induction xs) (auto intro!: filter_cong)

lemma ws_scan_rest_ok:
  "sched_inv (stealing v u taken s) \<Longrightarrow> v \<noteq> u \<Longrightarrow> v \<in> vcpus s \<Longrightarrow> distinct (runq s u) \<Longrightarrow> distinct ths \<Longrightarrow>
    set ths \<subseteq> set (runq s u) - set taken \<Longrightarrow>
    \<exists>s' T. ws_scan_rest v True ths s = (s', T) \<and> sched_inv (stealing v u (taken @ T) s') \<and>
      runq s' = runq s \<and> set T \<subseteq> set ths \<and> (\<forall>t\<in>set T. th_state s t \<noteq> RUNNING \<and> allow_work_stealing t s)"
proof (induction ths arbitrary: taken s)
  case (Cons th ths)
  show ?case
  proof (cases "th_state s th = RUNNING \<or> \<not> allow_work_stealing th s")
    case True
    then show ?thesis using Cons.IH [OF Cons.prems(1-4)] Cons.prems(5,6) by auto
  next
    case False
    note I = Cons.prems(1)
    have m: "th \<in> set (runq s u)" "th \<notin> set taken" using Cons.prems(6) by auto
    then have th: "th \<in> threads s" "vcpu_of s th = u" "th_state s th = READY"
      using inv_runq [OF I, of th u] Cons.prems(2) False by auto
    let ?s1 = "ws_take v th s"
    have "sched_inv (stealing v u (taken @ [th]) ?s1)"
      by (rule sched_inv_frame [OF inv_steal [OF I, of th u v]])
        (use th Cons.prems(2,3) remove1_filter_snoc [OF Cons.prems(4), of th taken] in
          \<open>auto simp: ws_take_def Let_def\<close>)
    moreover have "runq ?s1 = runq s" "vcpus ?s1 = vcpus s" "th_state ?s1 = th_state s"
      and aw: "allow_work_stealing t ?s1 = allow_work_stealing t s" for t
      by (simp_all add: ws_take_def Let_def allow_work_stealing_def)
    moreover have "set ths \<subseteq> set (runq s u) - set (taken @ [th])" using Cons.prems(5,6) by auto
    ultimately obtain s' T where "ws_scan_rest v True ths ?s1 = (s', T)"
      "sched_inv (stealing v u ((taken @ [th]) @ T) s')" "runq s' = runq s" "set T \<subseteq> set ths"
      "\<forall>t\<in>set T. th_state s t \<noteq> RUNNING \<and> allow_work_stealing t s"
      using Cons.IH [of "taken @ [th]" ?s1] Cons.prems(2-5) by auto
    then show ?thesis using False by auto
  qed
qed auto

lemma ws_scan_runq_ok:
  assumes I: "sched_inv s" and v: "v \<noteq> u" "v \<in> vcpus s"
    and i: "idle_worker s u \<in> set (runq s u)" "\<not> allow_work_stealing (idle_worker s u) s"
  shows "\<exists>s' T. ws_scan_runq v u True s = Some (s', T) \<and> sched_inv (rq_insert_list_before v T s') \<and>
    set T \<subseteq> set (runq s u) \<and> (\<forall>t\<in>set T. th_state s t \<noteq> RUNNING \<and> allow_work_stealing t s)"
proof -
  note g = ring_from_mem [OF i(1)]
  have d: "distinct (runq s u)" by (rule inv_distinct_runq [OF I])
  obtain rest where rest: "ring_from (idle_worker s u) (runq s u) = idle_worker s u # rest"
    using g(2,3) by (cases "ring_from (idle_worker s u) (runq s u)") auto
  have dr: "distinct rest" "set rest \<subseteq> set (runq s u)" using g(1,4) d rest by auto
  have "stealing v u [] s = s" by (simp add: stealing_def)
  then obtain s' T where s': "ws_scan_rest v True rest s = (s', T)" "sched_inv (stealing v u T s')"
    "runq s' = runq s" "set T \<subseteq> set rest" "\<forall>t\<in>set T. th_state s t \<noteq> RUNNING \<and> allow_work_stealing t s"
    using ws_scan_rest_ok [of v u "[]" s rest] I v d dr by auto
  have "rq_insert_list_before v T (s'\<lparr>runq := (runq s')(u := filter (\<lambda>t. t \<notin> set T) (runq s' u))\<rparr>) =
    stealing v u T s'" using v(1) by (simp add: rq_insert_list_before_def stealing_def)
  then show ?thesis using s' rest i(2) dr(2) by (auto simp: ws_scan_runq_def ws_scan_q_def)
qed

subsection \<open>A new vCPU\<close>

lemma inv_new_vcpu:
  assumes I: "sched_inv s" and t: "t \<notin> threads s" and v: "v \<notin> vcpus s" and w: "waiters s (Cond t) = []"
  shows "sched_inv (s\<lparr>vcpus := insert v (vcpus s), threads := insert t (threads s), vcpu_of := (vcpu_of s)(t := v),
    th_state := (th_state s)(t := RUNNING), th_idx := (th_idx s)(t := -1), waitq_of := (waitq_of s)(t := None),
    waiters := (waiters s)(Cond t := []), runq := (runq s)(v := [t]), nthreads := (nthreads s)(v := 1)\<rparr>)"
    (is "sched_inv ?s")
proof (rule sched_inv_relocate_gen [OF I, where x = t and v = v])
  have nv: "x \<in> threads s \<Longrightarrow> vcpu_of s x \<noteq> v" for x using inv_vcpus [OF I, of x] v by auto
  have rv: "runq s v = []" using inv_runq [OF I, of _ v] nv by (metis list.set_intros(1) neq_Nil_conv)
  have n: "t \<notin> set (runq s u)" "t \<notin> set (standbyq s u)" "t \<notin> set (sleepq s u)" for u
    using inv_runq [OF I, of t u] inv_standby [OF I, of t u] inv_sleepq [OF I, of t u] t by auto
  have sv: "x \<notin> set (sleepq s v)" for x using inv_sleepq [OF I, of x v] nv by auto
  have nw: "t \<notin> set (waiters s x)" for x using inv_waiters [OF I, of t x] t by simp
  show "vcpus s \<subseteq> vcpus ?s" by auto
  show "x \<in> set (runq ?s u) \<longleftrightarrow> x \<in> set (runq s u)" if "x \<noteq> t" for x u using that rv by simp
  show "t \<in> set (runq ?s u) \<longleftrightarrow> vcpu_of ?s t = u \<and> runnable_state (th_state ?s t)" for u
    using n(1) [of u] by (auto simp: runnable_state_def)
  show "x \<in> set (waiters ?s y) \<longleftrightarrow> x \<in> set (waiters s y)" for x y using w by simp
  show "t \<in> set (waiters ?s y) \<longleftrightarrow> waitq_of ?s t = Some y" for y using nw [of y] by simp
  show "runq ?s u \<noteq> []" if "u \<in> vcpus ?s" for u using inv_nonempty [OF I, of u] that by auto
  show "distinct (runq ?s u)" for u using inv_distinct_runq [OF I, of u] by simp
  show "th_state ?s x = RUNNING \<longleftrightarrow> x = hd (runq ?s u)" if x: "x \<in> set (runq ?s u)" for x u
  proof (cases "u = v")
    case False
    then have "x \<in> set (runq s u)" "x \<noteq> t" using x n(1) [of u] by auto
    then show ?thesis using False inv_running [OF I, of x u] by simp
  qed (use x in simp)
  have "sleepq s v = []" using sv by (metis list.set_intros(1) neq_Nil_conv)
  then show "sq_fine (ts_wakeup ?s) (th_idx ?s) (sleepq ?s v)" by (simp add: sq_fine_def heap_def)
  show "t \<notin> set (sleepq s u)" for u by (rule n)
  show "t \<in> set (sleepq ?s v) \<Longrightarrow> vcpu_of ?s t = v \<and> th_state ?s t \<in> {SLEEPING, STANDBY}" using sv by simp
  show "t \<in> set (standbyq ?s u) \<longleftrightarrow> vcpu_of ?s t = u \<and> th_state ?s t = STANDBY" for u using n(2) by simp
  show "distinct (standbyq ?s u)" for u using inv_distinct_standbyq [OF I] by simp
  show "distinct (waiters ?s y)" for y using inv_distinct_waiters [OF I] by simp
  have "nthreads s v = 0" using inv_count [OF I, of v] nv by (auto simp: card_eq_0_iff)
  then show "nthreads ?s u = nthreads s u + of_bool (vcpu_of ?s t = u \<and> th_state ?s t \<noteq> DONE)
    - of_bool (t \<in> threads s \<and> vcpu_of s t = u \<and> th_state s t \<noteq> DONE)" for u using t by simp
qed simp_all


lemma vcpu_init_ok:
  assumes I: "sched_inv s" and v: "v \<notin> vcpus s" and t: "th \<notin> threads s" "idler \<notin> threads s" "th \<noteq> idler"
    and w: "waiters s (Cond th) = []" "waiters s (Cond idler) = []"
    and i: "vcpu_init flags v th idler clk s = Some (s', r)"
  shows "sched_inv s'"
proof -
  have rv: "runq s v = []"
    using inv_runq [OF I, of "hd (runq s v)" v] inv_vcpus [OF I] v by (cases "runq s v") auto
  define s1 where "s1 = s\<lparr>vcpus := insert v (vcpus s), vcpu_flags := (vcpu_flags s)(v := ucast flags),
                    threads := insert th (threads s), vcpu_of := (vcpu_of s)(th := v),
                    th_state := (th_state s)(th := RUNNING), th_idx := (th_idx s)(th := -1),
                    waitq_of := (waitq_of s)(th := None), error_number := (error_number s)(th := 0),
                    th_flags := (th_flags s)(th := 0), waiters := (waiters s)(Cond th := []),
                    runq := (runq s)(v := [th]), nthreads := (nthreads s)(v := 1)\<rparr>"
  have "sched_inv s1"
    by (rule sched_inv_frame [OF inv_new_vcpu [OF I t(1) v w(1)]]) (simp_all add: s1_def)
  then have "sched_inv (thread_create v idler 0 s1)"
    by (rule inv_create) (use t w in \<open>auto simp: s1_def\<close>)
  then have "sched_inv ((thread_enable_join idler True
      ((thread_create v idler 0 s1)\<lparr>idle_worker := (idle_worker (thread_create v idler 0 s1))(v := idler)\<rparr>))\<lparr>now := clk\<rparr>)"
    by (rule sched_inv_frame) (simp_all add: thread_enable_join_def set_joinable_def)
  then show ?thesis
    using i I rv unfolding vcpu_init_def by (simp add: Let_def s1_def split: if_splits)
qed

text \<open>Going to sleep on any path: an expired timeout only yields.\<close>

lemma thread_usleep_waitq_ok:
  assumes I: "sched_inv s" and r: "runq s v = c # to # rest"
  shows "\<exists>s'. thread_usleep_waitq v tmo w clk s = Some s' \<and> sched_inv s'"
proof (cases "expired (now s) tmo")
  case True
  then show ?thesis using thread_yield_ok [OF I r, of clk] by (auto simp: thread_usleep_waitq_def)
next
  case False
  obtain s1 where s1: "prepare_usleep v tmo w clk s = Some (s1, c, to)" "sched_inv s1" "runq s1 v = to # rest"
    "vcpu_of s1 = vcpu_of s" using prepare_usleep_ok [OF I r, of tmo w clk] by blast
  have "vcpu_of s1 c = v" using s1(4) inv_current(2) [OF I r] by simp
  with False s1 show ?thesis
    using prepare_switch_ok [OF s1(2,3), of c] inv_switch_count [OF s1(2)]
    by (simp add: thread_usleep_waitq_def switch_to_def)
qed


subsection \<open>The steps of the scheduler\<close>

text \<open>
  A step is one operation performed by the thread that runs on some vCPU (or, for an interrupt,
  by a thread outside photon).  New threads and vCPUs get addresses that are not in use.
  A vCPU steals from run queues whose idle worker must not be stolen.
\<close>

inductive sched_step :: "sched \<Rightarrow> sched \<Rightarrow> bool" where
  Init: "v \<notin> vcpus s \<Longrightarrow> th \<notin> threads s \<Longrightarrow> idler \<notin> threads s \<Longrightarrow> th \<noteq> idler \<Longrightarrow>
    waiters s (Cond th) = [] \<Longrightarrow> waiters s (Cond idler) = [] \<Longrightarrow>
    vcpu_init flags v th idler clk s = Some (s', r) \<Longrightarrow> sched_step s s'"
| Create: "v \<in> vcpus s \<Longrightarrow> t \<notin> threads s \<Longrightarrow> waiters s (Cond t) = [] \<Longrightarrow>
    sched_step s (thread_create v t flags s)"
| Yield: "2 \<le> length (runq s v) \<Longrightarrow> thread_yield v clk s = Some s' \<Longrightarrow> sched_step s s'"
| Yield_to: "2 \<le> length (runq s v) \<Longrightarrow> t \<in> threads s \<Longrightarrow> clks \<noteq> [] \<Longrightarrow>
    thread_yield_to v (Some t) clks clk s = Some (s', oc) \<Longrightarrow> sched_step s s'"
| Sleep: "2 \<le> length (runq s v) \<Longrightarrow> thread_usleep_waitq v tmo w clk s = Some s' \<Longrightarrow> sched_step s s'"
| Resumed: "v \<in> vcpus s \<Longrightarrow> usleep_resumed (current v s) s = Some (s', r) \<Longrightarrow> sched_step s s'"
| Interrupt: "\<forall>x. rq = Some x \<longrightarrow> x \<in> vcpus s \<Longrightarrow> t \<in> threads s \<Longrightarrow>
    thread_interrupt rq t e s = Some s' \<Longrightarrow> sched_step s s'"
| Notify: "\<forall>x. rq = Some x \<longrightarrow> x \<in> vcpus s \<Longrightarrow> resume_one rq w e s = Some (s', h) \<Longrightarrow> sched_step s s'"
| Resume: "v \<in> vcpus s \<Longrightarrow> resume_threads v clk s = Some (s', n) \<Longrightarrow> sched_step s s'"
| Die: "2 \<le> length (runq s v) \<Longrightarrow> die v s = Some s' \<Longrightarrow> sched_step s s'"
| Join: "2 \<le> length (runq s v) \<Longrightarrow> thread_join v t clk s = Some (s', b) \<Longrightarrow> sched_step s s'"
| Migrate: "2 \<le> length (runq s v) \<Longrightarrow> t \<in> threads s \<Longrightarrow> w \<in> vcpus s \<Longrightarrow>
    thread_migrate v (Some t) (Some w) s = Some (s', oc) \<Longrightarrow> sched_step s s'"
| Steal: "v \<in> vcpus s \<Longrightarrow> v \<noteq> u \<Longrightarrow> idle_worker s u \<in> set (runq s u) \<Longrightarrow> \<not> allow_work_stealing (idle_worker s u) s \<Longrightarrow>
    ws_scan_runq v u True s = Some (s', T) \<Longrightarrow> sched_step s (rq_insert_list_before v T s')"

lemma runq_split2: "2 \<le> length xs \<Longrightarrow> \<exists>c to rest. xs = c # to # rest"
  by (cases xs; cases "tl xs") auto

lemma join_ok:
  assumes I: "sched_inv s" and r: "runq s v = c # to # rest" and j: "thread_join v t clk s = Some (s', b)"
  shows "sched_inv s'"
proof (cases "th_state s t = DONE")
  case True
  then show ?thesis using j inv_dispose [OF I True] by (auto simp: thread_join_def split: if_splits)
next
  case False
  obtain s1 where s1: "prepare_usleep v never (Some (Cond t)) clk s = Some (s1, c, to)" "sched_inv s1"
    "runq s1 v = to # rest" "vcpu_of s1 = vcpu_of s" using prepare_usleep_ok [OF I r] by blast
  have "vcpu_of s1 c = v" using s1(4) inv_current(2) [OF I r] by simp
  then show ?thesis
    using j False s1 prepare_switch_ok [OF s1(2,3), of c] inv_switch_count [OF s1(2)]
    by (auto simp: thread_join_def thread_usleep_defer_waitq_def switch_to_def split: if_splits)
qed

lemma sched_step_inv: "sched_step s s' \<Longrightarrow> sched_inv s \<Longrightarrow> sched_inv s'"
proof (induction rule: sched_step.induct)
  case (Yield s v clk s')
  then show ?case using runq_split2 [OF Yield(1)] thread_yield_ok [of s v _ _ _ clk] by auto
next
  case (Yield_to s v t clks clk s' oc)
  then obtain c to rest where "runq s v = c # to # rest" using runq_split2 by blast
  then show ?case using thread_yield_to_ok [of s v c to rest "Some t" clks clk] Yield_to by auto
next
  case (Sleep s v tmo w clk s')
  then show ?case using runq_split2 [OF Sleep(1)] thread_usleep_waitq_ok [of s v _ _ _ tmo w clk] by auto
next
  case (Resumed v s s' r)
  then show ?case
    by (auto simp: usleep_resumed_def set_error_number_def inv_error_number split: if_splits)
next
  case (Interrupt rq s t e s')
  then show ?case using thread_interrupt_ok [of s t rq e] by auto
next
  case (Notify rq s w e s' h)
  then show ?case using resume_one_ok [of s rq w _ _ e]
    by (cases "waiters s w") (auto simp: resume_one_def)
next
  case (Resume v s clk s' n)
  then show ?case using resume_threads_ok [of s v clk] by auto
next
  case (Die s v s')
  then show ?case using runq_split2 [OF Die(1)] die_ok [of s v] by fastforce
next
  case (Join s v t clk s' b)
  then show ?case using runq_split2 [OF Join(1)] join_ok [of s v] by blast
next
  case (Migrate s v t w s' oc)
  then obtain c to rest where "runq s v = c # to # rest" using runq_split2 by blast
  then show ?case using thread_migrate_ok [of s v c to rest "Some t" "Some w"] Migrate by auto
next
  case (Steal v s u s' T)
  then show ?case using ws_scan_runq_ok [of s v u] by auto
qed (auto intro: vcpu_init_ok inv_create)

text \<open>Before the first \<open>vcpu_init\<close> there are no threads and no vCPUs.\<close>

definition sched0 :: sched where
  "sched0 = \<lparr>threads = {}, vcpu_of = \<lambda>_. 0, error_number = \<lambda>_. 0, waitq_of = \<lambda>_. None, th_flags = \<lambda>_. 0,
     th_state = \<lambda>_. DONE, ts_wakeup = \<lambda>_. 0, th_idx = \<lambda>_. -1, vcpus = {}, runq = \<lambda>_. [], sleepq = \<lambda>_. [],
     standbyq = \<lambda>_. [], nthreads = \<lambda>_. 0, idle_worker = \<lambda>_. 0, vcpu_flags = \<lambda>_. 0, switch_count = \<lambda>_. 0,
     waiters = \<lambda>_. [], now = 0\<rparr>"

abbreviation sched_reachable :: "sched \<Rightarrow> bool" where
  "sched_reachable s \<equiv> sched_step\<^sup>*\<^sup>* sched0 s"

lemma sched0_inv: "sched_inv sched0"
  by (simp add: sched0_def sched_inv_def queues_inv_def running_inv_def distinct_inv_def sleep_inv_def
      count_inv_def sq_inv_def pos_def sq_view_def heap_def)

lemma reachable_inv: "sched_reachable s \<Longrightarrow> sched_inv s"
  by (induction rule: rtranclp_induct) (auto intro: sched0_inv sched_step_inv)

subsection \<open>A concrete run, for the witnesses\<close>

text \<open>
  vCPU 0 is initialised with the main thread 1 and the idle worker 2, creates thread 3, and the main
  thread goes to sleep until time 50.
\<close>

definition demo1 :: sched where
  "demo1 = fst (the (vcpu_init 3 0 1 2 0 sched0))"

definition demo2 :: sched where
  "demo2 = thread_create 0 3 0 demo1"

definition demo3 :: sched where
  "demo3 = the (thread_usleep_waitq 0 50 None 10 demo2)"

lemmas demo_eval = sched0_def vcpu_init_def thread_create_def rq_insert_tail_def thread_enable_join_def set_joinable_def
  set_bit_flag_def thread_usleep_waitq_def prepare_usleep_def remove_current_def switch_to_def prepare_switch_def
  expired_def Let_def sleepq_push_def sq_put_def sq_view_def sq_push_def VCPU_ENABLE_ACTIVE_WORK_STEALING_def
  VCPU_ENABLE_PASSIVE_WORK_STEALING_def THREAD_JOINABLE_def

lemma demo1_step: "vcpu_init 3 0 1 2 0 sched0 = Some (demo1, None)"
  by (simp add: demo1_def demo_eval)

lemma demo1_state: "threads demo1 = {1, 2}" "vcpus demo1 = {0}" "waiters demo1 = (\<lambda>_. [])" "runq demo1 0 = [1, 2]"
  by (auto simp: demo1_def demo_eval)

lemma demo3_step: "thread_usleep_waitq 0 50 None 10 demo2 = Some demo3"
  by (simp add: demo3_def demo2_def demo1_def demo_eval)

lemma demo3_state: "threads demo3 = {1, 2, 3}" "vcpus demo3 = {0}" "runq demo3 0 = [2, 3]" "sleepq demo3 0 = [1]"
  "standbyq demo3 0 = []" "ts_wakeup demo3 1 = 50" "th_state demo3 1 = SLEEPING" "vcpu_of demo3 1 = 0"
  "waitq_of demo3 1 = None"
  by (auto simp: demo3_def demo2_def demo1_def demo_eval up_def up_loop.simps [of _ _ 0])

lemma demo_reachable: "sched_reachable demo1" "sched_reachable demo2" "sched_reachable demo3"
proof -
  have "sched_step sched0 demo1" by (rule Init [OF _ _ _ _ _ _ demo1_step]) (simp_all add: sched0_def)
  then show r1: "sched_reachable demo1" by simp
  have "sched_step demo1 demo2" unfolding demo2_def by (rule Create) (simp_all add: demo1_state)
  with r1 show r2: "sched_reachable demo2" by (rule rtranclp.rtrancl_into_rtrancl)
  have "sched_step demo2 demo3"
    by (rule Sleep [OF _ demo3_step]) (simp add: demo2_def thread_create_def rq_insert_tail_def demo1_state Let_def)
  with r2 show "sched_reachable demo3" by (rule rtranclp.rtrancl_into_rtrancl)
qed

subsection \<open>Properties\<close>





text \<open>
  C4: \<open>resume_threads\<close> appends to the run queue of its vCPU exactly the threads that other vCPUs woke
  and the sleepers whose wake-up time has come, and returns their number; the stand-by queue is
  empty afterwards and the sleep queue keeps exactly the sleepers whose time is still to come.
\<close>

theorem resume_threads_wakes_due:
  assumes "sched_reachable s"
  shows "\<exists>s' L. resume_threads v clk s = Some (s', length L) \<and> runq s' v = runq s v @ L \<and> standbyq s' v = [] \<and>
    set L = set (standbyq s v) \<union> {t \<in> set (sleepq s v) - set (standbyq s v). ts_wakeup s t \<le> clk} \<and>
    set (sleepq s' v) = {t \<in> set (sleepq s v) - set (standbyq s v). clk < ts_wakeup s t}"
  using resume_threads_ok [OF reachable_inv [OF assms], of v clk] by blast

theorem resume_threads_wakes_due_witness:
  "\<exists>s' L. resume_threads 0 60 demo3 = Some (s', length L) \<and> runq s' 0 = [2, 3] @ L \<and> standbyq s' 0 = [] \<and>
    set L = {1} \<and> sleepq s' 0 = []"
proof -
  obtain s' L where r: "resume_threads 0 60 demo3 = Some (s', length L)" "runq s' 0 = [2, 3] @ L" "standbyq s' 0 = []"
    "set L = {} \<union> {t \<in> {1} - {}. ts_wakeup demo3 t \<le> 60}" "set (sleepq s' 0) = {t \<in> {1} - {}. 60 < ts_wakeup demo3 t}"
    using resume_threads_wakes_due [OF demo_reachable(3), of 0 60] unfolding demo3_state(3,4,5) list.set by blast
  have "set L = {1}" unfolding r(4) using demo3_state(6) by auto
  moreover have "set (sleepq s' 0) = {}" unfolding r(5) using demo3_state(6) by auto
  ultimately show ?thesis using r(1,2,3) by auto
qed

text \<open>
  C3: A sleeping thread that nobody interrupts is runnable after the first \<open>resume_threads\<close> of its vCPU
  at or after its wake-up time, and not before; \<open>thread_usleep\<close> sets that time to the requested one.
\<close>

theorem sleeper_wakes_when_due:
  assumes "sched_reachable s" "runq s v = c # to # rest" "\<not> expired (now s) tmo"
  shows "\<exists>s1 s2 n. thread_usleep_waitq v tmo w clk s = Some s1 \<and> th_state s1 c = SLEEPING \<and> runq s1 v = to # rest \<and>
    resume_threads v clk' s1 = Some (s2, n) \<and> (c \<in> set (runq s2 v) \<longleftrightarrow> tmo \<le> clk')"
proof -
  note I = reachable_inv [OF assms(1)]
  note c = inv_current [OF I assms(2)]
  obtain s0 where s0: "prepare_usleep v tmo w clk s = Some (s0, c, to)" "sched_inv s0" "runq s0 v = to # rest"
    "th_state s0 = (th_state s)(c := SLEEPING, to := RUNNING)" "vcpu_of s0 = vcpu_of s"
    "ts_wakeup s0 = (ts_wakeup s)(c := tmo)" "threads s0 = threads s"
    using prepare_usleep_ok [OF I assms(2), of tmo w clk] by blast
  let ?s1 = "s0\<lparr>switch_count := (switch_count s0)(v := switch_count s0 v + 1)\<rparr>"
  have I1: "sched_inv ?s1" by (rule inv_switch_count [OF s0(2)])
  have ct: "c \<noteq> to" using inv_distinct_runq [OF I, of v] assms(2) by auto
  have u: "thread_usleep_waitq v tmo w clk s = Some ?s1"
    using assms(3) s0 c(2) prepare_switch_ok [OF s0(2,3), of c] by (simp add: thread_usleep_waitq_def switch_to_def)
  have "c \<in> set (sleepq ?s1 v)" using inv_sleeping [OF I1, of c] s0 c ct by simp
  moreover have "c \<notin> set (standbyq ?s1 v)" "c \<notin> set (to # rest)"
    using inv_standby [OF I1, of c v] s0 ct inv_distinct_runq [OF I, of v] assms(2) by auto
  moreover obtain s2 L where "resume_threads v clk' ?s1 = Some (s2, length L)" "runq s2 v = runq ?s1 v @ L"
    "set L = set (standbyq ?s1 v) \<union> {t \<in> set (sleepq ?s1 v) - set (standbyq ?s1 v). ts_wakeup ?s1 t \<le> clk'}"
    using resume_threads_ok [OF I1, of v clk'] by blast
  ultimately have "resume_threads v clk' ?s1 = Some (s2, length L)" "c \<in> set (runq s2 v) \<longleftrightarrow> tmo \<le> clk'"
    using s0(3,6) by auto
  then show ?thesis using u s0(3,4) ct by (intro exI [of _ ?s1] exI [of _ s2] exI [of _ "length L"]) simp
qed

theorem sleeper_wakes_when_due_witness:
  "\<exists>s1 s2 n. thread_usleep_waitq 0 90 None 20 demo3 = Some s1 \<and> th_state s1 2 = SLEEPING \<and> runq s1 0 = [3] \<and>
    resume_threads 0 95 s1 = Some (s2, n) \<and> 2 \<in> set (runq s2 0)"
proof -
  have "\<not> expired (now demo3) 90" by (simp add: demo3_def demo2_def demo1_def demo_eval)
  then show ?thesis
    using sleeper_wakes_when_due [OF demo_reachable(3) demo3_state(3), of 90 None 20 95] by simp
qed

text \<open>
  C5: Interrupting a sleeping thread takes it off its wait queue and makes it runnable, in the run queue
  when the interrupter runs on the same vCPU and in the stand-by queue of its vCPU otherwise; when
  it runs again, its sleep returns the error number of the interrupt.
\<close>

theorem interrupt_wakes_sleeper:
  assumes "sched_reachable s" "t \<in> threads s" "th_state s t = SLEEPING" "\<forall>x. rq = Some x \<longrightarrow> x \<in> vcpus s" "e \<noteq> 0"
  shows "\<exists>s' s''. thread_interrupt rq t e s = Some s' \<and>
    (if rq = Some (vcpu_of s t) then runq s' (vcpu_of s t) = runq s (vcpu_of s t) @ [t] \<and> th_state s' t = READY
     else standbyq s' (vcpu_of s t) = standbyq s (vcpu_of s t) @ [t] \<and> th_state s' t = STANDBY) \<and>
    (\<forall>w. t \<notin> set (waiters s' w)) \<and> usleep_resumed t s' = Some (s'', Some e)"
proof -
  note I = reachable_inv [OF assms(1)]
  have w: "t \<notin> set (waiters_without t s w)" for w
    using inv_waiters [OF I, of t w] inv_distinct_waiters [OF I, of w] by (auto simp: waiters_without_def)
  have res: "\<exists>s''. usleep_resumed t s' = Some (s'', Some e)" if "waitq_of s' t = None" "error_number s' t = e" for s'
    using that assms(5) by (simp add: usleep_resumed_def set_error_number_def)
  show ?thesis
  proof (cases "rq = Some (vcpu_of s t)")
    case True
    then show ?thesis
      using interrupt_local_ok [OF I assms(2,3) refl, of e] w res assms(3) by (fastforce simp: thread_interrupt_def)
  next
    case False
    then show ?thesis
      using interrupt_remote_ok [OF I assms(2,3) refl False, of e] w res assms(3,4) by (fastforce simp: thread_interrupt_def)
  qed
qed

theorem interrupt_wakes_sleeper_witness:
  "\<exists>s' s''. thread_interrupt (Some 0) 1 4 demo3 = Some s' \<and> runq s' 0 = [2, 3, 1] \<and>
    usleep_resumed 1 s' = Some (s'', Some 4)"
  using interrupt_wakes_sleeper [OF demo_reachable(3), of 1 "Some 0" 4] by (auto simp: demo3_state simp del: One_nat_def)

lemma ws_search_spins:
  assumes "ws_search v nxt locked u s = Some r" "u \<noteq> v"
  shows "vcpu_flags s u AND VCPU_ENABLE_PASSIVE_WORK_STEALING \<noteq> 0"
proof -
  have "u \<noteq> v \<longrightarrow> vcpu_flags s u AND VCPU_ENABLE_PASSIVE_WORK_STEALING \<noteq> 0"
    by (rule ws_search.raw_induct [OF _ assms(1), where
        P = "\<lambda>v nxt locked u s r. u \<noteq> v \<longrightarrow> vcpu_flags s u AND VCPU_ENABLE_PASSIVE_WORK_STEALING \<noteq> 0"])
      (auto split: if_splits)
  then show ?thesis using assms(2) by simp
qed

text \<open>
  C36: Called by the idle worker, the search of \<open>try_work_stealing\<close> skips a vCPU that does not allow passive stealing without moving on
  to the next one: once it meets such a vCPU it never returns.
\<close>

theorem try_work_stealing_spins:
  assumes "current v s = idle_worker s v" "vcpu_flags s v AND VCPU_ENABLE_ACTIVE_WORK_STEALING \<noteq> 0" "nxt v \<noteq> v"
    "vcpu_flags s (nxt v) AND VCPU_ENABLE_PASSIVE_WORK_STEALING = 0"
  shows "try_work_stealing v nxt locked s = None"
  using ws_search_spins [of v nxt locked "nxt v" s] assms
  by (cases "ws_search v nxt locked (nxt v) s") (auto simp: try_work_stealing_def)

text \<open>The run above with a second vCPU, which allows no stealing.\<close>

definition demo4 :: sched where
  "demo4 = fst (the (vcpu_init 0 1 5 6 0 demo3))"

theorem try_work_stealing_spins_witness:
  "try_work_stealing 0 (\<lambda>v. 1 - v) (\<lambda>_. True) demo4 = None"
  by (rule try_work_stealing_spins)
    (auto simp: demo4_def demo3_def demo2_def demo1_def demo_eval current_def)

lemma ws_take_allow [simp]: "allow_work_stealing t (ws_take v th (s\<lparr>standbyq := q\<rparr>)) = allow_work_stealing t s"
  by (simp add: ws_take_def allow_work_stealing_def Let_def)

lemma ws_pop_standby_drains:
  "\<forall>t\<in>set ths. allow_work_stealing t s \<Longrightarrow> ws_pop_standby v u ths s = None"
proof (induction ths arbitrary: s)
  case (Cons th ths)
  then show ?case
    using Cons.IH [of "ws_take v th (s\<lparr>standbyq := (standbyq s)(u := ths)\<rparr>)"]
    by (cases ths) (simp_all add: Let_def)
qed simp

text \<open>
  When the idle worker of one vCPU scans the stand-by queue of another and every thread there may be
  stolen, the scan reads the first thread of the queue it has just emptied.
\<close>

theorem ws_scan_standbyq_drained:
  assumes "standbyq s u \<noteq> []" "\<forall>t\<in>set (standbyq s u). allow_work_stealing t s"
  shows "ws_scan_standbyq v u s = None"
  using assms ws_pop_standby_drains [OF assms(2), of v u]
  by (auto simp: ws_scan_standbyq_def split: list.splits)

theorem ws_scan_standbyq_drained_witness:
  "ws_scan_standbyq 0 1 (demo4\<lparr>standbyq := (\<lambda>_. [7]), th_flags := (\<lambda>_. THREAD_ENABLE_WORK_STEALING)\<rparr>) = None"
  by (rule ws_scan_standbyq_drained)
    (simp_all add: allow_work_stealing_def THREAD_ENABLE_WORK_STEALING_def THREAD_PAUSE_WORK_STEALING_def is_bit_def)

end
