(* ===== verification/Sync.thy ===== *)
theory Sync
  imports Scheduler_Props
begin

text \<open>
  The blocking primitives of thread.h and thread.cpp on top of the scheduler: wait queues, mutex,
  recursive mutex, condition variable, semaphore and reader-writer lock.  A primitive has its own
  record; its waiting threads are the wait queue of the scheduler that the record names.  The spin
  locks that protect a primitive are held for the duration of a step.  A blocking call is split at
  its context switch, as in theory Scheduler.
\<close>

subsection \<open>Wait queues\<close>

definition waitq_translate_errno :: "ret \<Rightarrow> ret" where
  "waitq_translate_errno r =
     (case r of None \<Rightarrow> Some ETIMEDOUT | Some e \<Rightarrow> if e = -1 then None else Some e)"

definition waitq_wait :: "vid \<Rightarrow> timeout \<Rightarrow> wid \<Rightarrow> u64 \<Rightarrow> sched \<Rightarrow> sched option" where
  "waitq_wait v tmo w clk s = thread_usleep_waitq v tmo (Some w) clk s"

definition waitq_resumed :: "tid \<Rightarrow> sched \<Rightarrow> (sched \<times> ret) option" where
  "waitq_resumed th s = map_option (\<lambda>(s', r). (s', waitq_translate_errno r)) (usleep_resumed th s)"

partial_function (option) resume_all :: "vid option \<Rightarrow> wid \<Rightarrow> int \<Rightarrow> nat \<Rightarrow> sched \<Rightarrow> (sched \<times> nat) option" where
  "resume_all rq w e r s =
     Option.bind (resume_one rq w e s) (\<lambda>(s', h). if h = None then Some (s', r) else resume_all rq w e (r + 1) s')"

subsection \<open>Mutex\<close>

record mutex =
  owner :: "tid option"
  mq :: wid

definition mutex_try_lock :: "tid \<Rightarrow> mutex \<Rightarrow> mutex \<times> bool" where
  "mutex_try_lock cur m = (if owner m = None then (m\<lparr>owner := Some cur\<rparr>, True) else (m, False))"

text \<open>
  \<open>mutex::lock\<close>: after the first attempt, every retry first yields (\<open>mutex_lock_retry\<close> is what
  happens when the yield returns); then it queues up.
\<close>

definition mutex_lock_retry :: "tid \<Rightarrow> mutex \<Rightarrow> sched \<Rightarrow> mutex \<times> ret option" where
  "mutex_lock_retry cur m s =
     (if thread_yield_resumed cur s \<noteq> 0 then (m, Some (Some (thread_yield_resumed cur s)))
      else case mutex_try_lock cur m of (m', True) \<Rightarrow> (m', Some None) | (m', False) \<Rightarrow> (m', None))"

definition mutex_lock_slow :: "vid \<Rightarrow> timeout \<Rightarrow> u64 \<Rightarrow> mutex \<Rightarrow> sched \<Rightarrow> (mutex \<times> sched \<times> outcome) option" where
  "mutex_lock_slow v tmo clk m s =
     (case mutex_try_lock (current v s) m of
        (m', True) \<Rightarrow> Some (m', s, Returned None)
      | (m', False) \<Rightarrow>
          (if expired (now s) tmo then Some (m', s, Returned (Some ETIMEDOUT))
           else map_option (\<lambda>s'. (m', s', Switched)) (thread_usleep_defer_waitq v tmo (Some (mq m)) Some clk s)))"

definition mutex_lock_resumed :: "tid \<Rightarrow> sched \<Rightarrow> (sched \<times> ret) option" where
  "mutex_lock_resumed th s = waitq_resumed th s"

definition do_mutex_unlock :: "vid option \<Rightarrow> mutex \<Rightarrow> sched \<Rightarrow> (mutex \<times> sched) option" where
  "do_mutex_unlock rq m s =
     (case waiters s (mq m) of
        [] \<Rightarrow> Some (m\<lparr>owner := None\<rparr>, s)
      | h # _ \<Rightarrow> map_option (\<lambda>s'. (m\<lparr>owner := Some h\<rparr>, s')) (prelocked_thread_interrupt rq h (-1) s))"

definition mutex_unlock :: "vid \<Rightarrow> mutex \<Rightarrow> sched \<Rightarrow> (mutex \<times> sched \<times> ret) option" where
  "mutex_unlock v m s =
     (if owner m \<noteq> Some (current v s) then Some (m, s, Some EINVAL)
      else map_option (\<lambda>(m', s'). (m', s', None)) (do_mutex_unlock (Some v) m s))"

text \<open>The static function that condition variables defer: it asserts that the mutex is locked.\<close>

definition mutex_unlock_deferred :: "vid option \<Rightarrow> mutex \<Rightarrow> sched \<Rightarrow> (mutex \<times> sched) option" where
  "mutex_unlock_deferred rq m s = (if owner m = None then None else do_mutex_unlock rq m s)"

subsection \<open>Recursive mutex\<close>

record rmutex = mutex +
  recursive_count :: int

definition rmutex_try_lock :: "tid \<Rightarrow> rmutex \<Rightarrow> rmutex \<times> bool" where
  "rmutex_try_lock cur m =
     (if owner m = Some cur \<or> owner m = None
      then (m\<lparr>owner := Some cur, recursive_count := recursive_count m + 1\<rparr>, True) else (m, False))"

definition rmutex_lock_resumed :: "tid \<Rightarrow> rmutex \<Rightarrow> sched \<Rightarrow> (rmutex \<times> sched \<times> ret) option" where
  "rmutex_lock_resumed th m s =
     map_option (\<lambda>(s', r). (if r = None then m\<lparr>recursive_count := recursive_count m + 1\<rparr> else m, s', r))
       (mutex_lock_resumed th s)"

definition rmutex_unlock :: "vid \<Rightarrow> rmutex \<Rightarrow> sched \<Rightarrow> (rmutex \<times> sched \<times> ret) option" where
  "rmutex_unlock v m s =
     (if owner m \<noteq> Some (current v s) then Some (m, s, Some EINVAL)
      else (let m1 = m\<lparr>recursive_count := recursive_count m - 1\<rparr>
            in if recursive_count m1 > 0 then Some (m1, s, None)
               else case waiters s (mq m1) of
                      [] \<Rightarrow> Some (m1\<lparr>owner := None\<rparr>, s, None)
                    | h # _ \<Rightarrow> map_option (\<lambda>s'. (m1\<lparr>owner := Some h\<rparr>, s', None))
                                 (prelocked_thread_interrupt (Some v) h (-1) s)))"

subsection \<open>Condition variable\<close>

text \<open>
  \<open>wait\<close> queues up first and unlocks the mutex after the switch; when it is resumed it locks the
  mutex again before it returns.
\<close>

definition cvar_wait :: "vid \<Rightarrow> timeout \<Rightarrow> wid \<Rightarrow> u64 \<Rightarrow> mutex \<Rightarrow> sched \<Rightarrow> (mutex \<times> sched) option" where
  "cvar_wait v tmo q clk m s =
     Option.bind (switch_to (prepare_usleep v tmo (Some q) clk s)) (mutex_unlock_deferred (Some v) m)"

definition cvar_notify_one :: "vid option \<Rightarrow> wid \<Rightarrow> sched \<Rightarrow> (sched \<times> tid option) option" where
  "cvar_notify_one rq q s = resume_one rq q (-1) s"

definition cvar_notify_all :: "vid option \<Rightarrow> wid \<Rightarrow> sched \<Rightarrow> (sched \<times> nat) option" where
  "cvar_notify_all rq q s = resume_all rq q (-1) 0 s"

subsection \<open>Semaphore\<close>

record semaphore =
  m_count :: u64
  m_ooo_resume :: bool
  smq :: wid
  semaphore_count :: "tid \<Rightarrow> u64"

definition try_subtract :: "u64 \<Rightarrow> semaphore \<Rightarrow> semaphore \<times> bool" where
  "try_subtract cnt0 m = (if m_count m < cnt0 then (m, False) else (m\<lparr>m_count := m_count m - cnt0\<rparr>, True))"

text \<open>The first loop of \<open>try_resume\<close>: waiters are woken from the front as long as the count suffices.\<close>

partial_function (option) sem_resume_front :: "vid option \<Rightarrow> semaphore \<Rightarrow> u64 \<Rightarrow> sched \<Rightarrow> (u64 \<times> sched) option" where
  "sem_resume_front rq m cnt s =
     (case waiters s (smq m) of
        [] \<Rightarrow> Some (cnt, s)
      | h # _ \<Rightarrow>
          (if semaphore_count m h > cnt then Some (cnt, s)
           else Option.bind (prelocked_thread_interrupt rq h (-1) s)
                  (sem_resume_front rq m (cnt - semaphore_count m h))))"

text \<open>
  The second loop scans the waiters after the first with the lock of the queue held.  Waking a
  thread takes that lock again, so the first waiter that the count would satisfy blocks the scan for
  ever (\<open>None\<close>).
\<close>

definition sem_scan_rest :: "semaphore \<Rightarrow> u64 \<Rightarrow> sched \<Rightarrow> (u64 \<times> sched) option" where
  "sem_scan_rest m cnt s =
     (if \<exists>th\<in>set (tl (waiters s (smq m))). semaphore_count m th \<le> cnt then None else Some (cnt, s))"

definition try_resume :: "vid option \<Rightarrow> semaphore \<Rightarrow> u64 \<Rightarrow> sched \<Rightarrow> sched option" where
  "try_resume rq m cnt s =
     (if cnt = 0 then None
      else Option.bind (sem_resume_front rq m cnt s) (\<lambda>(cnt', s').
        if waiters s' (smq m) = [] \<or> cnt' = 0 \<or> \<not> m_ooo_resume m then Some s'
        else map_option snd (sem_scan_rest m cnt' s')))"

definition sem_signal :: "vid option \<Rightarrow> u64 \<Rightarrow> semaphore \<Rightarrow> sched \<Rightarrow> (semaphore \<times> sched) option" where
  "sem_signal rq cnt0 m s =
     (if cnt0 = 0 then Some (m, s)
      else (let m' = m\<lparr>m_count := m_count m + cnt0\<rparr>
            in map_option (\<lambda>s'. (m', s')) (try_resume rq m' (m_count m') s)))"

text \<open>One round of the loop of \<open>wait_interruptible\<close>: take the count or go to sleep.\<close>

definition sem_wait_round :: "vid \<Rightarrow> u64 \<Rightarrow> timeout \<Rightarrow> u64 \<Rightarrow> semaphore \<Rightarrow> sched \<Rightarrow> (semaphore \<times> sched \<times> outcome) option" where
  "sem_wait_round v cnt0 tmo clk m s =
     (let cur = current v s
      in case try_subtract cnt0 m of
           (m', True) \<Rightarrow> Some (m'\<lparr>semaphore_count := (semaphore_count m')(cur := 0)\<rparr>, s, Returned None)
         | (m', False) \<Rightarrow>
             map_option (\<lambda>s'. (m', s', Switched)) (thread_usleep_defer_waitq v tmo (Some (smq m)) Some clk s))"

definition sem_wait_interruptible :: "vid \<Rightarrow> u64 \<Rightarrow> timeout \<Rightarrow> u64 \<Rightarrow> semaphore \<Rightarrow> sched \<Rightarrow> (semaphore \<times> sched \<times> outcome) option" where
  "sem_wait_interruptible v cnt0 tmo clk m s =
     (if cnt0 = 0 then Some (m, s, Returned None)
      else sem_wait_round v cnt0 tmo clk (m\<lparr>semaphore_count := (semaphore_count m)(current v s := cnt0)\<rparr>) s)"

text \<open>
  When the sleep returns: an interrupted or timed-out waiter passes the count on to the waiters
  behind it and gives up, a woken one tries again.
\<close>

definition sem_wait_resumed :: "vid \<Rightarrow> u64 \<Rightarrow> timeout \<Rightarrow> u64 \<Rightarrow> semaphore \<Rightarrow> sched \<Rightarrow> (semaphore \<times> sched \<times> outcome) option" where
  "sem_wait_resumed v cnt0 tmo clk m s =
     (let cur = current v s
      in Option.bind (waitq_resumed cur s) (\<lambda>(s1, r).
        case r of
          None \<Rightarrow> sem_wait_round v cnt0 tmo clk m s1
        | Some e \<Rightarrow>
            map_option (\<lambda>s2. (m\<lparr>semaphore_count := (semaphore_count m)(cur := 0)\<rparr>, s2, Returned (Some e)))
              (if \<not> m_ooo_resume m \<and> m_count m \<noteq> 0 then try_resume (Some v) m (m_count m) s1 else Some s1)))"

subsection \<open>Reader-writer lock\<close>

definition RLOCK :: u64 where "RLOCK = 0x1000"
definition WLOCK :: u64 where "WLOCK = 0x2000"

record rwlock =
  rw_state :: u64
  rwq :: wid
  rwlock_mark :: "tid \<Rightarrow> u64"

definition rw_op :: "u64 \<Rightarrow> u64" where
  "rw_op mode = (if mode = RLOCK then push_bit 63 1 else -1)"

definition set_mark :: "tid \<Rightarrow> u64 \<Rightarrow> rwlock \<Rightarrow> rwlock" where
  "set_mark cur mode l =
     l\<lparr>rwlock_mark := (rwlock_mark l)(cur := (rwlock_mark l cur AND NOT (RLOCK OR WLOCK)) OR mode)\<rparr>"

definition rw_blocked :: "u64 \<Rightarrow> rwlock \<Rightarrow> bool" where
  "rw_blocked mode l \<longleftrightarrow> rw_op mode AND rw_state l \<noteq> 0"

text \<open>The operand is rotated left by one bit and added to the state.\<close>

definition rw_acquire :: "u64 \<Rightarrow> rwlock \<Rightarrow> rwlock" where
  "rw_acquire mode l = l\<lparr>rw_state := rw_state l + word_rotl 1 (rw_op mode)\<rparr>"

text \<open>
  \<open>rwlock::lock\<close> up to its decision: an unknown mode fails; behind other waiters, or when the state
  is incompatible, the caller waits on the condition variable (\<open>Switched\<close>); otherwise it gets the lock.
\<close>

definition rw_lock :: "tid \<Rightarrow> u64 \<Rightarrow> rwlock \<Rightarrow> sched \<Rightarrow> rwlock \<times> outcome" where
  "rw_lock cur mode l s =
     (if mode \<noteq> RLOCK \<and> mode \<noteq> WLOCK then (l, Returned (Some EINVAL))
      else if waiters s (rwq l) \<noteq> [] \<or> rw_blocked mode l then (set_mark cur mode l, Switched)
      else (rw_acquire mode l, Returned None))"

text \<open>When the wait returns: give up, wait again, or take the lock; the mark is restored when the call ends.\<close>

definition rw_lock_resumed :: "tid \<Rightarrow> u64 \<Rightarrow> u64 \<Rightarrow> ret \<Rightarrow> rwlock \<Rightarrow> rwlock \<times> outcome" where
  "rw_lock_resumed cur mode bkup r l =
     (case r of
        Some e \<Rightarrow> (l\<lparr>rwlock_mark := (rwlock_mark l)(cur := bkup)\<rparr>, Returned (Some e))
      | None \<Rightarrow>
          (if rw_blocked mode l then (l, Switched)
           else ((rw_acquire mode l)\<lparr>rwlock_mark := (rwlock_mark l)(cur := bkup)\<rparr>, Returned None)))"

partial_function (option) rw_notify_readers :: "vid option \<Rightarrow> rwlock \<Rightarrow> sched \<Rightarrow> sched option" where
  "rw_notify_readers rq l s =
     (case waiters s (rwq l) of
        [] \<Rightarrow> Some s
      | h # _ \<Rightarrow>
          (if rwlock_mark l h AND RLOCK = 0 then Some s
           else Option.bind (cvar_notify_one rq (rwq l) s) (\<lambda>(s', _). rw_notify_readers rq l s')))"

definition rw_unlock :: "vid option \<Rightarrow> rwlock \<Rightarrow> sched \<Rightarrow> (rwlock \<times> sched) option" where
  "rw_unlock rq l s =
     (if rw_state l = 0 then None
      else (let l' = l\<lparr>rw_state := (if 0 <s rw_state l then rw_state l - 1 else rw_state l + 1)\<rparr>
            in if rw_state l' \<noteq> 0 then Some (l', s)
               else case waiters s (rwq l) of
                      [] \<Rightarrow> Some (l', s)
                    | h # _ \<Rightarrow>
                        (if rwlock_mark l h AND WLOCK \<noteq> 0
                         then map_option (\<lambda>(s', _). (l', s')) (cvar_notify_one rq (rwq l) s)
                         else map_option (\<lambda>s'. (l', s')) (rw_notify_readers rq l s))))"

subsection \<open>Waking the first waiter\<close>

lemma interrupt_frame:
  assumes "prelocked_thread_interrupt rq h e s = Some s'"
  shows "vcpus s' = vcpus s" "threads s' = threads s" "t \<noteq> h \<Longrightarrow> th_state s' t = th_state s t"
    "t \<noteq> h \<Longrightarrow> waitq_of s' t = waitq_of s t" "t \<noteq> h \<Longrightarrow> error_number s' t = error_number s t"
  using assms
  by (auto simp: prelocked_thread_interrupt_def dequeue_ready_atomic_def move_to_standbyq_atomic_def
      sleepq_pop_def sq_put_def rq_insert_tail_def Let_def split: if_splits option.splits Option.bind_splits)

lemma head_interrupt_ok:
  assumes I: "sched_inv s" and rq: "\<forall>x. rq = Some x \<longrightarrow> x \<in> vcpus s" and w: "waiters s w = h # rest"
  shows "\<exists>s'. prelocked_thread_interrupt rq h e s = Some s' \<and> sched_inv s' \<and> waiters s' w = rest \<and>
    th_state s' h \<in> {READY, STANDBY} \<and> waitq_of s' h = None \<and> error_number s' h = e \<and> (\<forall>x. rq = Some x \<longrightarrow> x \<in> vcpus s')"
proof -
  obtain s' where s': "resume_one rq w e s = Some (s', Some h)" "sched_inv s'"
    "th_state s' h = (if rq = Some (vcpu_of s h) then READY else STANDBY)" "waitq_of s' h = None"
    "error_number s' = (error_number s)(h := e)" "waiters s' w = rest"
    using resume_one_ok [OF I _ w, of rq e] rq by blast
  then have "prelocked_thread_interrupt rq h e s = Some s'" using w by (simp add: resume_one_def split: if_splits)
  then show ?thesis using s' rq interrupt_frame(1) [of rq h e s s'] by auto
qed

text \<open>A thread that was woken with -1 returns 0 from its wait, and an interrupt no longer changes that.\<close>

definition woken :: "tid \<Rightarrow> sched \<Rightarrow> bool" where
  "woken t s \<longleftrightarrow> th_state s t \<in> {READY, STANDBY} \<and> waitq_of s t = None \<and> error_number s t = -1"

lemma woken_returns: "woken t s \<Longrightarrow> \<exists>s'. waitq_resumed t s = Some (s', None)"
  by (simp add: woken_def waitq_resumed_def usleep_resumed_def set_error_number_def waitq_translate_errno_def)

lemma woken_interrupt: "woken t s \<Longrightarrow> thread_interrupt rq t e s = Some s"
  by (auto simp: woken_def thread_interrupt_def)

lemma woken_frame: "prelocked_thread_interrupt rq h e s = Some s' \<Longrightarrow> t \<noteq> h \<Longrightarrow> woken t s \<Longrightarrow> woken t s'"
  by (simp add: woken_def interrupt_frame)

subsection \<open>Waking waiters from the front\<close>

fun sem_fit :: "(tid \<Rightarrow> u64) \<Rightarrow> u64 \<Rightarrow> tid list \<Rightarrow> nat" where
  "sem_fit need cnt [] = 0"
| "sem_fit need cnt (x # xs) = (if need x > cnt then 0 else Suc (sem_fit need (cnt - need x) xs))"

lemma waiter_not_woken: "sched_inv s \<Longrightarrow> t \<in> set (waiters s w) \<Longrightarrow> \<not> woken t s"
  using inv_waiters [of s t w] by (auto simp: woken_def)

lemma sem_resume_front_ok:
  assumes "sched_inv s" "\<forall>x. rq = Some x \<longrightarrow> x \<in> vcpus s" "waiters s (smq m) = xs" "k = sem_fit (semaphore_count m) cnt xs"
  shows "\<exists>cnt' s'. sem_resume_front rq m cnt s = Some (cnt', s') \<and> sched_inv s' \<and> waiters s' (smq m) = drop k xs \<and>
    (\<forall>t\<in>set (take k xs). woken t s') \<and> (\<forall>t. woken t s \<longrightarrow> woken t s')"
  using assms
proof (induction xs arbitrary: s cnt k)
  case Nil
  then show ?case by (subst sem_resume_front.simps) simp
next
  case (Cons h hs)
  show ?case
  proof (cases "semaphore_count m h > cnt")
    case True
    then show ?thesis using Cons.prems by (subst sem_resume_front.simps) simp
  next
    case False
    let ?k = "sem_fit (semaphore_count m) (cnt - semaphore_count m h) hs"
    obtain s1 where s1: "prelocked_thread_interrupt rq h (-1) s = Some s1" "sched_inv s1" "waiters s1 (smq m) = hs"
      "th_state s1 h \<in> {READY, STANDBY}" "waitq_of s1 h = None" "error_number s1 h = -1" "\<forall>x. rq = Some x \<longrightarrow> x \<in> vcpus s1"
      using head_interrupt_ok [OF Cons.prems(1,2,3), of "-1"] by blast
    obtain cnt' s' where s': "sem_resume_front rq m (cnt - semaphore_count m h) s1 = Some (cnt', s')" "sched_inv s'"
      "waiters s' (smq m) = drop ?k hs" "\<forall>t\<in>set (take ?k hs). woken t s'" "\<forall>t. woken t s1 \<longrightarrow> woken t s'"
      using Cons.IH [OF s1(2,7,3) refl] by blast
    have "sem_resume_front rq m cnt s = Some (cnt', s')"
      using False Cons.prems(3) s1(1) s'(1) by (subst sem_resume_front.simps) simp
    moreover have "woken h s'" using s1(4,5,6) s'(5) by (simp add: woken_def)
    moreover have "woken t s'" if "woken t s" for t
      using that s'(5) woken_frame [OF s1(1)] waiter_not_woken [OF Cons.prems(1), of h "smq m"] Cons.prems(3)
      by (cases "t = h") auto
    ultimately show ?thesis using s'(2,3,4) False Cons.prems(4) by auto
  qed
qed

lemma resume_all_ok:
  assumes "sched_inv s" "\<forall>x. rq = Some x \<longrightarrow> x \<in> vcpus s" "waiters s w = xs"
  shows "\<exists>s'. resume_all rq w e r s = Some (s', r + length xs) \<and> sched_inv s' \<and> waiters s' w = [] \<and>
    (\<forall>t\<in>set xs. error_number s' t = e \<and> th_state s' t \<in> {READY, STANDBY}) \<and>
    (\<forall>t. waitq_of s t = None \<longrightarrow> error_number s' t = error_number s t \<and> th_state s' t = th_state s t)"
  using assms
proof (induction xs arbitrary: s r)
  case Nil
  then show ?case by (subst resume_all.simps) (simp add: resume_one_def)
next
  case (Cons h hs)
  obtain s1 where s1: "prelocked_thread_interrupt rq h e s = Some s1" "sched_inv s1" "waiters s1 w = hs"
    "th_state s1 h \<in> {READY, STANDBY}" "waitq_of s1 h = None" "error_number s1 h = e" "\<forall>x. rq = Some x \<longrightarrow> x \<in> vcpus s1"
    using head_interrupt_ok [OF Cons.prems(1,2,3), of e] by blast
  have h: "waitq_of s h = Some w" using inv_waiters [OF Cons.prems(1), of h w] Cons.prems(3) by simp
  obtain s' where s': "resume_all rq w e (r + 1) s1 = Some (s', r + 1 + length hs)" "sched_inv s'" "waiters s' w = []"
    "\<forall>t\<in>set hs. error_number s' t = e \<and> th_state s' t \<in> {READY, STANDBY}"
    "\<forall>t. waitq_of s1 t = None \<longrightarrow> error_number s' t = error_number s1 t \<and> th_state s' t = th_state s1 t"
    using Cons.IH [OF s1(2,7,3), of "r + 1"] by blast
  have "resume_all rq w e r s = Some (s', r + length (h # hs))"
    using Cons.prems(3) h s1(1) s'(1) by (subst resume_all.simps) (simp add: resume_one_def)
  moreover have "error_number s' t = error_number s t \<and> th_state s' t = th_state s t" if t: "waitq_of s t = None" for t
  proof -
    have "t \<noteq> h" using t h by auto
    then show ?thesis using s'(5) interrupt_frame(3,4,5) [OF s1(1), of t] t by simp
  qed
  moreover have "error_number s' h = e \<and> th_state s' h \<in> {READY, STANDBY}" using s'(5) s1(4,5,6) by simp
  ultimately show ?case using s'(2,3,4) by auto
qed

text \<open>The unlock of a reader-writer lock wakes all readers at the head of the queue, and then stops.\<close>

lemma rw_notify_readers_ok:
  assumes "sched_inv s" "\<forall>x. rq = Some x \<longrightarrow> x \<in> vcpus s" "waiters s (rwq l) = xs"
  shows "\<exists>s'. rw_notify_readers rq l s = Some s' \<and> sched_inv s' \<and>
    waiters s' (rwq l) = dropWhile (\<lambda>t. rwlock_mark l t AND RLOCK \<noteq> 0) xs"
  using assms
proof (induction xs arbitrary: s)
  case Nil
  then show ?case by (subst rw_notify_readers.simps) simp
next
  case (Cons h hs)
  show ?case
  proof (cases "rwlock_mark l h AND RLOCK = 0")
    case True
    then show ?thesis using Cons.prems by (subst rw_notify_readers.simps) simp
  next
    case False
    obtain s1 where s1: "prelocked_thread_interrupt rq h (-1) s = Some s1" "sched_inv s1" "waiters s1 (rwq l) = hs"
      "\<forall>x. rq = Some x \<longrightarrow> x \<in> vcpus s1"
      using head_interrupt_ok [OF Cons.prems(1,2,3), of "-1"] by blast
    have h: "waitq_of s h = Some (rwq l)" using inv_waiters [OF Cons.prems(1), of h "rwq l"] Cons.prems(3) by simp
    have "rw_notify_readers rq l s = rw_notify_readers rq l s1"
      using False Cons.prems(3) h s1(1)
      by (subst rw_notify_readers.simps) (simp add: cvar_notify_one_def resume_one_def)
    then show ?thesis using Cons.IH [OF s1(2,4,3)] False by simp
  qed
qed

subsection \<open>The state of the reader-writer lock\<close>

datatype rw_event = Acquire_read | Acquire_write | Release

fun rw_event_step :: "rw_event \<Rightarrow> rwlock \<Rightarrow> rwlock option" where
  "rw_event_step Acquire_read l = (if rw_blocked RLOCK l then None else Some (rw_acquire RLOCK l))"
| "rw_event_step Acquire_write l = (if rw_blocked WLOCK l then None else Some (rw_acquire WLOCK l))"
| "rw_event_step Release l =
     (if rw_state l = 0 then None
      else Some (l\<lparr>rw_state := (if 0 <s rw_state l then rw_state l - 1 else rw_state l + 1)\<rparr>))"

text \<open>The number of readers and of writers that hold the lock after a sequence of events.\<close>

fun rw_holders :: "rw_event list \<Rightarrow> nat \<times> nat \<Rightarrow> nat \<times> nat" where
  "rw_holders [] h = h"
| "rw_holders (Acquire_read # es) (r, w) = rw_holders es (Suc r, w)"
| "rw_holders (Acquire_write # es) (r, w) = rw_holders es (r, Suc w)"
| "rw_holders (Release # es) (r, w) = rw_holders es (if 0 < r then (r - 1, w) else (r, w - 1))"

fun rw_run :: "rw_event list \<Rightarrow> rwlock \<Rightarrow> rwlock option" where
  "rw_run [] l = Some l"
| "rw_run (e # es) l = Option.bind (rw_event_step e l) (rw_run es)"

definition rw_rel :: "rwlock \<Rightarrow> nat \<times> nat \<Rightarrow> bool" where
  "rw_rel l h \<longleftrightarrow> (case h of (r, w) \<Rightarrow>
     (w = 0 \<and> rw_state l = of_nat r \<and> r < 2 ^ 63) \<or> (r = 0 \<and> w = 1 \<and> rw_state l = -1))"

lemma rw_rotations: "word_rotl 1 (rw_op RLOCK) = 1" "word_rotl 1 (rw_op WLOCK) = -1"
  unfolding rw_op_def RLOCK_def WLOCK_def by (code_simp, code_simp)

lemma bit_63_of_nat: "r < 2 ^ 63 \<Longrightarrow> \<not> bit (of_nat r :: u64) 63"
  using take_bit_nat_eq_self [of r 63] by (metis bit_of_nat_iff_bit bit_take_bit_iff less_irrefl of_nat_take_bit bit_of_nat_iff)

lemma rw_blocked_read: "rw_blocked RLOCK l \<longleftrightarrow> bit (rw_state l) 63"
proof -
  have "(push_bit 63 1 :: u64) = 2 ^ 63" by simp
  then show ?thesis
    unfolding rw_blocked_def rw_op_def by (simp only: refl if_True and.commute [of "2 ^ 63"] and_exp_eq_0_iff_not_bit not_not)
qed

lemma rw_blocked_write: "rw_blocked WLOCK l \<longleftrightarrow> rw_state l \<noteq> 0"
  by (simp add: rw_blocked_def rw_op_def RLOCK_def WLOCK_def)

lemma signed_positive: "r < 2 ^ 63 \<Longrightarrow> 0 <s (of_nat r :: u64) \<longleftrightarrow> 0 < r"
proof -
  assume "r < 2 ^ 63"
  then have "sint (of_nat r :: u64) = int r"
    by (simp add: signed_of_nat signed_take_bit_int_eq_self)
  then show ?thesis by (simp add: word_sless_alt)
qed

lemma of_nat_u64_eq_0: "r < 2 ^ 63 \<Longrightarrow> (of_nat r :: u64) = 0 \<longleftrightarrow> r = 0"
  by (auto simp: word_of_nat_eq_0_iff dest: dvd_imp_le)

lemma rw_rel_step:
  assumes "rw_rel l (r, w)" "Suc r < 2 ^ 63" "rw_event_step e l = Some l'"
  shows "rw_rel l' (rw_holders [e] (r, w))"
proof (cases e)
  case Acquire_read
  then have "w = 0" "l' = rw_acquire RLOCK l" "rw_state l = of_nat r"
    using assms bit_63_of_nat by (auto simp: rw_rel_def rw_blocked_read split: if_splits)
  then show ?thesis using Acquire_read assms(2) by (simp add: rw_rel_def rw_acquire_def rw_rotations del: One_nat_def)
next
  case Acquire_write
  then have "rw_state l = 0" "l' = rw_acquire WLOCK l" using assms by (auto simp: rw_blocked_write split: if_splits)
  moreover from this have "r = 0 \<and> w = 0" using assms(1) of_nat_u64_eq_0 [of r] by (auto simp: rw_rel_def)
  ultimately show ?thesis using Acquire_write by (simp add: rw_rel_def rw_acquire_def rw_rotations del: One_nat_def)
next
  case Release
  then have l': "rw_state l \<noteq> 0" "l' = l\<lparr>rw_state := (if 0 <s rw_state l then rw_state l - 1 else rw_state l + 1)\<rparr>"
    using assms(3) by (auto split: if_splits)
  show ?thesis
  proof (cases "w = 0")
    case True
    then have st: "rw_state l = of_nat r" "r < 2 ^ 63" using assms(1) by (auto simp: rw_rel_def)
    then have "0 < r" using l'(1) by (cases r) auto
    then show ?thesis using Release True l' st signed_positive [of r] by (simp add: rw_rel_def of_nat_diff)
  next
    case False
    then show ?thesis using Release l' assms(1) by (auto simp: rw_rel_def)
  qed
qed

lemma rw_holders_Cons: "rw_holders (e # es) h = rw_holders es (rw_holders [e] h)"
  by (cases e; cases h) auto

lemma rw_run_rel:
  "rw_run es l = Some l' \<Longrightarrow> rw_rel l (r, w) \<Longrightarrow> r + length es < 2 ^ 63 \<Longrightarrow> rw_rel l' (rw_holders es (r, w))"
proof (induction es arbitrary: l r w)
  case (Cons e es)
  then obtain l1 where l1: "rw_event_step e l = Some l1" "rw_run es l1 = Some l'" by (auto simp: bind_eq_Some_conv)
  obtain r1 w1 where h: "rw_holders [e] (r, w) = (r1, w1)" by fastforce
  then have "r1 \<le> Suc r" by (cases e) (auto split: if_splits)
  moreover have "rw_rel l1 (r1, w1)" using rw_rel_step [OF Cons.prems(2) _ l1(1)] Cons.prems(3) h by simp
  ultimately show ?case using Cons.IH [OF l1(2)] Cons.prems(3) h by (simp add: rw_holders_Cons [of e es])
qed simp

subsection \<open>Properties\<close>

text \<open>The run of theory Scheduler_Props in which, in addition, thread 2 waits on queue 7; for the witnesses.\<close>

definition demo_wait :: sched where
  "demo_wait = the (thread_usleep_waitq 0 90 (Some (Wq 7)) 20 demo3)"

lemma demo_wait_step: "thread_usleep_waitq 0 90 (Some (Wq 7)) 20 demo3 = Some demo_wait"
  by (simp add: demo_wait_def demo3_def demo2_def demo1_def demo_eval)

lemma demo_wait_reachable: "sched_reachable demo_wait"
proof -
  have "sched_step demo3 demo_wait" by (rule Sleep [OF _ demo_wait_step]) (simp add: demo3_state)
  with demo_reachable(3) show ?thesis by (rule rtranclp.rtrancl_into_rtrancl)
qed

lemma demo_wait_state: "waiters demo_wait (Wq 7) = [2]" "vcpus demo_wait = {0}"
  by (simp_all add: demo_wait_def demo3_def demo2_def demo1_def demo_eval)

text \<open>
  C18: Unlocking a mutex hands it over: with waiters in the queue the first of them becomes the owner and is
  made runnable, its \<open>lock\<close> returns 0 when it runs, and no interrupt in between can change that or
  the ownership; the others stay in their order.  Without waiters the mutex becomes free.
\<close>

theorem mutex_unlock_hands_over:
  assumes "sched_reachable s" "\<forall>x. rq = Some x \<longrightarrow> x \<in> vcpus s"
  shows "\<exists>m' s'. do_mutex_unlock rq m s = Some (m', s') \<and>
    (case waiters s (mq m) of
       [] \<Rightarrow> owner m' = None \<and> s' = s
     | h # rest \<Rightarrow> owner m' = Some h \<and> waiters s' (mq m) = rest \<and> th_state s' h \<in> {READY, STANDBY} \<and>
         (\<exists>s''. mutex_lock_resumed h s' = Some (s'', None)) \<and> (\<forall>rq' e. thread_interrupt rq' h e s' = Some s'))"
proof (cases "waiters s (mq m)")
  case Nil
  then show ?thesis by (simp add: do_mutex_unlock_def)
next
  case (Cons h rest)
  obtain s' where s': "prelocked_thread_interrupt rq h (-1) s = Some s'" "waiters s' (mq m) = rest"
    "th_state s' h \<in> {READY, STANDBY}" "waitq_of s' h = None" "error_number s' h = -1"
    using head_interrupt_ok [OF reachable_inv [OF assms(1)] assms(2) Cons, of "-1"] by blast
  then have "woken h s'" by (simp add: woken_def)
  then show ?thesis
    using Cons s' woken_returns [of h s'] woken_interrupt [of h s'] by (auto simp: do_mutex_unlock_def mutex_lock_resumed_def)
qed

theorem mutex_unlock_hands_over_witness:
  "\<exists>m' s'. do_mutex_unlock (Some 0) \<lparr>owner = Some 1, mq = Wq 7\<rparr> demo_wait = Some (m', s') \<and> owner m' = Some 2 \<and>
    waiters s' (Wq 7) = [] \<and> (\<exists>s''. mutex_lock_resumed 2 s' = Some (s'', None))"
  using mutex_unlock_hands_over [OF demo_wait_reachable, of "Some 0" "\<lparr>owner = Some 1, mq = Wq 7\<rparr>"]
  by (auto simp: demo_wait_state)

text \<open>
  C21: The loop of \<open>resume_all\<close> ends in every reachable state: it wakes every waiter of the queue with the given
  error number, leaves the queue empty and returns the number of threads it woke.
\<close>

theorem resume_all_ends:
  assumes "sched_reachable s" "\<forall>x. rq = Some x \<longrightarrow> x \<in> vcpus s"
  shows "\<exists>s'. resume_all rq w e 0 s = Some (s', length (waiters s w)) \<and> waiters s' w = [] \<and>
    (\<forall>t\<in>set (waiters s w). error_number s' t = e \<and> th_state s' t \<in> {READY, STANDBY})"
  using resume_all_ok [OF reachable_inv [OF assms(1)] assms(2) refl, of w e 0] by auto

theorem resume_all_ends_witness:
  "\<exists>s'. resume_all (Some 0) (Wq 7) (-1) 0 demo_wait = Some (s', 1) \<and> waiters s' (Wq 7) = [] \<and> error_number s' 2 = -1"
  using resume_all_ends [OF demo_wait_reachable, of "Some 0" "Wq 7" "-1"] by (auto simp: demo_wait_state)

text \<open>
  C20: Signalling a semaphore that wakes in order adds the count and wakes exactly the longest prefix of the
  waiters whose requests, taken one after the other, fit into the new count; the waits of the woken
  threads are resumed without error, the other waiters stay in the queue in their order.
\<close>

theorem sem_signal_wakes_prefix:
  assumes "sched_reachable s" "\<forall>x. rq = Some x \<longrightarrow> x \<in> vcpus s" "\<not> m_ooo_resume m" "c \<noteq> 0" "m_count m + c \<noteq> 0"
    and "k = sem_fit (semaphore_count m) (m_count m + c) (waiters s (smq m))"
  shows "\<exists>s'. sem_signal rq c m s = Some (m\<lparr>m_count := m_count m + c\<rparr>, s') \<and>
    waiters s' (smq m) = drop k (waiters s (smq m)) \<and>
    (\<forall>t\<in>set (take k (waiters s (smq m))). \<exists>s''. waitq_resumed t s' = Some (s'', None))"
proof -
  let ?m = "m\<lparr>m_count := m_count m + c\<rparr>"
  obtain cnt' s' where "sem_resume_front rq ?m (m_count ?m) s = Some (cnt', s')"
    "waiters s' (smq ?m) = drop k (waiters s (smq ?m))" "\<forall>t\<in>set (take k (waiters s (smq ?m))). woken t s'"
    using sem_resume_front_ok [OF reachable_inv [OF assms(1)] assms(2) refl, of k ?m "m_count ?m"] assms(6) by auto
  then show ?thesis using assms(3,4,5) woken_returns by (simp add: sem_signal_def try_resume_def Let_def)
qed

theorem sem_signal_wakes_prefix_witness:
  "\<exists>s'. sem_signal None 3 \<lparr>m_count = 1, m_ooo_resume = False, smq = Wq 7, semaphore_count = (\<lambda>_. 4)\<rparr> demo_wait =
      Some (\<lparr>m_count = 4, m_ooo_resume = False, smq = Wq 7, semaphore_count = (\<lambda>_. 4)\<rparr>, s') \<and>
    waiters s' (Wq 7) = [] \<and> (\<exists>s''. waitq_resumed 2 s' = Some (s'', None))"
  using sem_signal_wakes_prefix [OF demo_wait_reachable, of None
      "\<lparr>m_count = 1, m_ooo_resume = False, smq = Wq 7, semaphore_count = (\<lambda>_. 4)\<rparr>" 3 1]
  by (auto simp: demo_wait_state)





end
