(* ===== verification/IO_Vector.thy ===== *)
theory IO_Vector
  imports Prelude
begin

text \<open>
  common/iovector.h and common/iovector.cpp: views of iovec arrays and the fixed-capacity iovector.
  An address is a natural number and memory a function from addresses to bytes; a view is the list
  of the iovecs of its window \<open>iov[0..iovcnt)\<close>.  Lengths are natural numbers: the buffers of one
  address space have together fewer than \<open>2 ^ 64\<close> bytes, so no sum of lengths wraps.
\<close>

subsection \<open>Buffers in memory\<close>

type_synonym memory = "nat \<Rightarrow> byte"

record iovec =
  iov_base :: nat
  iov_len :: nat

text \<open>The copy of the C library and the bytes of a buffer.\<close>

definition memcpy :: "memory \<Rightarrow> nat \<Rightarrow> nat \<Rightarrow> nat \<Rightarrow> memory" where
  "memcpy m dst src n = (\<lambda>a. if dst \<le> a \<and> a < dst + n then m (src + (a - dst)) else m a)"

definition bytes_at :: "memory \<Rightarrow> nat \<Rightarrow> nat \<Rightarrow> byte list" where
  "bytes_at m p n = map (\<lambda>i. m (p + i)) [0..<n]"

definition iov_data :: "memory \<Rightarrow> iovec list \<Rightarrow> byte list" where
  "iov_data m v = concat (map (\<lambda>x. bytes_at m (iov_base x) (iov_len x)) v)"

subsection \<open>Views\<close>

fun v_sum :: "iovec list \<Rightarrow> nat" where
  "v_sum [] = 0"
| "v_sum (x # xs) = iov_len x + v_sum xs"

fun shrink_to_loop :: "nat \<Rightarrow> iovec list \<Rightarrow> iovec list \<times> nat" where
  "shrink_to_loop sz [] = ([], sz)"
| "shrink_to_loop sz (x # xs) =
     (if sz \<le> iov_len x then ([x\<lparr>iov_len := sz\<rparr>], 0)
      else (let (ys, r) = shrink_to_loop (sz - iov_len x) xs in (x # ys, r)))"

definition v_shrink_to :: "nat \<Rightarrow> iovec list \<Rightarrow> nat \<times> iovec list" where
  "v_shrink_to sz v =
     (if sz = 0 then (0, []) else (let (ys, r) = shrink_to_loop sz v in (sz - r, ys)))"

fun shrink_less_loop :: "nat \<Rightarrow> iovec list \<Rightarrow> nat \<times> iovec list" where
  "shrink_less_loop sz [] = (0, [])"
| "shrink_less_loop sz (x # xs) =
     (if sz \<le> iov_len x then (iov_len x - sz, [x])
      else (let (r, ys) = shrink_less_loop (sz - iov_len x) xs in (r, x # ys)))"

definition v_shrink_less_than :: "nat \<Rightarrow> iovec list \<Rightarrow> nat \<times> iovec list" where
  "v_shrink_less_than sz v =
     (if sz = 0 then (case v of [] \<Rightarrow> (0, []) | x # _ \<Rightarrow> (iov_len x, [])) else shrink_less_loop sz v)"

text \<open>
  \<open>slice\<close> stores at most \<open>cap\<close> iovecs in the output view.  The position is advanced only where
  an element is taken, as in the code.
\<close>

fun slice_loop :: "nat \<Rightarrow> int \<Rightarrow> int \<Rightarrow> nat \<Rightarrow> iovec list \<Rightarrow> nat \<times> iovec list" where
  "slice_loop count pos offset cap [] = (0, [])"
| "slice_loop count pos offset cap (p # ps) =
     (if count \<noteq> 0 \<and> pos + int (iov_len p) > offset then
        (let q = (if offset > pos
                  then p\<lparr>iov_base := iov_base p + nat (offset - pos), iov_len := iov_len p - nat (offset - pos)\<rparr>
                  else p);
             q' = (if count < iov_len q then q\<lparr>iov_len := count\<rparr> else q)
         in if cap = 1 then (iov_len q', [q'])
            else (let (r, qs) = slice_loop (count - iov_len q') (pos + int (iov_len p)) offset (cap - 1) ps
                  in (iov_len q' + r, q' # qs)))
      else slice_loop count pos offset cap ps)"

definition v_slice :: "nat \<Rightarrow> int \<Rightarrow> nat \<Rightarrow> iovec list \<Rightarrow> (nat \<times> iovec list) option" where
  "v_slice count offset cap v = (if cap = 0 then None else Some (slice_loop count 0 offset cap v))"

subsection \<open>Extraction\<close>

text \<open>
  \<open>do_extract_front\<close> hands every extracted piece to a callback, which may refuse it (\<open>None\<close>, the
  negative result of the code).  The loop returns whether it went through, the number of bytes that
  are still missing, the state of the callback and the rest of the view.
\<close>

type_synonym 's extract_cb = "'s \<Rightarrow> nat \<Rightarrow> nat \<Rightarrow> 's option"

fun extract_front_loop :: "'s extract_cb \<Rightarrow> nat \<Rightarrow> 's \<Rightarrow> iovec list \<Rightarrow> bool \<times> nat \<times> 's \<times> iovec list" where
  "extract_front_loop cb bytes st [] = (True, bytes, st, [])"
| "extract_front_loop cb bytes st (x # xs) =
     (if bytes \<le> iov_len x then
        (case cb st (iov_base x) bytes of
           None \<Rightarrow> (False, bytes, st, x # xs)
         | Some st' \<Rightarrow>
             (True, 0, st',
              if iov_len x - bytes = 0 then xs
              else x\<lparr>iov_base := iov_base x + bytes, iov_len := iov_len x - bytes\<rparr> # xs))
      else
        (case cb st (iov_base x) (iov_len x) of
           None \<Rightarrow> (False, bytes, st, x # xs)
         | Some st' \<Rightarrow> extract_front_loop cb (bytes - iov_len x) st' xs))"

definition do_extract_front :: "'s extract_cb \<Rightarrow> nat \<Rightarrow> 's \<Rightarrow> iovec list \<Rightarrow> nat option \<times> 's \<times> iovec list" where
  "do_extract_front cb bytes st v =
     (if bytes = 0 then (Some 0, st, v)
      else (let (ok, rem, st', v') = extract_front_loop cb bytes st v
            in (if ok then Some (bytes - rem) else None, st', v')))"

text \<open>The loop from the back goes over the reversed view.\<close>

fun extract_back_loop :: "'s extract_cb \<Rightarrow> nat \<Rightarrow> 's \<Rightarrow> iovec list \<Rightarrow> bool \<times> nat \<times> 's \<times> iovec list" where
  "extract_back_loop cb bytes st [] = (True, bytes, st, [])"
| "extract_back_loop cb bytes st (x # xs) =
     (if bytes \<le> iov_len x then
        (case cb st (iov_base x + iov_len x - bytes) bytes of
           None \<Rightarrow> (False, bytes, st, x # xs)
         | Some st' \<Rightarrow>
             (True, 0, st', if iov_len x - bytes = 0 then xs else x\<lparr>iov_len := iov_len x - bytes\<rparr> # xs))
      else
        (case cb st (iov_base x) (iov_len x) of
           None \<Rightarrow> (False, bytes, st, x # xs)
         | Some st' \<Rightarrow> extract_back_loop cb (bytes - iov_len x) st' xs))"

definition do_extract_back :: "'s extract_cb \<Rightarrow> nat \<Rightarrow> 's \<Rightarrow> iovec list \<Rightarrow> nat option \<times> 's \<times> iovec list" where
  "do_extract_back cb bytes st v =
     (if bytes = 0 then (Some 0, st, v)
      else (let (ok, rem, st', w) = extract_back_loop cb bytes st (rev v)
            in (if ok then Some (bytes - rem) else None, st', rev w)))"

text \<open>The callbacks of the three overloads: drop the bytes, copy them, or collect the pieces.\<close>

definition cb_drop :: "unit extract_cb" where
  "cb_drop st ptr sz = Some ()"

definition cb_copy :: "(memory \<times> nat) extract_cb" where
  "cb_copy st ptr sz = (let (m, buf) = st in Some (memcpy m buf ptr sz, buf + sz))"

definition cb_collect :: "nat \<Rightarrow> iovec list extract_cb" where
  "cb_collect N out ptr sz =
     (if length out = N then None else Some (out @ [\<lparr>iov_base = ptr, iov_len = sz\<rparr>]))"

definition cb_copy_back :: "(memory \<times> nat) extract_cb" where
  "cb_copy_back st ptr sz = (let (m, buf) = st in Some (memcpy m (buf - sz) ptr sz, buf - sz))"

definition cb_collect_back :: "nat \<Rightarrow> iovec list extract_cb" where
  "cb_collect_back N out ptr sz =
     (if length out = N then None else Some (\<lparr>iov_base = ptr, iov_len = sz\<rparr> # out))"

definition v_extract_front :: "nat \<Rightarrow> iovec list \<Rightarrow> nat option \<times> iovec list" where
  "v_extract_front bytes v = (let (r, _, v') = do_extract_front cb_drop bytes () v in (r, v'))"

definition v_extract_front_buf :: "nat \<Rightarrow> nat \<Rightarrow> memory \<Rightarrow> iovec list \<Rightarrow> nat option \<times> memory \<times> iovec list" where
  "v_extract_front_buf bytes buf m v =
     (let (r, (m', _), v') = do_extract_front cb_copy bytes (m, buf) v in (r, m', v'))"

definition v_extract_front_view :: "nat \<Rightarrow> nat \<Rightarrow> iovec list \<Rightarrow> nat option \<times> iovec list \<times> iovec list" where
  "v_extract_front_view bytes N v = do_extract_front (cb_collect N) bytes [] v"

definition v_extract_back :: "nat \<Rightarrow> iovec list \<Rightarrow> nat option \<times> iovec list" where
  "v_extract_back bytes v = (let (r, _, v') = do_extract_back cb_drop bytes () v in (r, v'))"

definition v_extract_back_buf :: "nat \<Rightarrow> nat \<Rightarrow> memory \<Rightarrow> iovec list \<Rightarrow> nat option \<times> memory \<times> iovec list" where
  "v_extract_back_buf bytes buf m v =
     (let (r, (m', _), v') = do_extract_back cb_copy_back bytes (m, buf + bytes) v in (r, m', v'))"

definition v_extract_back_view :: "nat \<Rightarrow> nat \<Rightarrow> iovec list \<Rightarrow> nat option \<times> iovec list \<times> iovec list" where
  "v_extract_back_view bytes N v = do_extract_back (cb_collect_back N) bytes [] v"

definition v_extract_front_continuous :: "nat \<Rightarrow> iovec list \<Rightarrow> nat option \<times> iovec list" where
  "v_extract_front_continuous bytes v =
     (case v of [] \<Rightarrow> (None, v)
      | f # fs \<Rightarrow>
          (if iov_len f < bytes then (None, v)
           else (Some (iov_base f),
                 if iov_len f - bytes = 0 then fs
                 else f\<lparr>iov_len := iov_len f - bytes, iov_base := iov_base f + bytes\<rparr> # fs)))"

definition v_extract_back_continuous :: "nat \<Rightarrow> iovec list \<Rightarrow> nat option \<times> iovec list" where
  "v_extract_back_continuous bytes v =
     (if v = [] \<or> iov_len (last v) < bytes then (None, v)
      else (let b = last v; l = iov_len b - bytes
            in (Some (iov_base b + l), if l = 0 then butlast v else butlast v @ [b\<lparr>iov_len := l\<rparr>])))"

subsection \<open>Copying between views\<close>

text \<open>
  \<open>iov_iterator::operator+=\<close> and \<open>src_extractor::operator+=\<close>; the iterator also asserts that the
  next buffer is not null.  \<open>None\<close> is a failed assertion.
\<close>

definition iov_advance :: "nat \<Rightarrow> iovec \<Rightarrow> iovec" where
  "iov_advance n x = x\<lparr>iov_base := iov_base x + n, iov_len := iov_len x - n\<rparr>"

definition iter_advance :: "nat \<Rightarrow> iovec list \<Rightarrow> iovec list option" where
  "iter_advance n v =
     (case v of [] \<Rightarrow> None
      | x # xs \<Rightarrow>
          (if n > iov_len x then None
           else if n < iov_len x then Some (iov_advance n x # xs)
           else if xs \<noteq> [] \<and> iov_base (hd xs) = 0 then None else Some xs))"

definition src_advance :: "nat \<Rightarrow> iovec list \<Rightarrow> iovec list option" where
  "src_advance n v =
     (case v of [] \<Rightarrow> None
      | x # xs \<Rightarrow>
          (if n > iov_len x then None
           else if n < iov_len x then Some (iov_advance n x # xs)
           else Some xs))"

text \<open>\<open>_copy_pipe_iov\<close>; \<open>it\<close> says whether the source is an iterator or is itself extracted from.\<close>

function copy_pipe_loop :: "bool \<Rightarrow> nat \<Rightarrow> iovec list \<Rightarrow> iovec list \<Rightarrow> memory \<Rightarrow> (nat \<times> iovec list \<times> memory) option" where
  "copy_pipe_loop it sz d s m =
     (if sz = 0 then Some (sz, s, m)
      else case d of [] \<Rightarrow> Some (sz, s, m)
      | df # ds \<Rightarrow>
          (case s of [] \<Rightarrow> Some (sz, s, m)
           | sf # ss \<Rightarrow>
               (let step = min sz (min (iov_len df) (iov_len sf));
                    m' = memcpy m (iov_base df) (iov_base sf) step
                in case iter_advance step d of
                     None \<Rightarrow> None
                   | Some d' \<Rightarrow>
                       (case (if it then iter_advance step s else src_advance step s) of
                          None \<Rightarrow> None
                        | Some s' \<Rightarrow> copy_pipe_loop it (sz - step) d' s' m'))))"
  by pat_completeness auto
termination
  by (relation "measure (\<lambda>(it, sz, d, s, m). sz + length d + length s)")
    (auto simp: iter_advance_def src_advance_def min_def split: if_splits)

declare copy_pipe_loop.simps [simp del]

definition copy_pipe_iov :: "bool \<Rightarrow> iovec list \<Rightarrow> iovec list \<Rightarrow> nat \<Rightarrow> memory \<Rightarrow> (nat \<times> iovec list \<times> memory) option" where
  "copy_pipe_iov it d s sz m =
     map_option (\<lambda>(rem, s', m'). (sz - rem, s', m')) (copy_pipe_loop it sz d s m)"

definition memcpy_iov :: "iovec list \<Rightarrow> iovec list \<Rightarrow> nat \<Rightarrow> memory \<Rightarrow> (nat \<times> memory) option" where
  "memcpy_iov d s sz m = map_option (\<lambda>(n, _, m'). (n, m')) (copy_pipe_iov True d s sz m)"

definition pipe_iov :: "iovec list \<Rightarrow> iovec list \<Rightarrow> nat \<Rightarrow> memory \<Rightarrow> (nat \<times> iovec list \<times> memory) option" where
  "pipe_iov d s sz m = copy_pipe_iov False d s sz m"

definition v_memcpy_to :: "nat \<Rightarrow> nat \<Rightarrow> iovec list \<Rightarrow> memory \<Rightarrow> (nat \<times> memory) option" where
  "v_memcpy_to buf sz v m = memcpy_iov [\<lparr>iov_base = buf, iov_len = sz\<rparr>] v sz m"

definition v_memcpy_from :: "nat \<Rightarrow> nat \<Rightarrow> iovec list \<Rightarrow> memory \<Rightarrow> (nat \<times> memory) option" where
  "v_memcpy_from buf sz v m = memcpy_iov v [\<lparr>iov_base = buf, iov_len = sz\<rparr>] sz m"

definition v_memcpy_to_view :: "iovec list \<Rightarrow> nat \<Rightarrow> iovec list \<Rightarrow> memory \<Rightarrow> (nat \<times> memory) option" where
  "v_memcpy_to_view iov sz v m = memcpy_iov iov v sz m"

definition v_memcpy_from_view :: "iovec list \<Rightarrow> nat \<Rightarrow> iovec list \<Rightarrow> memory \<Rightarrow> (nat \<times> memory) option" where
  "v_memcpy_from_view iov sz v m = memcpy_iov v iov sz m"

definition v_pipe_to :: "nat \<Rightarrow> nat \<Rightarrow> iovec list \<Rightarrow> memory \<Rightarrow> (nat \<times> iovec list \<times> memory) option" where
  "v_pipe_to buf sz v m = pipe_iov [\<lparr>iov_base = buf, iov_len = sz\<rparr>] v sz m"

definition v_pipe_to_view :: "iovec list \<Rightarrow> nat \<Rightarrow> iovec list \<Rightarrow> memory \<Rightarrow> (nat \<times> iovec list \<times> memory) option" where
  "v_pipe_to_view iov sz v m = pipe_iov iov v sz m"

definition v_pipe_from :: "iovec list \<Rightarrow> nat \<Rightarrow> iovec list \<Rightarrow> memory \<Rightarrow> (nat \<times> iovec list \<times> memory) option" where
  "v_pipe_from iov sz v m = pipe_iov v iov sz m"

subsection \<open>Facts on memory and data\<close>

lemma length_bytes_at [simp]: "length (bytes_at m p n) = n"
  by (simp add: bytes_at_def)

lemma bytes_at_0 [simp]: "bytes_at m p 0 = []"
  by (simp add: bytes_at_def)

lemma bytes_at_add: "bytes_at m p (a + b) = bytes_at m p a @ bytes_at m (p + a) b"
  by (rule nth_equalityI) (auto simp: bytes_at_def nth_append)

lemma take_bytes_at [simp]: "take n (bytes_at m p k) = bytes_at m p (min n k)"
  by (rule nth_equalityI) (auto simp: bytes_at_def)

lemma drop_bytes_at [simp]: "drop n (bytes_at m p k) = bytes_at m (p + n) (k - n)"
  by (rule nth_equalityI) (auto simp: bytes_at_def ac_simps)

lemma bytes_at_cong: "(\<And>a. p \<le> a \<Longrightarrow> a < p + n \<Longrightarrow> m a = m' a) \<Longrightarrow> bytes_at m p n = bytes_at m' p n"
  by (simp add: bytes_at_def)

lemma bytes_at_memcpy [simp]: "bytes_at (memcpy m d s n) d n = bytes_at m s n"
  by (simp add: bytes_at_def memcpy_def)

definition iov_region :: "iovec list \<Rightarrow> nat set" where
  "iov_region v = (\<Union>x\<in>set v. {iov_base x..<iov_base x + iov_len x})"

lemma iov_region_simps [simp]:
  "iov_region [] = {}" "iov_region (x # xs) = {iov_base x..<iov_base x + iov_len x} \<union> iov_region xs"
  "iov_region (xs @ ys) = iov_region xs \<union> iov_region ys" "iov_region (rev xs) = iov_region xs"
  by (auto simp: iov_region_def)

lemma iov_data_simps [simp]:
  "iov_data m [] = []" "iov_data m (x # xs) = bytes_at m (iov_base x) (iov_len x) @ iov_data m xs"
  "iov_data m (xs @ ys) = iov_data m xs @ iov_data m ys"
  by (simp_all add: iov_data_def)

lemma length_iov_data [simp]: "length (iov_data m v) = v_sum v"
  by (induction v) simp_all

lemma v_sum_append [simp]: "v_sum (xs @ ys) = v_sum xs + v_sum ys"
  by (induction xs) simp_all

lemma v_sum_rev [simp]: "v_sum (rev xs) = v_sum xs"
  by (induction xs) simp_all

lemma iov_data_cong: "(\<And>a. a \<in> iov_region v \<Longrightarrow> m a = m' a) \<Longrightarrow> iov_data m v = iov_data m' v"
proof (induction v)
  case (Cons x xs)
  have "bytes_at m (iov_base x) (iov_len x) = bytes_at m' (iov_base x) (iov_len x)"
    by (rule bytes_at_cong) (use Cons.prems in simp)
  then show ?case using Cons by simp
qed simp

lemma iov_data_memcpy: "{d..<d + n} \<inter> iov_region v = {} \<Longrightarrow> iov_data (memcpy m d s n) v = iov_data m v"
  by (rule iov_data_cong) (auto simp: memcpy_def)

lemma iov_data_frame:
  "\<forall>a. a \<notin> R \<longrightarrow> m' a = m a \<Longrightarrow> R \<inter> iov_region v = {} \<Longrightarrow> iov_data m' v = iov_data m v"
  by (rule iov_data_cong) blast

lemma disjoint_mono: "A \<inter> R = {} \<Longrightarrow> B \<subseteq> A \<Longrightarrow> S \<subseteq> R \<Longrightarrow> B \<inter> S = {}"
  by blast

subsection \<open>The pieces that an extraction takes\<close>

fun take_front :: "nat \<Rightarrow> iovec list \<Rightarrow> iovec list" where
  "take_front n [] = []"
| "take_front n (x # xs) =
     (if n \<le> iov_len x then [\<lparr>iov_base = iov_base x, iov_len = n\<rparr>] else \<lparr>iov_base = iov_base x, iov_len = iov_len x\<rparr> # take_front (n - iov_len x) xs)"

fun drop_front :: "nat \<Rightarrow> iovec list \<Rightarrow> iovec list" where
  "drop_front n [] = []"
| "drop_front n (x # xs) =
     (if n \<le> iov_len x then (if iov_len x - n = 0 then xs else iov_advance n x # xs)
      else drop_front (n - iov_len x) xs)"

text \<open>From the back, on the reversed view.\<close>

fun take_back :: "nat \<Rightarrow> iovec list \<Rightarrow> iovec list" where
  "take_back n [] = []"
| "take_back n (x # xs) =
     (if n \<le> iov_len x then [\<lparr>iov_base = iov_base x + iov_len x - n, iov_len = n\<rparr>]
      else \<lparr>iov_base = iov_base x, iov_len = iov_len x\<rparr> # take_back (n - iov_len x) xs)"

fun drop_back :: "nat \<Rightarrow> iovec list \<Rightarrow> iovec list" where
  "drop_back n [] = []"
| "drop_back n (x # xs) =
     (if n \<le> iov_len x then (if iov_len x - n = 0 then xs else x\<lparr>iov_len := iov_len x - n\<rparr> # xs)
      else drop_back (n - iov_len x) xs)"

fun feed :: "'s extract_cb \<Rightarrow> 's \<Rightarrow> iovec list \<Rightarrow> 's option" where
  "feed cb st [] = Some st"
| "feed cb st (p # ps) = Option.bind (cb st (iov_base p) (iov_len p)) (\<lambda>st'. feed cb st' ps)"

lemma extract_front_loop_feed:
  "feed cb st (take_front n v) = Some st' \<Longrightarrow> extract_front_loop cb n st v = (True, n - v_sum v, st', drop_front n v)"
  by (induction cb n st v rule: extract_front_loop.induct)
    (auto simp: iov_advance_def split: if_splits option.splits Option.bind_splits)

lemma extract_back_loop_feed:
  "feed cb st (take_back n v) = Some st' \<Longrightarrow> extract_back_loop cb n st v = (True, n - v_sum v, st', drop_back n v)"
  by (induction cb n st v rule: extract_back_loop.induct)
    (auto split: if_splits option.splits Option.bind_splits)

lemma take_front_data: "iov_data m (take_front n v) = take n (iov_data m v)"
  by (induction n v rule: take_front.induct) (auto simp: min_def)

lemma drop_front_data: "iov_data m (drop_front n v) = drop n (iov_data m v)"
  by (induction n v rule: drop_front.induct) (auto simp: iov_advance_def)

lemma take_front_sum [simp]: "v_sum (take_front n v) = min n (v_sum v)"
  by (induction n v rule: take_front.induct) auto

lemma drop_front_sum [simp]: "v_sum (drop_front n v) = v_sum v - n"
  by (induction n v rule: drop_front.induct) (auto simp: iov_advance_def)

lemma take_back_data: "iov_data m (rev (take_back n v)) = drop (v_sum v - n) (iov_data m (rev v))"
  by (induction n v rule: take_back.induct) (auto simp: not_le add.commute)

lemma drop_back_data: "iov_data m (rev (drop_back n v)) = take (v_sum v - n) (iov_data m (rev v))"
  by (induction n v rule: drop_back.induct) (auto simp: not_le add.commute)

lemma take_back_sum [simp]: "v_sum (take_back n v) = min n (v_sum v)"
  by (induction n v rule: take_back.induct) auto

lemma drop_back_sum [simp]: "v_sum (drop_back n v) = v_sum v - n"
  by (induction n v rule: drop_back.induct) auto

lemma take_front_region: "iov_region (take_front n v) \<subseteq> iov_region v"
  by (induction n v rule: take_front.induct) auto

lemma take_back_region: "iov_region (take_back n v) \<subseteq> iov_region v"
  by (induction n v rule: take_back.induct) auto

lemma drop_front_region: "iov_region (drop_front n v) \<subseteq> iov_region v"
  by (induction n v rule: drop_front.induct) (auto simp: iov_advance_def)

lemma drop_back_region: "iov_region (drop_back n v) \<subseteq> iov_region v"
  by (induction n v rule: drop_back.induct) auto

lemma length_take_front: "length (take_front n v) \<le> length v"
  by (induction n v rule: take_front.induct) auto

lemma length_take_back: "length (take_back n v) \<le> length v"
  by (induction n v rule: take_back.induct) auto

lemma length_drop_front: "length (drop_front n v) \<le> length v"
  by (induction n v rule: drop_front.induct) auto

lemma length_drop_back: "length (drop_back n v) \<le> length v"
  by (induction n v rule: drop_back.induct) auto

lemma cb_copy_pair [simp]: "cb_copy (m, buf) p n = Some (memcpy m buf p n, buf + n)"
  by (simp add: cb_copy_def)

lemma cb_copy_back_pair [simp]: "cb_copy_back (m, buf) p n = Some (memcpy m (buf - n) p n, buf - n)"
  by (simp add: cb_copy_back_def)

lemma feed_drop [simp]: "feed cb_drop () ps = Some ()"
  by (induction ps) (simp_all add: cb_drop_def)

lemma feed_collect: "length out + length ps \<le> N \<Longrightarrow> feed (cb_collect N) out ps = Some (out @ map (iovec.truncate) ps)"
  by (induction ps arbitrary: out) (auto simp: cb_collect_def iovec.truncate_def)

lemma feed_collect_back: "length out + length ps \<le> N \<Longrightarrow> feed (cb_collect_back N) out ps = Some (rev ps @ out)"
  by (induction ps arbitrary: out) (auto simp: cb_collect_back_def)

text \<open>Copied pieces stand one after the other in the buffer; nothing else changes.\<close>

lemma feed_copy:
  "{buf..<buf + v_sum ps} \<inter> iov_region ps = {} \<Longrightarrow>
   \<exists>m'. feed cb_copy (m, buf) ps = Some (m', buf + v_sum ps) \<and> bytes_at m' buf (v_sum ps) = iov_data m ps \<and>
     (\<forall>a. a < buf \<or> buf + v_sum ps \<le> a \<longrightarrow> m' a = m a)"
proof (induction ps arbitrary: m buf)
  case (Cons p ps)
  let ?n = "iov_len p" and ?m = "memcpy m buf (iov_base p) (iov_len p)"
  have "{buf + ?n..<buf + ?n + v_sum ps} \<inter> iov_region ps = {}"
    by (rule disjoint_mono [OF Cons.prems]) auto
  then obtain m' where m': "feed cb_copy (?m, buf + ?n) ps = Some (m', buf + ?n + v_sum ps)"
    "bytes_at m' (buf + ?n) (v_sum ps) = iov_data ?m ps" "\<forall>a. a < buf + ?n \<or> buf + ?n + v_sum ps \<le> a \<longrightarrow> m' a = ?m a"
    using Cons.IH [of "buf + ?n" ?m] by blast
  have "bytes_at m' buf ?n = bytes_at ?m buf ?n" by (rule bytes_at_cong) (use m'(3) in simp)
  moreover have "iov_data ?m ps = iov_data m ps" by (rule iov_data_memcpy, rule disjoint_mono [OF Cons.prems]) auto
  ultimately have "bytes_at m' buf (?n + v_sum ps) = iov_data m (p # ps)" using m'(2) by (simp add: bytes_at_add)
  moreover have "m' a = m a" if "a < buf \<or> buf + (?n + v_sum ps) \<le> a" for a using m'(3) that by (auto simp: memcpy_def)
  ultimately show ?case using m'(1) by (simp add: add.assoc)
qed simp

lemma feed_copy_back:
  "v_sum ps \<le> buf \<Longrightarrow> {buf - v_sum ps..<buf} \<inter> iov_region ps = {} \<Longrightarrow>
   \<exists>m'. feed cb_copy_back (m, buf) ps = Some (m', buf - v_sum ps) \<and>
     bytes_at m' (buf - v_sum ps) (v_sum ps) = iov_data m (rev ps) \<and>
     (\<forall>a. a < buf - v_sum ps \<or> buf \<le> a \<longrightarrow> m' a = m a)"
proof (induction ps arbitrary: m buf)
  case (Cons p ps)
  let ?n = "iov_len p" and ?m = "memcpy m (buf - iov_len p) (iov_base p) (iov_len p)"
  have "v_sum ps \<le> buf - ?n" using Cons.prems(1) by simp
  moreover have "{buf - ?n - v_sum ps..<buf - ?n} \<inter> iov_region ps = {}"
    by (rule disjoint_mono [OF Cons.prems(2)]) auto
  ultimately obtain m' where m': "feed cb_copy_back (?m, buf - ?n) ps = Some (m', buf - ?n - v_sum ps)"
    "bytes_at m' (buf - ?n - v_sum ps) (v_sum ps) = iov_data ?m (rev ps)"
    "\<forall>a. a < buf - ?n - v_sum ps \<or> buf - ?n \<le> a \<longrightarrow> m' a = ?m a"
    using Cons.IH [of "buf - ?n" ?m] by blast
  have "bytes_at m' (buf - ?n) ?n = bytes_at ?m (buf - ?n) ?n" by (rule bytes_at_cong) (use m'(3) in simp)
  moreover have "iov_data ?m (rev ps) = iov_data m (rev ps)" by (rule iov_data_memcpy, rule disjoint_mono [OF Cons.prems(2)]) (use Cons.prems(1) in auto)
  moreover have "buf - (?n + v_sum ps) + v_sum ps = buf - ?n" using Cons.prems(1) by simp
  ultimately have "bytes_at m' (buf - (?n + v_sum ps)) (v_sum ps + ?n) = iov_data m (rev (p # ps))"
    using m'(2) by (simp add: bytes_at_add diff_diff_left)
  moreover have "m' a = m a" if "a < buf - (?n + v_sum ps) \<or> buf \<le> a" for a
    using m'(3) that Cons.prems(1) by (auto simp: memcpy_def)
  ultimately show ?case using m'(1) by (simp add: add.commute diff_diff_left)
qed simp

lemma do_extract_front_feed:
  "feed cb st (take_front n v) = Some st' \<Longrightarrow> 0 < n \<Longrightarrow>
     do_extract_front cb n st v = (Some (min n (v_sum v)), st', drop_front n v)"
  by (simp add: do_extract_front_def extract_front_loop_feed min_def)

lemma do_extract_back_feed:
  "feed cb st (take_back n (rev v)) = Some st' \<Longrightarrow> 0 < n \<Longrightarrow>
     do_extract_back cb n st v = (Some (min n (v_sum v)), st', rev (drop_back n (rev v)))"
  by (simp add: do_extract_back_def extract_back_loop_feed min_def)

subsection \<open>Copying\<close>

fun iov_disjoint :: "iovec list \<Rightarrow> bool" where
  "iov_disjoint [] \<longleftrightarrow> True"
| "iov_disjoint (x # xs) \<longleftrightarrow> {iov_base x..<iov_base x + iov_len x} \<inter> iov_region xs = {} \<and> iov_disjoint xs"

lemma advance_eq:
  assumes "n \<le> iov_len x" and "\<forall>y\<in>set xs. iov_base y \<noteq> 0"
  shows "iter_advance n (x # xs) = Some (drop_front n (x # xs))"
    and "src_advance n (x # xs) = Some (drop_front n (x # xs))"
  using assms by (auto simp: iter_advance_def src_advance_def neq_Nil_conv)

lemma drop_front_bases: "\<forall>y\<in>set v. iov_base y \<noteq> 0 \<Longrightarrow> \<forall>y\<in>set (drop_front n v). iov_base y \<noteq> 0"
  by (induction n v rule: drop_front.induct) (auto simp: iov_advance_def)

lemma drop_front_disjoint: "iov_disjoint v \<Longrightarrow> iov_disjoint (drop_front n v)"
proof (induction n v rule: drop_front.induct)
  case (2 n x xs)
  have "{iov_base x + n..<iov_base x + n + (iov_len x - n)} \<inter> iov_region xs = {}" if "n \<le> iov_len x"
    by (rule disjoint_mono [of "{iov_base x..<iov_base x + iov_len x}" "iov_region xs"]) (use 2 that in auto)
  then show ?case using 2 by (simp add: iov_advance_def)
qed simp

lemma drop_front_first:
  assumes "iov_disjoint (x # xs)" "n \<le> iov_len x"
  shows "{iov_base x..<iov_base x + n} \<inter> iov_region (drop_front n (x # xs)) = {}"
proof -
  have "{iov_base x..<iov_base x + n} \<inter> iov_region xs = {}"
    by (rule disjoint_mono [of "{iov_base x..<iov_base x + iov_len x}" "iov_region xs"]) (use assms in auto)
  then show ?thesis using assms(2) by (auto simp: iov_advance_def)
qed

lemma copy_pipe_step:
  assumes "sz \<noteq> 0" "k = min sz (min (iov_len df) (iov_len sf))"
    and "\<forall>y\<in>set (df # ds). iov_base y \<noteq> 0" "\<forall>y\<in>set (sf # ss). iov_base y \<noteq> 0"
  shows "copy_pipe_loop it sz (df # ds) (sf # ss) m =
    copy_pipe_loop it (sz - k) (drop_front k (df # ds)) (drop_front k (sf # ss)) (memcpy m (iov_base df) (iov_base sf) k)"
proof -
  have k: "k \<le> iov_len df" "k \<le> iov_len sf" using assms(2) by auto
  have "iter_advance k (df # ds) = Some (drop_front k (df # ds))" by (rule advance_eq) (use k assms in auto)
  moreover have "(if it then iter_advance k (sf # ss) else src_advance k (sf # ss)) = Some (drop_front k (sf # ss))"
    using advance_eq [OF k(2), of ss] assms by simp
  ultimately show ?thesis
    using assms(1) by (subst copy_pipe_loop.simps) (auto simp: Let_def simp flip: assms(2) simp del: drop_front.simps split: if_splits)
qed

lemma copy_pipe_loop_ok:
  assumes "\<forall>y\<in>set d. iov_base y \<noteq> 0" "\<forall>y\<in>set s. iov_base y \<noteq> 0" "iov_disjoint d" "iov_region d \<inter> iov_region s = {}"
    and n: "n = min sz (min (v_sum d) (v_sum s))"
  shows "\<exists>s' m'. copy_pipe_loop it sz d s m = Some (sz - n, s', m') \<and> iov_data m' s' = drop n (iov_data m s) \<and>
    iov_region s' \<subseteq> iov_region s \<and> iov_data m' d = take n (iov_data m s) @ drop n (iov_data m d) \<and>
    (\<forall>a. a \<notin> iov_region d \<longrightarrow> m' a = m a)"
  using assms
proof (induction "sz + length d + length s" arbitrary: sz d s m n rule: less_induct)
  case less
  consider "sz = 0 \<or> d = [] \<or> s = []" | df ds sf ss where "sz \<noteq> 0" "d = df # ds" "s = sf # ss"
    by (cases d; cases s) auto
  then show ?case
  proof cases
    case 1
    then have "copy_pipe_loop it sz d s m = Some (sz, s, m)" "n = 0"
      using less.prems(5) by (auto simp: copy_pipe_loop.simps split: list.splits)
    then show ?thesis by simp
  next
    case 2
    define k where "k = min sz (min (iov_len df) (iov_len sf))"
    let ?d = "drop_front k d" and ?s = "drop_front k s" and ?m = "memcpy m (iov_base df) (iov_base sf) k"
    have k: "k \<le> sz" "k \<le> iov_len df" "k \<le> iov_len sf" by (auto simp: k_def)
    have le: "length ?d \<le> length d" "length ?s \<le> length s" by (rule length_drop_front)+
    have "sz - k < sz \<or> length ?d < length d \<or> length ?s < length s"
      using 2 k by (cases "k = sz"; cases "k = iov_len df") (auto simp: k_def min_def split: if_splits)
    with le have meas: "sz - k + length ?d + length ?s < sz + length d + length s" using k(1) by linarith
    have disj: "iov_disjoint ?d" by (rule drop_front_disjoint [OF less.prems(3)])
    have sep: "iov_region ?d \<inter> iov_region ?s = {}"
      by (rule disjoint_mono [OF less.prems(4) drop_front_region drop_front_region])
    have first: "{iov_base df..<iov_base df + k} \<inter> iov_region ?d = {}"
      using drop_front_first [of df ds k] less.prems(3) k(2) 2(2) by simp
    have sub: "{iov_base df..<iov_base df + k} \<subseteq> iov_region d" using k(2) 2(2) by auto
    have ms: "iov_data ?m ?s = iov_data m ?s"
      by (rule iov_data_memcpy, rule disjoint_mono [OF less.prems(4) sub drop_front_region])
    have md: "iov_data ?m ?d = iov_data m ?d" by (rule iov_data_memcpy [OF first])
    have n': "n - k = min (sz - k) (min (v_sum ?d) (v_sum ?s))" using less.prems(5) by (simp add: min_diff)
    obtain s' m' where IH: "copy_pipe_loop it (sz - k) ?d ?s ?m = Some (sz - k - (n - k), s', m')"
      "iov_data m' s' = drop (n - k) (iov_data ?m ?s)" "iov_region s' \<subseteq> iov_region ?s"
      "iov_data m' ?d = take (n - k) (iov_data ?m ?s) @ drop (n - k) (iov_data ?m ?d)"
      "\<forall>a. a \<notin> iov_region ?d \<longrightarrow> m' a = ?m a"
      using less.hyps [OF meas drop_front_bases [OF less.prems(1)] drop_front_bases [OF less.prems(2)] disj sep n', of ?m]
      by blast
    have kn: "k \<le> n" using less.prems(5) 2(2,3) k by simp
    have nsum: "n \<le> v_sum d" "n \<le> v_sum s" using less.prems(5) by simp_all
    have "bytes_at m' (iov_base df) k = bytes_at ?m (iov_base df) k"
      by (rule bytes_at_cong) (use IH(5) first in auto)
    then have b: "bytes_at m' (iov_base df) k = take k (iov_data m s)" using 2(3) k(3) by (simp add: min_def)
    have "iov_data m' d = bytes_at m' (iov_base df) k @ iov_data m' ?d"
      using 2(2) k(2) bytes_at_add [of m' "iov_base df" k "iov_len df - k"] by (auto simp: iov_advance_def)
    also have "\<dots> = take k (iov_data m s) @ take (n - k) (drop k (iov_data m s)) @ drop (n - k) (drop k (iov_data m d))"
      unfolding b IH(4) ms md unfolding drop_front_data ..
    also have "\<dots> = take n (iov_data m s) @ drop n (iov_data m d)"
      using kn take_add [of k "n - k" "iov_data m s"] by simp
    finally have D: "iov_data m' d = take n (iov_data m s) @ drop n (iov_data m d)" .
    have "copy_pipe_loop it sz d s m = Some (sz - n, s', m')"
      using copy_pipe_step [OF 2(1) k_def, of ds ss it m] 2 IH(1) kn k(1) less.prems(1,2,5) by simp
    moreover have "iov_data m' s' = drop n (iov_data m s)" 
      unfolding IH(2) ms unfolding drop_front_data using kn by simp
    moreover have "iov_region s' \<subseteq> iov_region s" using IH(3) drop_front_region by blast
    moreover have "m' a = m a" if a: "a \<notin> iov_region d" for a
    proof -
      have "a \<notin> iov_region ?d" "a \<notin> {iov_base df..<iov_base df + k}" using a drop_front_region [of k d] sub by blast+
      then show ?thesis using IH(5) by (auto simp: memcpy_def)
    qed
    ultimately show ?thesis using D by blast
  qed
qed

subsection \<open>Properties\<close>

text \<open>Memory in which every address holds its own number, and a view of three buffers, for the witnesses.\<close>

definition demo_mem :: memory where
  "demo_mem a = of_nat a"

definition demo_view :: "iovec list" where
  "demo_view = [\<lparr>iov_base = 10, iov_len = 3\<rparr>, \<lparr>iov_base = 30, iov_len = 2\<rparr>, \<lparr>iov_base = 50, iov_len = 4\<rparr>]"

text \<open>
  Extracting bytes from the front of a view into a buffer that overlaps none of its entries copies the
  first bytes of the data to the buffer, leaves the rest of the data in the view, changes no other
  memory, and returns the number of bytes, which is less than asked for only when the view has fewer.
\<close>

theorem extract_front_buf_correct:
  assumes "{buf..<buf + n} \<inter> iov_region v = {}" and "k = min n (v_sum v)"
  shows "\<exists>m' v'. v_extract_front_buf n buf m v = (Some k, m', v') \<and> bytes_at m' buf k = take n (iov_data m v) \<and>
    iov_data m' v' = drop n (iov_data m v) \<and> (\<forall>a. a \<notin> {buf..<buf + k} \<longrightarrow> m' a = m a)"
proof (cases "n = 0")
  case False
  have dis: "{buf..<buf + v_sum (take_front n v)} \<inter> iov_region (take_front n v) = {}"
    by (rule disjoint_mono [OF assms(1) _ take_front_region]) auto
  obtain m' where m': "feed cb_copy (m, buf) (take_front n v) = Some (m', buf + k)"
    "bytes_at m' buf k = iov_data m (take_front n v)" "\<forall>a. a < buf \<or> buf + k \<le> a \<longrightarrow> m' a = m a"
    using feed_copy [OF dis, of m] assms(2) by auto
  have fr: "\<forall>a. a \<notin> {buf..<buf + k} \<longrightarrow> m' a = m a" using m'(3) by auto
  moreover have "{buf..<buf + k} \<inter> iov_region (drop_front n v) = {}"
    by (rule disjoint_mono [OF assms(1) _ drop_front_region]) (use assms(2) in auto)
  ultimately have "iov_data m' (drop_front n v) = iov_data m (drop_front n v)" by (rule iov_data_frame)
  moreover have "v_extract_front_buf n buf m v = (Some k, m', drop_front n v)"
    using do_extract_front_feed [OF m'(1)] False assms(2) by (simp add: v_extract_front_buf_def)
  moreover have "bytes_at m' buf k = take n (iov_data m v)" using m'(2) by (simp add: take_front_data)
  ultimately show ?thesis
    using fr by (intro exI [of _ m'] exI [of _ "drop_front n v"]) (simp add: drop_front_data)
qed (use assms in \<open>simp add: v_extract_front_buf_def do_extract_front_def\<close>)

theorem extract_front_buf_correct_witness:
  "\<exists>m' v'. v_extract_front_buf 4 100 demo_mem demo_view = (Some 4, m', v') \<and> bytes_at m' 100 4 = [10, 11, 12, 30] \<and>
    iov_data m' v' = [31, 50, 51, 52, 53]"
proof -
  have "iov_data demo_mem demo_view = [10, 11, 12, 30, 31, 50, 51, 52, 53]"
    by (simp add: demo_view_def bytes_at_def demo_mem_def upt_rec)
  moreover have "{100..<100 + 4} \<inter> iov_region demo_view = {}" "4 = min 4 (v_sum demo_view)"
    by (auto simp: demo_view_def)
  ultimately show ?thesis using extract_front_buf_correct [of 100 4 demo_view 4 demo_mem] by auto
qed

text \<open>
  Extracting bytes from the back into a buffer copies the last bytes of the data, in their order, to the
  end of the first \<open>n\<close> bytes of the buffer and leaves the rest in the view.
\<close>

theorem extract_back_buf_correct:
  assumes "{buf..<buf + n} \<inter> iov_region v = {}" and "k = min n (v_sum v)"
  shows "\<exists>m' v'. v_extract_back_buf n buf m v = (Some k, m', v') \<and>
    bytes_at m' (buf + (n - k)) k = drop (v_sum v - k) (iov_data m v) \<and>
    iov_data m' v' = take (v_sum v - k) (iov_data m v) \<and> (\<forall>a. a \<notin> {buf + (n - k)..<buf + n} \<longrightarrow> m' a = m a)"
proof (cases "n = 0")
  case False
  let ?ps = "take_back n (rev v)"
  have k: "v_sum ?ps = k" "k \<le> buf + n" "buf + n - k = buf + (n - k)" "v_sum v - n = v_sum v - k" using assms(2) by auto
  have dis: "{buf + n - v_sum ?ps..<buf + n} \<inter> iov_region ?ps = {}"
    by (rule disjoint_mono [OF assms(1)]) (use k take_back_region [of n "rev v"] in auto)
  obtain m' where m': "feed cb_copy_back (m, buf + n) ?ps = Some (m', buf + n - k)"
    "bytes_at m' (buf + n - k) k = iov_data m (rev ?ps)" "\<forall>a. a < buf + n - k \<or> buf + n \<le> a \<longrightarrow> m' a = m a"
    using feed_copy_back [OF _ dis, of m, unfolded k(1), OF k(2)] by blast
  have fr: "\<forall>a. a \<notin> {buf + (n - k)..<buf + n} \<longrightarrow> m' a = m a"
    using m'(3) unfolding k(3) atLeastLessThan_iff not_le not_less de_Morgan_conj by blast
  have reg: "iov_region (rev (drop_back n (rev v))) \<subseteq> iov_region v"
    using drop_back_region [of n "rev v"] by simp
  then have "{buf + (n - k)..<buf + n} \<inter> iov_region (rev (drop_back n (rev v))) = {}"
    by (rule disjoint_mono [OF assms(1), rotated]) auto
  then have "iov_data m' (rev (drop_back n (rev v))) = iov_data m (rev (drop_back n (rev v)))" by (rule iov_data_frame [OF fr])
  moreover have "v_extract_back_buf n buf m v = (Some k, m', rev (drop_back n (rev v)))"
    using do_extract_back_feed [OF m'(1)] False assms(2) by (simp add: v_extract_back_buf_def)
  moreover have "bytes_at m' (buf + (n - k)) k = drop (v_sum v - k) (iov_data m v)"
    using m'(2) k(3,4) by (simp add: take_back_data)
  ultimately show ?thesis
    using fr k(4) by (intro exI [of _ m'] exI [of _ "rev (drop_back n (rev v))"]) (simp add: drop_back_data)
qed (use assms in \<open>simp add: v_extract_back_buf_def do_extract_back_def\<close>)

theorem extract_back_buf_correct_witness:
  "\<exists>m' v'. v_extract_back_buf 5 100 demo_mem demo_view = (Some 5, m', v') \<and> bytes_at m' 100 5 = [31, 50, 51, 52, 53] \<and>
    iov_data m' v' = [10, 11, 12, 30]"
proof -
  have "iov_data demo_mem demo_view = [10, 11, 12, 30, 31, 50, 51, 52, 53]"
    by (simp add: demo_view_def bytes_at_def demo_mem_def upt_rec)
  moreover have "{100..<100 + 5} \<inter> iov_region demo_view = {}" "5 = min 5 (v_sum demo_view)" "v_sum demo_view = 9"
    by (auto simp: demo_view_def)
  ultimately show ?thesis using extract_back_buf_correct [of 100 5 demo_view 5 demo_mem] by auto
qed





end
