(* ===== verification/IO_Vector_Class.thy ===== *)
theory IO_Vector_Class
  imports IO_Vector
begin

text \<open>
  The class \<open>iovector\<close> of common/iovector.h: an array of \<open>capacity\<close> iovecs of which
  \<open>[iov_begin, iov_end)\<close> is in use, and the list of the buffers that it has allocated.  \<open>None\<close> is
  a failed assertion.  The entries outside the window have no meaning in the code: an entry that
  leaves the window keeps its content here.
\<close>

subsection \<open>State\<close>

record iovector =
  capacity :: nat
  iov_begin :: nat
  iov_end :: nat
  nbases :: nat
  iovs :: "iovec list"
  bases :: "nat list"

definition iov_do_assert :: "iovector \<Rightarrow> bool" where
  "iov_do_assert v \<longleftrightarrow> iov_begin v \<le> iov_end v \<and> iov_end v \<le> capacity v \<and> nbases v \<le> capacity v"

definition asserted :: "iovector \<Rightarrow> 'a \<Rightarrow> 'a option" where
  "asserted v x = (if iov_do_assert v then Some x else None)"

definition new_iovector :: "nat \<Rightarrow> nat \<Rightarrow> iovec list \<Rightarrow> iovector" where
  "new_iovector cap reserve_front mem =
     \<lparr>capacity = cap, iov_begin = reserve_front, iov_end = reserve_front, nbases = 0, iovs = mem, bases = []\<rparr>"

definition iov_view :: "iovector \<Rightarrow> iovec list" where
  "iov_view v = take (iov_end v - iov_begin v) (drop (iov_begin v) (iovs v))"

definition iov_front :: "iovector \<Rightarrow> iovec option" where
  "iov_front v = (if iov_do_assert v \<and> iov_begin v < length (iovs v) then Some (iovs v ! iov_begin v) else None)"

definition iov_back :: "iovector \<Rightarrow> iovec option" where
  "iov_back v = (if iov_do_assert v \<and> 0 < iov_end v then Some (iovs v ! (iov_end v - 1)) else None)"

definition iov_sum :: "iovector \<Rightarrow> nat option" where
  "iov_sum v = asserted v (v_sum (iov_view v))"

definition iovcnt :: "iovector \<Rightarrow> nat option" where
  "iovcnt v = asserted v (iov_end v - iov_begin v)"

definition front_free_iovcnt :: "iovector \<Rightarrow> nat option" where
  "front_free_iovcnt v = asserted v (iov_begin v)"

definition back_free_iovcnt :: "iovector \<Rightarrow> nat option" where
  "back_free_iovcnt v = asserted v (capacity v - iov_end v)"

definition iov_empty :: "iovector \<Rightarrow> bool option" where
  "iov_empty v = asserted v (iov_begin v \<ge> iov_end v)"

text \<open>The sum of the two 16-bit counters is reduced to 16 bits.\<close>

definition iov_resize :: "nat \<Rightarrow> iovector \<Rightarrow> iovector option" where
  "iov_resize nn v =
     (let e = (iov_begin v + nn) mod 65536 in if e \<le> capacity v then Some (v\<lparr>iov_end := e\<rparr>) else None)"

definition iov_nth :: "nat \<Rightarrow> iovector \<Rightarrow> iovec option" where
  "iov_nth i v =
     (if iov_do_assert v \<and> iov_begin v + i < iov_end v then Some (iovs v ! (iov_begin v + i)) else None)"

subsection \<open>Adding and removing entries\<close>

definition iov_push_front :: "iovec \<Rightarrow> iovector \<Rightarrow> (nat \<times> iovector) option" where
  "iov_push_front x v =
     asserted v (if iov_begin v > 0
                 then (iov_len x, v\<lparr>iov_begin := iov_begin v - 1, iovs := (iovs v)[iov_begin v - 1 := x]\<rparr>)
                 else (0, v))"

definition iov_push_back :: "iovec \<Rightarrow> iovector \<Rightarrow> (nat \<times> iovector) option" where
  "iov_push_back x v =
     asserted v (if iov_end v < capacity v
                 then (iov_len x, v\<lparr>iov_end := iov_end v + 1, iovs := (iovs v)[iov_end v := x]\<rparr>)
                 else (0, v))"

definition iov_pop_front :: "iovector \<Rightarrow> (nat \<times> iovector) option" where
  "iov_pop_front v =
     asserted v (if iov_begin v < iov_end v
                 then (iov_len (iovs v ! iov_begin v), v\<lparr>iov_begin := iov_begin v + 1\<rparr>)
                 else (0, v))"

definition iov_pop_back :: "iovector \<Rightarrow> (nat \<times> iovector) option" where
  "iov_pop_back v =
     asserted v (if iov_begin v < iov_end v
                 then (iov_len (iovs v ! (iov_end v - 1)), v\<lparr>iov_end := iov_end v - 1\<rparr>)
                 else (0, v))"

definition iov_clear :: "iovector \<Rightarrow> iovector option" where
  "iov_clear v = asserted v (v\<lparr>iov_end := iov_begin v\<rparr>)"

text \<open>Entries written over the array from position \<open>i\<close> on.\<close>

definition overwrite :: "nat \<Rightarrow> 'a list \<Rightarrow> 'a list \<Rightarrow> 'a list" where
  "overwrite i ys xs = take i xs @ ys @ drop (i + length ys) xs"

definition iov_assign :: "iovec list \<Rightarrow> iovector \<Rightarrow> iovector option" where
  "iov_assign xs v =
     (if length xs + iov_begin v < capacity v
      then map_option (\<lambda>v. v\<lparr>iovs := overwrite (iov_begin v) xs (iovs v), iov_end := iov_end v + length xs\<rparr>) (iov_clear v)
      else None)"

text \<open>
  The views that the operations below work on share the array; when the operation is done, the
  window is set from the view: its last entry stays where it was (\<open>put_front\<close>) or its first
  (\<open>put_back\<close>).
\<close>

definition put_front :: "iovec list \<Rightarrow> iovector \<Rightarrow> iovector" where
  "put_front va v =
     (let b = iov_end v - length va in v\<lparr>iov_begin := b, iovs := overwrite b va (iovs v)\<rparr>)"

definition put_back :: "iovec list \<Rightarrow> iovector \<Rightarrow> iovector" where
  "put_back va v =
     v\<lparr>iov_end := iov_begin v + length va, iovs := overwrite (iov_begin v) va (iovs v)\<rparr>"

definition iov_shrink_to :: "nat \<Rightarrow> iovector \<Rightarrow> (nat \<times> iovector) option" where
  "iov_shrink_to sz v =
     asserted v (let (ret, va) = v_shrink_to sz (iov_view v) in (ret, if ret = sz then put_back va v else v))"

definition iov_extract_front :: "nat \<Rightarrow> iovector \<Rightarrow> (nat option \<times> iovector) option" where
  "iov_extract_front bytes v =
     asserted v (let (ret, va) = v_extract_front bytes (iov_view v) in (ret, put_front va v))"

definition iov_extract_front_buf :: "nat \<Rightarrow> nat \<Rightarrow> memory \<Rightarrow> iovector \<Rightarrow> (nat option \<times> memory \<times> iovector) option" where
  "iov_extract_front_buf bytes buf m v =
     asserted v (let (ret, m', va) = v_extract_front_buf bytes buf m (iov_view v) in (ret, m', put_front va v))"

definition iov_extract_back :: "nat \<Rightarrow> iovector \<Rightarrow> (nat option \<times> iovector) option" where
  "iov_extract_back bytes v =
     asserted v (let (ret, va) = v_extract_back bytes (iov_view v) in (ret, put_back va v))"

definition iov_extract_back_buf :: "nat \<Rightarrow> nat \<Rightarrow> memory \<Rightarrow> iovector \<Rightarrow> (nat option \<times> memory \<times> iovector) option" where
  "iov_extract_back_buf bytes buf m v =
     asserted v (let (ret, m', va) = v_extract_back_buf bytes buf m (iov_view v) in (ret, m', put_back va v))"

text \<open>Extraction into another iovector, whose window is first resized to the number of entries of this one.\<close>

definition iov_extract_front_iov :: "nat \<Rightarrow> iovector \<Rightarrow> iovector \<Rightarrow> (nat option \<times> iovector \<times> iovector) option" where
  "iov_extract_front_iov bytes out v =
     (if bytes = 0 then Some (Some 0, out, v)
      else Option.bind (iovcnt v) (\<lambda>n. Option.bind (iov_resize n out) (\<lambda>out.
        asserted out (let (ret, vi, va) = v_extract_front_view bytes n (iov_view v)
                      in (ret, if ret = None then out else put_back vi out, put_front va v)))))"

definition iov_extract_back_iov :: "nat \<Rightarrow> iovector \<Rightarrow> iovector \<Rightarrow> (nat option \<times> iovector \<times> iovector) option" where
  "iov_extract_back_iov bytes out v =
     (if bytes = 0 then Some (Some 0, out, v)
      else Option.bind (iovcnt v) (\<lambda>n. Option.bind (iov_resize n out) (\<lambda>out.
        asserted out (let (ret, vi, va) = v_extract_back_view bytes n (iov_view v)
                      in (ret, if ret = None then out else put_front vi out, put_back va v)))))"

definition iov_pipe_to :: "iovec list \<Rightarrow> nat \<Rightarrow> iovector \<Rightarrow> memory \<Rightarrow> (nat \<times> iovector \<times> memory) option" where
  "iov_pipe_to d sz v m =
     (if iov_do_assert v
      then map_option (\<lambda>(n, va, m'). (n, put_front va v, m')) (copy_pipe_iov False d (iov_view v) sz m)
      else None)"

definition iov_memcpy_to :: "nat \<Rightarrow> nat \<Rightarrow> iovector \<Rightarrow> memory \<Rightarrow> (nat \<times> memory) option" where
  "iov_memcpy_to buf sz v m = (if iov_do_assert v then v_memcpy_to buf sz (iov_view v) m else None)"

definition iov_memcpy_from :: "nat \<Rightarrow> nat \<Rightarrow> iovector \<Rightarrow> memory \<Rightarrow> (nat \<times> memory) option" where
  "iov_memcpy_from buf sz v m = (if iov_do_assert v then v_memcpy_from buf sz (iov_view v) m else None)"

subsection \<open>Buffers of its own\<close>

text \<open>
  The allocator is a callback of the user with a state: given the least and the greatest size it
  returns the size and the address of a buffer.  Address 0 is null.
\<close>

type_synonym 'a allocate = "'a \<Rightarrow> int \<Rightarrow> int \<Rightarrow> 'a \<times> int \<times> nat"

definition INT_MAX :: nat where "INT_MAX = 2147483647"

definition do_allocate :: "'a allocate \<Rightarrow> int \<Rightarrow> int \<Rightarrow> 'a \<Rightarrow> iovector \<Rightarrow> nat \<times> int \<times> 'a \<times> iovector" where
  "do_allocate alloc size_min size_max a v =
     (if nbases v \<ge> capacity v then (0, size_max, a, v)
      else (let (a', ret, ptr) = alloc a size_min size_max
            in (ptr, ret, a', if ret \<ge> size_min then v\<lparr>nbases := nbases v + 1, bases := bases v @ [ptr]\<rparr> else v)))"

definition do_malloc :: "'a allocate \<Rightarrow> nat \<Rightarrow> 'a \<Rightarrow> iovector \<Rightarrow> (nat \<times> 'a \<times> iovector) option" where
  "do_malloc alloc sz a v =
     (if iov_do_assert v \<and> nbases v < capacity v \<and> sz \<le> INT_MAX
      then (let (ptr, _, a', v') = do_allocate alloc (int sz) (int sz) a v in Some (ptr, a', v'))
      else None)"

definition new_iovec :: "'a allocate \<Rightarrow> nat \<Rightarrow> 'a \<Rightarrow> iovector \<Rightarrow> (iovec \<times> 'a \<times> iovector) option" where
  "new_iovec alloc bytes a v =
     (if iov_do_assert v \<and> nbases v < capacity v
      then (let (ptr, sz, a', v') = do_allocate alloc 1 (int (min bytes INT_MAX)) a v
            in Some (if ptr \<noteq> 0 then \<lparr>iov_base = ptr, iov_len = nat (sz mod 2 ^ 64)\<rparr> else \<lparr>iov_base = 0, iov_len = 0\<rparr>, a', v'))
      else None)"

text \<open>Subtraction of 64-bit sizes, which wraps around.\<close>

definition size_sub :: "nat \<Rightarrow> nat \<Rightarrow> nat" where
  "size_sub x y = (if y \<le> x then x - y else x + 2 ^ 64 - y)"

lemma do_allocate_frame:
  "do_allocate alloc l u a v = (ptr, sz, a', v') \<Longrightarrow>
     iov_begin v' = iov_begin v \<and> iov_end v' = iov_end v \<and> capacity v' = capacity v \<and> iovs v' = iovs v"
  by (auto simp: do_allocate_def split: if_splits prod.splits)

lemma new_iovec_frame:
  "new_iovec alloc bytes a v = Some (x, a', v') \<Longrightarrow>
     iov_begin v' = iov_begin v \<and> iov_end v' = iov_end v \<and> capacity v' = capacity v \<and> iovs v' = iovs v"
  by (auto simp: new_iovec_def dest: do_allocate_frame split: if_splits prod.splits)

function push_front_more :: "'a allocate \<Rightarrow> nat \<Rightarrow> 'a \<Rightarrow> iovector \<Rightarrow> (nat \<times> 'a \<times> iovector) option" where
  "push_front_more alloc bytes a v =
     (if bytes = 0 \<or> iov_begin v = 0 then Some (bytes, a, v)
      else case new_iovec alloc bytes a v of
        None \<Rightarrow> None
      | Some (x, a', v') \<Rightarrow>
          (if iov_len x = 0 then Some (bytes, a', v')
           else case iov_push_front x v' of
             None \<Rightarrow> None
           | Some (_, v'') \<Rightarrow> push_front_more alloc (size_sub bytes (iov_len x)) a' v''))"
  by pat_completeness auto
termination
  by (relation "measure (\<lambda>(alloc, bytes, a, v). iov_begin v)")
    (auto simp: iov_push_front_def asserted_def dest!: new_iovec_frame split: if_splits)

function push_back_more :: "'a allocate \<Rightarrow> nat \<Rightarrow> 'a \<Rightarrow> iovector \<Rightarrow> (nat \<times> 'a \<times> iovector) option" where
  "push_back_more alloc bytes a v =
     (if bytes = 0 \<or> iov_end v \<ge> capacity v then Some (bytes, a, v)
      else case new_iovec alloc bytes a v of
        None \<Rightarrow> None
      | Some (x, a', v') \<Rightarrow>
          (if iov_len x = 0 then Some (bytes, a', v')
           else case iov_push_back x v' of
             None \<Rightarrow> None
           | Some (_, v'') \<Rightarrow> push_back_more alloc (size_sub bytes (iov_len x)) a' v''))"
  by pat_completeness auto
termination
  by (relation "measure (\<lambda>(alloc, bytes, a, v). capacity v - iov_end v)")
    (auto simp: iov_push_back_def asserted_def dest!: new_iovec_frame split: if_splits)

declare push_front_more.simps [simp del] push_back_more.simps [simp del]

text \<open>\<open>push_front(size_t)\<close> and \<open>push_back(size_t)\<close>: the result is the number of bytes they say they pushed.\<close>

definition push_front_bytes :: "'a allocate \<Rightarrow> nat \<Rightarrow> 'a \<Rightarrow> iovector \<Rightarrow> (nat \<times> 'a \<times> iovector) option" where
  "push_front_bytes alloc bytes a v =
     Option.bind (new_iovec alloc bytes a v) (\<lambda>(x, a', v').
       if iov_len x = 0 then Some (0, a', v')
       else Option.bind (iov_push_front x v') (\<lambda>(r, v'').
         if r = bytes then Some (bytes, a', v'')
         else map_option (\<lambda>(rem, a'', w). (iov_len x + size_sub (size_sub bytes (iov_len x)) rem, a'', w))
                (push_front_more alloc (size_sub bytes (iov_len x)) a' v'')))"

definition push_back_bytes :: "'a allocate \<Rightarrow> nat \<Rightarrow> 'a \<Rightarrow> iovector \<Rightarrow> (nat \<times> 'a \<times> iovector) option" where
  "push_back_bytes alloc bytes a v =
     Option.bind (new_iovec alloc bytes a v) (\<lambda>(x, a', v').
       if iov_len x = 0 then Some (0, a', v')
       else Option.bind (iov_push_back x v') (\<lambda>(r, v'').
         if r = bytes then Some (bytes, a', v'')
         else map_option (\<lambda>(rem, a'', w). (iov_len x + size_sub (size_sub bytes (iov_len x)) rem, a'', w))
                (push_back_more alloc (size_sub bytes (iov_len x)) a' v'')))"

definition iov_truncate :: "'a allocate \<Rightarrow> nat \<Rightarrow> 'a \<Rightarrow> iovector \<Rightarrow> (nat \<times> 'a \<times> iovector) option" where
  "iov_truncate alloc sz a v =
     Option.bind (iov_sum v) (\<lambda>total.
       if sz = total then Some (sz, a, v)
       else Option.bind (iov_shrink_to sz v) (\<lambda>(ret, v').
         if ret = sz then Some (sz, a, v')
         else map_option (\<lambda>(n, a', v''). (ret + n, a', v'')) (push_back_bytes alloc (sz - ret) a v')))"

text \<open>Continuous extraction copies to a new buffer when the first (last) entry is too short; an
  entry at address null is taken as a failed precondition.\<close>

definition iov_extract_front_continuous ::
    "'a allocate \<Rightarrow> nat \<Rightarrow> 'a \<Rightarrow> memory \<Rightarrow> iovector \<Rightarrow> (nat \<times> 'a \<times> memory \<times> iovector) option" where
  "iov_extract_front_continuous alloc bytes a m v =
     (if \<not> iov_do_assert v then None
      else case v_extract_front_continuous bytes (iov_view v) of
        (Some ptr, va) \<Rightarrow>
          (if ptr \<noteq> 0 then Some (ptr, a, m, put_front va v)
           else None)
      | (None, va) \<Rightarrow>
          (if v_sum va < bytes then Some (0, a, m, v)
           else Option.bind (do_malloc alloc bytes a v) (\<lambda>(buf, a', v').
             if buf = 0 then Some (0, a', m, v')
             else map_option (\<lambda>(_, m', v''). (buf, a', m', v'')) (iov_extract_front_buf bytes buf m v'))))"

definition iov_extract_back_continuous ::
    "'a allocate \<Rightarrow> nat \<Rightarrow> 'a \<Rightarrow> memory \<Rightarrow> iovector \<Rightarrow> (nat \<times> 'a \<times> memory \<times> iovector) option" where
  "iov_extract_back_continuous alloc bytes a m v =
     (if \<not> iov_do_assert v then None
      else case v_extract_back_continuous bytes (iov_view v) of
        (Some ptr, va) \<Rightarrow>
          (if ptr \<noteq> 0 then Some (ptr, a, m, put_back va v)
           else None)
      | (None, va) \<Rightarrow>
          (if v_sum va < bytes then Some (0, a, m, v)
           else Option.bind (do_malloc alloc bytes a v) (\<lambda>(buf, a', v').
             if buf = 0 then Some (0, a', m, v')
             else map_option (\<lambda>(_, m', v''). (buf, a', m', v'')) (iov_extract_back_buf bytes buf m v'))))"

text \<open>Extraction into a view: an empty output view gets an array of its own, as long as this window.\<close>

definition out_array :: "'a allocate \<Rightarrow> nat \<Rightarrow> 'a \<Rightarrow> iovector \<Rightarrow> (nat \<times> 'a \<times> iovector) option" where
  "out_array alloc N a v =
     (if N \<noteq> 0 then Some (N, a, v)
      else Option.bind (iovcnt v) (\<lambda>n. map_option (\<lambda>(ptr, a', v'). (if ptr = 0 then 0 else n, a', v')) (do_malloc alloc (n * 16) a v)))"

definition iov_extract_front_view ::
    "'a allocate \<Rightarrow> nat \<Rightarrow> nat \<Rightarrow> 'a \<Rightarrow> iovector \<Rightarrow> (nat option \<times> iovec list \<times> 'a \<times> iovector) option" where
  "iov_extract_front_view alloc bytes N a v =
     (if bytes = 0 then Some (Some 0, [], a, v)
      else Option.bind (out_array alloc N a v) (\<lambda>(N', a', v').
        if N' = 0 then Some (None, [], a', v')
        else asserted v' (let (ret, out, va) = v_extract_front_view bytes N' (iov_view v') in (ret, out, a', put_front va v'))))"

definition iov_extract_back_view ::
    "'a allocate \<Rightarrow> nat \<Rightarrow> nat \<Rightarrow> 'a \<Rightarrow> iovector \<Rightarrow> (nat option \<times> iovec list \<times> 'a \<times> iovector) option" where
  "iov_extract_back_view alloc bytes N a v =
     (if bytes = 0 then Some (Some 0, [], a, v)
      else Option.bind (out_array alloc N a v) (\<lambda>(N', a', v').
        if N' = 0 then Some (None, [], a', v')
        else asserted v' (let (ret, out, va) = v_extract_back_view bytes N' (iov_view v') in (ret, out, a', put_back va v'))))"

definition iov_slice :: "'a allocate \<Rightarrow> nat \<Rightarrow> int \<Rightarrow> nat \<Rightarrow> 'a \<Rightarrow> iovector \<Rightarrow> (nat \<times> iovec list \<times> 'a \<times> iovector) option" where
  "iov_slice alloc count offset cap a v =
     (if count = 0 then Some (0, [], a, v)
      else if cap \<noteq> 0
      then map_option (\<lambda>(r, out). (r, out, a, v)) (v_slice count offset cap (iov_view v))
      else Option.bind (iovcnt v) (\<lambda>n. Option.bind (do_malloc alloc (n * 16) a v) (\<lambda>(ptr, a', v').
             if ptr = 0 then Some (0, [], a', v')
             else case v_slice count offset n (iov_view v') of
                    None \<Rightarrow> None
                  | Some (r, out) \<Rightarrow> Some (r, out, a', v'))))"

text \<open>\<open>dispose\<close> gives all buffers back; the result lists them in the order in which they are freed.\<close>

definition iov_dispose :: "iovector \<Rightarrow> (nat list \<times> iovector) option" where
  "iov_dispose v = asserted v (take (nbases v) (bases v), v\<lparr>nbases := 0, bases := [], iov_end := iov_begin v\<rparr>)"

text \<open>Move assignment: the entries and the buffers go over to the target, which first frees its own.\<close>

definition iov_move_assign :: "iovector \<Rightarrow> iovector \<Rightarrow> (nat list \<times> iovector \<times> iovector) option" where
  "iov_move_assign rhs v =
     (if \<not> iov_do_assert v \<or> \<not> iov_do_assert rhs then None
      else let e = iov_begin v + (iov_end rhs - iov_begin rhs)
      in if e > capacity v then Some ([], v, rhs)
      else map_option (\<lambda>(freed, v').
             (freed,
              v'\<lparr>iov_end := e, iovs := overwrite (iov_begin v') (iov_view rhs) (iovs v'),
                 bases := take (nbases rhs) (bases rhs), nbases := nbases rhs\<rparr>,
              rhs\<lparr>nbases := 0, bases := [], iov_end := iov_begin rhs\<rparr>)) (iov_dispose v))"

subsection \<open>The invariant\<close>

definition iov_inv :: "iovector \<Rightarrow> bool" where
  "iov_inv v \<longleftrightarrow> iov_do_assert v \<and> length (iovs v) = capacity v \<and> length (bases v) = nbases v \<and> capacity v < 65536"

lemma iov_invD [dest]:
  "iov_inv v \<Longrightarrow> iov_begin v \<le> iov_end v \<and> iov_end v \<le> capacity v \<and> nbases v \<le> capacity v \<and>
     length (iovs v) = capacity v \<and> length (bases v) = nbases v \<and> iov_do_assert v"
  by (simp add: iov_inv_def iov_do_assert_def)

lemma length_overwrite: "i + length ys \<le> length xs \<Longrightarrow> length (overwrite i ys xs) = length xs"
  by (simp add: overwrite_def)

lemma window_overwrite: "i + length ys \<le> length xs \<Longrightarrow> take (length ys) (drop i (overwrite i ys xs)) = ys"
  by (simp add: overwrite_def)

lemma length_iov_view: "iov_inv v \<Longrightarrow> length (iov_view v) = iov_end v - iov_begin v"
  by (auto simp: iov_view_def dest!: iov_invD)

lemma put_back_ok:
  assumes "iov_inv v" "iov_begin v + length va \<le> capacity v"
  shows "iov_inv (put_back va v)" "iov_view (put_back va v) = va"
  using assms window_overwrite [of "iov_begin v" va "iovs v"]
  by (auto simp: iov_inv_def iov_do_assert_def put_back_def iov_view_def length_overwrite)

lemma put_front_ok:
  assumes "iov_inv v" "length va \<le> iov_end v"
  shows "iov_inv (put_front va v)" "iov_view (put_front va v) = va"
  using assms window_overwrite [of "iov_end v - length va" va "iovs v"]
  by (auto simp: iov_inv_def iov_do_assert_def put_front_def iov_view_def length_overwrite Let_def)

lemma put_view_ok:
  assumes "iov_inv v" "length va \<le> length (iov_view v)"
  shows "iov_inv (put_back va v)" "iov_view (put_back va v) = va" "iov_inv (put_front va v)" "iov_view (put_front va v) = va"
proof -
  have "iov_begin v + length va \<le> capacity v" "length va \<le> iov_end v"
    using assms length_iov_view [OF assms(1)] iov_invD [OF assms(1)] by auto
  then show "iov_inv (put_back va v)" "iov_view (put_back va v) = va" "iov_inv (put_front va v)" "iov_view (put_front va v) = va"
    using put_back_ok [OF assms(1)] put_front_ok [OF assms(1)] by auto
qed

lemma shrink_to_loop_take:
  "shrink_to_loop n v = (ys, r) \<Longrightarrow> iov_data m ys = take n (iov_data m v) \<and> r = n - v_sum v \<and> length ys \<le> length v"
  by (induction n v arbitrary: ys r rule: shrink_to_loop.induct) (auto split: if_splits prod.splits)

lemma v_shrink_to_ok:
  "v_shrink_to n v = (ret, ys) \<Longrightarrow> iov_data m ys = take n (iov_data m v) \<and> ret = min n (v_sum v) \<and> length ys \<le> length v"
  using shrink_to_loop_take [of n v _ _ m] by (auto simp: v_shrink_to_def min_def split: if_splits prod.splits)

text \<open>Entries are added and removed at the ends of the window.\<close>

lemma push_back_view:
  assumes "iov_inv v" "iov_end v < capacity v"
  shows "\<exists>v'. iov_push_back x v = Some (iov_len x, v') \<and> iov_inv v' \<and> iov_view v' = iov_view v @ [x] \<and>
    iov_begin v' = iov_begin v \<and> capacity v' = capacity v"
proof -
  let ?v = "v\<lparr>iov_end := iov_end v + 1, iovs := (iovs v)[iov_end v := x]\<rparr>"
  have "iov_view ?v = iov_view v @ [x]"
    using iov_invD [OF assms(1)] assms(2)
    by (intro nth_equalityI) (auto simp: iov_view_def nth_append nth_list_update less_Suc_eq)
  then show ?thesis using assms by (auto simp: iov_push_back_def asserted_def iov_inv_def iov_do_assert_def)
qed

lemma push_front_view:
  assumes "iov_inv v" "0 < iov_begin v"
  shows "\<exists>v'. iov_push_front x v = Some (iov_len x, v') \<and> iov_inv v' \<and> iov_view v' = x # iov_view v \<and>
    iov_begin v' = iov_begin v - 1 \<and> capacity v' = capacity v"
proof -
  let ?v = "v\<lparr>iov_begin := iov_begin v - 1, iovs := (iovs v)[iov_begin v - 1 := x]\<rparr>"
  have "iov_view ?v = x # iov_view v"
    using iov_invD [OF assms(1)] assms(2)
    by (intro nth_equalityI) (auto simp: iov_view_def nth_Cons nth_list_update split: nat.splits)
  then show ?thesis using assms by (auto simp: iov_push_front_def asserted_def iov_inv_def iov_do_assert_def)
qed

lemma pop_front_view:
  assumes "iov_inv v" "iov_view v = x # xs"
  shows "\<exists>v'. iov_pop_front v = Some (iov_len x, v') \<and> iov_inv v' \<and> iov_view v' = xs \<and>
    iov_begin v' = Suc (iov_begin v) \<and> capacity v' = capacity v"
proof -
  have l: "iov_end v - iov_begin v = Suc (length xs)" using length_iov_view [OF assms(1)] assms(2) by simp
  then have "iov_begin v < length (iovs v)" using iov_invD [OF assms(1)] by linarith
  from Cons_nth_drop_Suc [OF this] have "iov_view v = iovs v ! iov_begin v # take (length xs) (drop (Suc (iov_begin v)) (iovs v))"
    using l by (simp add: iov_view_def) (metis take_Suc_Cons)
  moreover have "iov_end v - Suc (iov_begin v) = length xs" using l by simp
  ultimately show ?thesis
    using assms l by (auto simp: iov_pop_front_def asserted_def iov_inv_def iov_do_assert_def iov_view_def)
qed

lemma pop_back_view:
  assumes "iov_inv v" "iov_view v = xs @ [x]"
  shows "\<exists>v'. iov_pop_back v = Some (iov_len x, v') \<and> iov_inv v' \<and> iov_view v' = xs \<and>
    iov_begin v' = iov_begin v \<and> capacity v' = capacity v"
proof -
  have l: "iov_end v - iov_begin v = Suc (length xs)" using length_iov_view [OF assms(1)] assms(2) by simp
  have "length xs < length (drop (iov_begin v) (iovs v))" using iov_invD [OF assms(1)] l by auto
  from take_Suc_conv_app_nth [OF this] have "iov_view v = take (length xs) (drop (iov_begin v) (iovs v)) @ [iovs v ! (iov_begin v + length xs)]"
    using l iov_invD [OF assms(1)] by (simp add: iov_view_def nth_drop)
  moreover have "iov_end v - 1 = iov_begin v + length xs" using l by simp
  ultimately show ?thesis
    using assms l by (auto simp: iov_pop_back_def asserted_def iov_inv_def iov_do_assert_def iov_view_def)
qed

lemma v_extract_front_eq: "v_extract_front n v = (Some (min n (v_sum v)), if n = 0 then v else drop_front n v)"
  using do_extract_front_feed [of cb_drop "()" n v "()"]
  by (cases "n = 0") (simp_all add: v_extract_front_def do_extract_front_def [of _ 0])

lemma v_extract_back_eq: "v_extract_back n v = (Some (min n (v_sum v)), if n = 0 then v else rev (drop_back n (rev v)))"
  using do_extract_back_feed [of cb_drop "()" n v "()"]
  by (cases "n = 0") (simp_all add: v_extract_back_def do_extract_back_def [of _ 0])

subsection \<open>The iovector as a bounded queue of buffers\<close>

datatype iov_op = Push_front iovec | Push_back iovec | Pop_front | Pop_back | Clear
  | Extract_front nat | Extract_back nat | Shrink_to nat

fun iov_step :: "iov_op \<Rightarrow> iovector \<Rightarrow> (iovector \<times> nat) option" where
  "iov_step (Push_front x) v = map_option (\<lambda>(r, v'). (v', r)) (iov_push_front x v)"
| "iov_step (Push_back x) v = map_option (\<lambda>(r, v'). (v', r)) (iov_push_back x v)"
| "iov_step Pop_front v = map_option (\<lambda>(r, v'). (v', r)) (iov_pop_front v)"
| "iov_step Pop_back v = map_option (\<lambda>(r, v'). (v', r)) (iov_pop_back v)"
| "iov_step Clear v = map_option (\<lambda>v'. (v', 0)) (iov_clear v)"
| "iov_step (Extract_front n) v =
     (case iov_extract_front n v of Some (Some r, v') \<Rightarrow> Some (v', r) | _ \<Rightarrow> None)"
| "iov_step (Extract_back n) v =
     (case iov_extract_back n v of Some (Some r, v') \<Rightarrow> Some (v', r) | _ \<Rightarrow> None)"
| "iov_step (Shrink_to n) v = map_option (\<lambda>(r, v'). (v', r)) (iov_shrink_to n v)"

text \<open>The abstract state: the capacity, the free entries in front, and the list of the buffers.\<close>

fun abs_iov_step :: "iov_op \<Rightarrow> nat \<times> nat \<times> iovec list \<Rightarrow> (nat \<times> nat \<times> iovec list) \<times> nat" where
  "abs_iov_step (Push_front x) (cap, f, xs) = (if f = 0 then ((cap, f, xs), 0) else ((cap, f - 1, x # xs), iov_len x))"
| "abs_iov_step (Push_back x) (cap, f, xs) =
     (if f + length xs < cap then ((cap, f, xs @ [x]), iov_len x) else ((cap, f, xs), 0))"
| "abs_iov_step Pop_front (cap, f, xs) =
     (if xs = [] then ((cap, f, xs), 0) else ((cap, Suc f, tl xs), iov_len (hd xs)))"
| "abs_iov_step Pop_back (cap, f, xs) =
     (if xs = [] then ((cap, f, xs), 0) else ((cap, f, butlast xs), iov_len (last xs)))"
| "abs_iov_step Clear (cap, f, xs) = ((cap, f, []), 0)"
| "abs_iov_step (Extract_front n) (cap, f, xs) =
     (let ys = (if n = 0 then xs else drop_front n xs) in ((cap, f + (length xs - length ys), ys), min n (v_sum xs)))"
| "abs_iov_step (Extract_back n) (cap, f, xs) =
     ((cap, f, if n = 0 then xs else rev (drop_back n (rev xs))), min n (v_sum xs))"
| "abs_iov_step (Shrink_to n) (cap, f, xs) =
     ((cap, f, if n \<le> v_sum xs then snd (v_shrink_to n xs) else xs), min n (v_sum xs))"

definition iov_rel :: "iovector \<Rightarrow> nat \<times> nat \<times> iovec list \<Rightarrow> bool" where
  "iov_rel v x \<longleftrightarrow> iov_inv v \<and> x = (capacity v, iov_begin v, iov_view v)"

lemma put_frame [simp]: "capacity (put_back va v) = capacity v" "iov_begin (put_back va v) = iov_begin v"
  "capacity (put_front va v) = capacity v" "iov_begin (put_front va v) = iov_end v - length va"
  by (simp_all add: put_back_def put_front_def Let_def)

lemma iov_step_refines:
  assumes "iov_rel v x"
  shows "\<exists>v'. iov_step a v = Some (v', snd (abs_iov_step a x)) \<and> iov_rel v' (fst (abs_iov_step a x))"
proof -
  have I: "iov_inv v" and x: "x = (capacity v, iov_begin v, iov_view v)" using assms by (simp_all add: iov_rel_def)
  note D = iov_invD [OF I] and L = length_iov_view [OF I]
  have E: "iov_view v = [] \<longleftrightarrow> \<not> iov_begin v < iov_end v" using D L by (auto simp flip: length_0_conv)
  show ?thesis
  proof (cases a)
    case (Push_front y)
    show ?thesis
    proof (cases "iov_begin v = 0")
      case False
      then obtain v' where "iov_push_front y v = Some (iov_len y, v')" "iov_inv v'" "iov_view v' = y # iov_view v"
        "iov_begin v' = iov_begin v - 1" "capacity v' = capacity v" using push_front_view [OF I, of y] by blast
      then show ?thesis using Push_front x False by (simp add: iov_rel_def)
    qed (use Push_front x I D in \<open>simp add: iov_rel_def iov_push_front_def asserted_def\<close>)
  next
    case (Push_back y)
    have e: "iov_begin v + length (iov_view v) = iov_end v" using D L by simp
    show ?thesis
    proof (cases "iov_end v < capacity v")
      case True
      then obtain v' where "iov_push_back y v = Some (iov_len y, v')" "iov_inv v'" "iov_view v' = iov_view v @ [y]"
        "iov_begin v' = iov_begin v" "capacity v' = capacity v" using push_back_view [OF I, of y] by blast
      then show ?thesis using Push_back x True e by (simp add: iov_rel_def)
    qed (use Push_back x I D e in \<open>simp add: iov_rel_def iov_push_back_def asserted_def\<close>)
  next
    case Pop_front
    show ?thesis
    proof (cases "iov_view v")
      case (Cons y ys)
      then obtain v' where "iov_pop_front v = Some (iov_len y, v')" "iov_inv v'" "iov_view v' = ys"
        "iov_begin v' = Suc (iov_begin v)" "capacity v' = capacity v" using pop_front_view [OF I] by blast
      then show ?thesis using Pop_front x Cons by (simp add: iov_rel_def)
    qed (use Pop_front x I D E in \<open>simp add: iov_rel_def iov_pop_front_def asserted_def\<close>)
  next
    case Pop_back
    show ?thesis
    proof (cases "iov_view v" rule: rev_cases)
      case (snoc ys y)
      then obtain v' where "iov_pop_back v = Some (iov_len y, v')" "iov_inv v'" "iov_view v' = ys"
        "iov_begin v' = iov_begin v" "capacity v' = capacity v" using pop_back_view [OF I] by blast
      then show ?thesis using Pop_back x snoc by (simp add: iov_rel_def)
    qed (use Pop_back x I D E in \<open>simp add: iov_rel_def iov_pop_back_def asserted_def\<close>)
  next
    case Clear
    then show ?thesis using x I D by (auto simp: iov_clear_def asserted_def iov_rel_def iov_inv_def iov_do_assert_def iov_view_def)
  next
    case (Extract_front n)
    let ?va = "if n = 0 then iov_view v else drop_front n (iov_view v)"
    have le: "length ?va \<le> length (iov_view v)" using length_drop_front by simp
    moreover have "iov_end v = iov_begin v + length (iov_view v)" using D L by simp
    ultimately have "iov_end v - length ?va = iov_begin v + (length (iov_view v) - length ?va)" by linarith
    then show ?thesis using Extract_front put_view_ok(3,4) [OF I le] x D
      by (simp add: iov_extract_front_def asserted_def v_extract_front_eq iov_rel_def Let_def)
  next
    case (Extract_back n)
    let ?va = "if n = 0 then iov_view v else rev (drop_back n (rev (iov_view v)))"
    have le: "length ?va \<le> length (iov_view v)" using length_drop_back [of n "rev (iov_view v)"] by simp
    then show ?thesis using Extract_back put_view_ok [OF I le] x D
      by (simp add: iov_extract_back_def asserted_def v_extract_back_eq iov_rel_def)
  next
    case (Shrink_to n)
    obtain ret va where va: "v_shrink_to n (iov_view v) = (ret, va)" by fastforce
    note ok = v_shrink_to_ok [OF va]
    then show ?thesis using Shrink_to va put_view_ok(1,2) [OF I, of va] x D I
      by (auto simp: iov_shrink_to_def asserted_def iov_rel_def min_def)
  qed
qed

interpretation iovq: data_refinement iov_rel iov_step abs_iov_step "\<lambda>_ _. True"
  by unfold_locales (rule iov_step_refines)

subsection \<open>Properties\<close>

lemma iov_rel_new: "reserve \<le> cap \<Longrightarrow> cap < 65536 \<Longrightarrow> length mem = cap \<Longrightarrow> iov_rel (new_iovector cap reserve mem) (cap, reserve, [])"
  by (simp add: iov_rel_def iov_inv_def iov_do_assert_def new_iovector_def iov_view_def)

text \<open>
  C15: Any sequence of pushes, pops, extractions and shrinkings on a new iovector behaves as the same
  operations on a bounded list of buffers with room in front: the array indices stay in range, no
  assertion fails, the returned byte counts and the resulting window are those of the list, and the
  invariant that every operation asserts holds at the end.
\<close>

theorem iovector_refines_list:
  assumes "reserve \<le> cap" "cap < 65536" "length mem = cap"
  shows "\<exists>v'. run iov_step oprs (new_iovector cap reserve mem) = Some (v', snd (arun abs_iov_step oprs (cap, reserve, []))) \<and>
    iov_do_assert v' \<and> (cap, iov_begin v', iov_view v') = fst (arun abs_iov_step oprs (cap, reserve, []))"
proof -
  have "runnable (\<lambda>_ _. True) abs_iov_step oprs x" for x by (induction oprs arbitrary: x) simp_all
  from iovq.run_refines [OF iov_rel_new [OF assms] this [of "(cap, reserve, [])"]] obtain v' where
    v': "run iov_step oprs (new_iovector cap reserve mem) = Some (v', snd (arun abs_iov_step oprs (cap, reserve, [])))"
    "iov_rel v' (fst (arun abs_iov_step oprs (cap, reserve, [])))" by blast
  have "fst (arun abs_iov_step oprs (c, f, xs)) = (c, snd (fst (arun abs_iov_step oprs (c, f, xs))))" for c f xs
  proof (induction oprs arbitrary: f xs)
    case (Cons a as)
    have "fst (fst (abs_iov_step a (c, f, xs))) = c" by (cases a) (auto simp: Let_def)
    then obtain f' xs' r where "abs_iov_step a (c, f, xs) = ((c, f', xs'), r)" by (metis prod.collapse)
    then show ?case using Cons [of f' xs'] by (simp add: case_prod_beta)
  qed simp
  from this [of cap reserve "[]"] v'(2) have "iov_do_assert v'"
    "(cap, iov_begin v', iov_view v') = fst (arun abs_iov_step oprs (cap, reserve, []))"
    unfolding iov_rel_def iov_inv_def by (metis prod.inject)+
  with v'(1) show ?thesis by blast
qed

theorem iovector_refines_list_witness:
  "\<exists>v'. run iov_step [Push_back \<lparr>iov_base = 10, iov_len = 4\<rparr>, Push_front \<lparr>iov_base = 20, iov_len = 3\<rparr>, Extract_front 5, Pop_back]
      (new_iovector 4 1 (replicate 4 \<lparr>iov_base = 0, iov_len = 0\<rparr>)) = Some (v', [4, 3, 5, 2]) \<and>
    iov_do_assert v' \<and> (4, iov_begin v', iov_view v') = (4, 1, [])"
  using iovector_refines_list [of 1 4 "replicate 4 \<lparr>iov_base = 0, iov_len = 0\<rparr>"
      "[Push_back \<lparr>iov_base = 10, iov_len = 4\<rparr>, Push_front \<lparr>iov_base = 20, iov_len = 3\<rparr>, Extract_front 5, Pop_back]"]
  by (simp add: iov_advance_def)

text \<open>
  On an iovector whose array is full at the back, \<open>push_back(bytes)\<close> allocates a buffer, fails to store it, and
  still returns the number of bytes as if they had been pushed.
\<close>

theorem push_back_bytes_full:
  assumes "iov_inv v" "iov_end v = capacity v" "nbases v < capacity v" "0 < bytes" "bytes \<le> INT_MAX"
    and "alloc a 1 (int bytes) = (a', int bytes, ptr)" "ptr \<noteq> 0"
  shows "\<exists>v'. push_back_bytes alloc bytes a v = Some (bytes, a', v') \<and> iov_view v' = iov_view v"
proof -
  let ?v = "v\<lparr>nbases := nbases v + 1, bases := bases v @ [ptr]\<rparr>"
  have "new_iovec alloc bytes a v = Some (\<lparr>iov_base = ptr, iov_len = bytes\<rparr>, a', ?v)"
    using assms iov_invD [OF assms(1)] by (simp add: new_iovec_def do_allocate_def INT_MAX_def nat_mod_distrib min_def)
  moreover have "iov_push_back \<lparr>iov_base = ptr, iov_len = bytes\<rparr> ?v = Some (0, ?v)"
    using assms iov_invD [OF assms(1)] by (simp add: iov_push_back_def asserted_def iov_do_assert_def)
  ultimately show ?thesis
    using assms(4) by (simp add: push_back_bytes_def push_back_more.simps size_sub_def iov_view_def)
qed

theorem push_back_bytes_full_witness:
  "\<exists>v'. push_back_bytes (\<lambda>a l u. (a, u, 4096)) 8 ()
      \<lparr>capacity = 1, iov_begin = 0, iov_end = 1, nbases = 0, iovs = [\<lparr>iov_base = 10, iov_len = 4\<rparr>], bases = []\<rparr> = Some (8, (), v') \<and>
    v_sum (iov_view v') = 4"
  using push_back_bytes_full [of "\<lparr>capacity = 1, iov_begin = 0, iov_end = 1, nbases = 0,
      iovs = [\<lparr>iov_base = 10, iov_len = 4\<rparr>], bases = []\<rparr>" 8 "\<lambda>a l u. (a, u, 4096)" "()" "()" 4096]
  by (auto simp: iov_inv_def iov_do_assert_def iov_view_def INT_MAX_def)

text \<open>
  Move assignment checks that the entries of the source fit the target but not that its allocated buffers
  do: from a source with more buffers than the capacity of the target it writes past the end of the
  array of buffers and leaves a target that fails the assertion of every later operation.
\<close>

theorem move_assign_overruns:
  assumes "iov_inv v" "iov_inv rhs" "iov_begin v + (iov_end rhs - iov_begin rhs) \<le> capacity v" "capacity v < nbases rhs"
  shows "\<exists>freed v' rhs'. iov_move_assign rhs v = Some (freed, v', rhs') \<and> length (bases v') > capacity v' \<and> \<not> iov_do_assert v'"
  using assms iov_invD [OF assms(1)] iov_invD [OF assms(2)]
  by (simp add: iov_move_assign_def iov_dispose_def asserted_def iov_do_assert_def)

theorem move_assign_overruns_witness:
  "\<exists>freed v' rhs'. iov_move_assign
      \<lparr>capacity = 3, iov_begin = 0, iov_end = 1, nbases = 3, iovs = replicate 3 \<lparr>iov_base = 10, iov_len = 4\<rparr>, bases = [10, 20, 30]\<rparr>
      \<lparr>capacity = 1, iov_begin = 0, iov_end = 0, nbases = 0, iovs = [\<lparr>iov_base = 0, iov_len = 0\<rparr>], bases = []\<rparr> = Some (freed, v', rhs') \<and>
    length (bases v') > capacity v' \<and> \<not> iov_do_assert v'"
  by (rule move_assign_overruns) (simp_all add: iov_inv_def iov_do_assert_def)

end
