(* ===== verification/Range_Lock.thy ===== *)
theory Range_Lock
  imports Utility
begin

text \<open>
  common/range-lock.h: locks on ranges of 64-bit offsets.  The set \<open>m_index\<close> is the list of its
  nodes in their order; a node has an identity, which is the handle that \<open>lock\<close> gives out.  Each
  operation runs under the spin lock of the class and is one step.
\<close>

subsection \<open>Ranges\<close>

record range_t =
  rl_offset :: u64
  rl_length :: u64

definition rl_end :: "range_t \<Rightarrow> u64" where
  "rl_end r = sat_add (rl_offset r) (rl_length r)"

definition range_less :: "range_t \<Rightarrow> range_t \<Rightarrow> bool" where
  "range_less r rhs \<longleftrightarrow> rl_end r \<le> rl_offset rhs"

definition range_contains :: "range_t \<Rightarrow> range_t \<Rightarrow> bool" where
  "range_contains r x \<longleftrightarrow> rl_offset r \<le> rl_offset x \<and> rl_end r \<ge> rl_end x"

text \<open>A held range: the identity of its node and the range.\<close>

type_synonym held = "nat \<times> range_t"

text \<open>
  \<open>std::set::lower_bound\<close>: the position of the first node that is not less than the range, as the
  nodes before it and the nodes from it on.
\<close>

definition before_bound :: "range_t \<Rightarrow> held list \<Rightarrow> held list" where
  "before_bound r idx = takeWhile (\<lambda>x. range_less (snd x) r) idx"

definition lower_bound :: "range_t \<Rightarrow> held list \<Rightarrow> held list" where
  "lower_bound r idx = dropWhile (\<lambda>x. range_less (snd x) r) idx"

subsection \<open>Operations\<close>

text \<open>
  \<open>try_lock_wait\<close>: either the conflicting part of the first conflicting range, on whose condition
  the caller waits, or the new index with the range inserted as node \<open>n\<close>.
\<close>

definition try_lock_wait :: "nat \<Rightarrow> u64 \<Rightarrow> u64 \<Rightarrow> held list \<Rightarrow> (u64 \<times> u64) + held list" where
  "try_lock_wait n off len idx =
     (let r = \<lparr>rl_offset = off, rl_length = len\<rparr>; rest = lower_bound r idx
      in case rest of
           x # _ \<Rightarrow>
             (if rl_offset (snd x) < rl_end r
              then Inl (rl_offset (snd x), min (rl_end (snd x)) (rl_end r) - rl_offset (snd x))
              else Inr (before_bound r idx @ (n, r) # rest))
         | [] \<Rightarrow> Inr (before_bound r idx @ (n, r) # rest))"

text \<open>\<open>try_lock_wait2\<close> returns the handle of the new node, or null after it has waited.\<close>

definition try_lock_wait2 :: "nat \<Rightarrow> u64 \<Rightarrow> u64 \<Rightarrow> held list \<Rightarrow> nat option \<times> held list" where
  "try_lock_wait2 n off len idx =
     (let r = \<lparr>rl_offset = off, rl_length = len\<rparr>; rest = lower_bound r idx
      in case rest of
           x # _ \<Rightarrow> (if rl_offset (snd x) < rl_end r then (None, idx) else (Some n, before_bound r idx @ (n, r) # rest))
         | [] \<Rightarrow> (Some n, before_bound r idx @ (n, r) # rest))"

fun unlock_loop :: "range_t \<Rightarrow> held list \<Rightarrow> held list" where
  "unlock_loop r [] = []"
| "unlock_loop r (x # xs) =
     (if rl_offset (snd x) < rl_end r
      then (if range_contains r (snd x) then unlock_loop r xs else x # unlock_loop r xs)
      else x # xs)"

definition unlock_range :: "u64 \<Rightarrow> u64 \<Rightarrow> held list \<Rightarrow> held list" where
  "unlock_range off len idx =
     (let r = \<lparr>rl_offset = off, rl_length = len\<rparr> in before_bound r idx @ unlock_loop r (lower_bound r idx))"

definition unlock_handle :: "nat \<Rightarrow> held list \<Rightarrow> held list" where
  "unlock_handle h idx = filter (\<lambda>x. fst x \<noteq> h) idx"

text \<open>The neighbours of a node in the set.\<close>

definition next_offset :: "held list \<Rightarrow> u64" where
  "next_offset after = (case after of [] \<Rightarrow> -1 | x # _ \<Rightarrow> rl_offset (snd x))"

definition prev_end :: "held list \<Rightarrow> u64" where
  "prev_end bef = (if bef = [] then 0 else rl_end (snd (last bef)))"

definition adjust_range :: "nat \<Rightarrow> u64 \<Rightarrow> u64 \<Rightarrow> held list \<Rightarrow> held list option" where
  "adjust_range h off len idx =
     (let r1 = \<lparr>rl_offset = off, rl_length = len\<rparr>;
          bef = takeWhile (\<lambda>x. fst x \<noteq> h) idx
      in case dropWhile (\<lambda>x. fst x \<noteq> h) idx of
           [] \<Rightarrow> None
         | x # after \<Rightarrow>
             (if (rl_offset r1 < rl_offset (snd x) \<and> rl_offset r1 < prev_end bef) \<or>
                 (rl_end r1 > rl_end (snd x) \<and> rl_end r1 > next_offset after)
              then None
              else Some (bef @ (h, r1) # after)))"

subsection \<open>The invariant\<close>

definition rl_nonempty :: "range_t \<Rightarrow> bool" where
  "rl_nonempty r \<longleftrightarrow> rl_offset r < rl_end r"

definition rl_region :: "range_t \<Rightarrow> u64 set" where
  "rl_region r = {rl_offset r..<rl_end r}"

definition rl_inv :: "held list \<Rightarrow> bool" where
  "rl_inv idx \<longleftrightarrow> (\<forall>x\<in>set idx. rl_nonempty (snd x)) \<and> sorted_wrt (\<lambda>x y. range_less (snd x) (snd y)) idx"

lemma overlap_iff:
  assumes "rl_nonempty x" "rl_nonempty r"
  shows "rl_region x \<inter> rl_region r = {} \<longleftrightarrow> range_less x r \<or> range_less r x"
proof -
  have "max (rl_offset x) (rl_offset r) \<in> rl_region x \<inter> rl_region r" if "\<not> range_less x r" "\<not> range_less r x"
    using that assms by (auto simp: range_less_def rl_region_def rl_nonempty_def)
  moreover have "rl_region x \<inter> rl_region r = {}" if "range_less x r \<or> range_less r x"
    using that by (auto simp: range_less_def rl_region_def)
  ultimately show ?thesis by blast
qed

lemma range_less_trans: "range_less x y \<Longrightarrow> rl_nonempty y \<Longrightarrow> range_less y z \<Longrightarrow> range_less x z"
  by (auto simp: range_less_def rl_nonempty_def)

lemma split_bound: "idx = before_bound r idx @ lower_bound r idx"
  by (simp add: before_bound_def lower_bound_def)

lemma before_less: "x \<in> set (before_bound r idx) \<Longrightarrow> range_less (snd x) r"
  by (auto simp: before_bound_def dest: set_takeWhileD)

lemma rl_inv_append:
  "rl_inv (xs @ ys) \<longleftrightarrow> rl_inv xs \<and> rl_inv ys \<and> (\<forall>x\<in>set xs. \<forall>y\<in>set ys. range_less (snd x) (snd y))"
  by (auto simp: rl_inv_def sorted_wrt_append)

lemma rl_inv_Cons:
  "rl_inv (x # xs) \<longleftrightarrow> rl_nonempty (snd x) \<and> rl_inv xs \<and> (\<forall>y\<in>set xs. range_less (snd x) (snd y))"
  by (auto simp: rl_inv_def)

lemma insert_inv:
  assumes I: "rl_inv idx" and r: "rl_nonempty r"
    and n: "lower_bound r idx = [] \<or> rl_end r \<le> rl_offset (snd (hd (lower_bound r idx)))"
  shows "rl_inv (before_bound r idx @ (n, r) # lower_bound r idx)"
proof -
  have I': "rl_inv (before_bound r idx)" "rl_inv (lower_bound r idx)"
    "\<forall>x\<in>set (before_bound r idx). \<forall>y\<in>set (lower_bound r idx). range_less (snd x) (snd y)"
    using I split_bound [of idx r] rl_inv_append [of "before_bound r idx" "lower_bound r idx"] by simp_all
  have "range_less r (snd y)" if y: "y \<in> set (lower_bound r idx)" for y
  proof -
    obtain z zs where z: "lower_bound r idx = z # zs" using y by (cases "lower_bound r idx") auto
    then have "range_less r (snd z)" using n by (simp add: range_less_def)
    then show ?thesis using y z I'(2) range_less_trans by (auto simp: rl_inv_Cons)
  qed
  then show ?thesis using I' r before_less [of _ r idx] by (auto simp: rl_inv_append rl_inv_Cons)
qed

lemma conflict_iff:
  assumes I: "rl_inv idx" and r: "rl_nonempty r"
  shows "(\<exists>x\<in>set idx. rl_region (snd x) \<inter> rl_region r \<noteq> {}) \<longleftrightarrow>
    lower_bound r idx \<noteq> [] \<and> rl_offset (snd (hd (lower_bound r idx))) < rl_end r"
proof (cases "lower_bound r idx")
  case Nil
  then have "idx = before_bound r idx" using split_bound [of idx r] by simp
  then show ?thesis using Nil before_less [of _ r idx] overlap_iff r I by (metis rl_inv_def)
next
  case (Cons z zs)
  have z: "z \<in> set idx" using Cons split_bound [of idx r] by (metis in_set_conv_decomp)
  have zr: "\<not> range_less (snd z) r"
    using Cons hd_dropWhile [of "\<lambda>x. range_less (snd x) r" idx] by (auto simp: lower_bound_def)
  have nz: "rl_nonempty (snd x)" if "x \<in> set idx" for x using I that by (simp add: rl_inv_def)
  show ?thesis
  proof (cases "rl_offset (snd z) < rl_end r")
    case True
    then have "rl_region (snd z) \<inter> rl_region r \<noteq> {}"
      using overlap_iff [OF nz [OF z] r] zr by (auto simp: range_less_def)
    then show ?thesis using True Cons z by auto
  next
    case False
    then have "rl_inv (before_bound r idx @ (0, r) # lower_bound r idx)" using insert_inv [OF I r] Cons by simp
    then have "range_less (snd x) r \<or> range_less r (snd x)" if "x \<in> set idx" for x
      using that split_bound [of idx r] by (auto simp: rl_inv_append rl_inv_Cons) (metis Un_iff set_append snd_conv)
    then show ?thesis using False Cons overlap_iff [OF nz r] by auto
  qed
qed

lemma rl_inv_subseq: "rl_inv idx \<Longrightarrow> rl_inv (filter P idx)"
  by (simp add: rl_inv_def sorted_wrt_filter)

lemma unlock_loop_filter:
  assumes "rl_inv idx"
  shows "unlock_loop r idx = filter (\<lambda>x. \<not> (rl_offset (snd x) < rl_end r \<and> range_contains r (snd x))) idx"
  using assms
proof (induction idx)
  case (Cons x xs)
  show ?case
  proof (cases "rl_offset (snd x) < rl_end r")
    case False
    have "\<not> rl_offset (snd y) < rl_end r" if "y \<in> set xs" for y
    proof -
      have "rl_offset (snd x) < rl_offset (snd y)"
        using Cons.prems that by (auto simp: rl_inv_Cons rl_nonempty_def range_less_def)
      then show ?thesis using False by auto
    qed
    then have "filter (\<lambda>x. \<not> (rl_offset (snd x) < rl_end r \<and> range_contains r (snd x))) xs = xs"
      by (auto simp: filter_id_conv)
    then show ?thesis using False by simp
  qed (use Cons in \<open>simp add: rl_inv_Cons\<close>)
qed simp

text \<open>Exactly the held ranges inside the given one are released.\<close>

lemma unlock_range_eq:
  assumes "rl_inv idx" "rl_nonempty \<lparr>rl_offset = off, rl_length = len\<rparr>"
  shows "unlock_range off len idx = filter (\<lambda>x. \<not> range_contains \<lparr>rl_offset = off, rl_length = len\<rparr> (snd x)) idx"
proof -
  let ?r = "\<lparr>rl_offset = off, rl_length = len\<rparr>"
  let ?P = "\<lambda>x. \<not> range_contains ?r (snd x)" and ?Q = "\<lambda>x. \<not> (rl_offset (snd x) < rl_end ?r \<and> range_contains ?r (snd x))"
  have ne: "rl_nonempty (snd x)" if "x \<in> set idx" for x using assms(1) that by (simp add: rl_inv_def)
  have PQ: "?P x = ?Q x" if "x \<in> set idx" for x
    using ne [OF that] by (auto simp: rl_nonempty_def range_contains_def)
  have bef: "?P x" if "x \<in> set (before_bound ?r idx)" for x
    using before_less [OF that] ne [of x] that set_takeWhileD [of x _ idx]
    by (force simp: range_less_def range_contains_def rl_nonempty_def before_bound_def)
  have "rl_inv (lower_bound ?r idx)"
    using assms(1) split_bound [of idx ?r] rl_inv_append [of "before_bound ?r idx" "lower_bound ?r idx"] by simp
  from unlock_loop_filter [OF this, of ?r]
  have "unlock_range off len idx = before_bound ?r idx @ filter ?Q (lower_bound ?r idx)"
    by (simp add: unlock_range_def Let_def)
  also have "\<dots> = filter ?P (before_bound ?r idx) @ filter ?P (lower_bound ?r idx)"
  proof -
    have "filter ?P (before_bound ?r idx) = before_bound ?r idx" using bef by (simp add: filter_id_conv)
    moreover have "set (lower_bound ?r idx) \<subseteq> set idx" by (auto simp: lower_bound_def dest: set_dropWhileD)
    then have "filter ?P (lower_bound ?r idx) = filter ?Q (lower_bound ?r idx)" using PQ by (intro filter_cong) auto
    ultimately show ?thesis by simp
  qed
  also have "\<dots> = filter ?P idx" using split_bound [of idx ?r] by (metis filter_append)
  finally show ?thesis .
qed

lemma adjust_inv:
  assumes I: "rl_inv idx" and r: "rl_nonempty \<lparr>rl_offset = off, rl_length = len\<rparr>" and a: "adjust_range h off len idx = Some idx'"
  shows "rl_inv idx'"
proof -
  let ?r = "\<lparr>rl_offset = off, rl_length = len\<rparr>" and ?b = "takeWhile (\<lambda>x. fst x \<noteq> h) idx"
  obtain x after where x: "dropWhile (\<lambda>x. fst x \<noteq> h) idx = x # after" and idx': "idx' = ?b @ (h, ?r) # after"
    and ok: "\<not> (rl_offset ?r < rl_offset (snd x) \<and> rl_offset ?r < prev_end ?b)"
    "\<not> (rl_end ?r > rl_end (snd x) \<and> rl_end ?r > next_offset after)"
    using a by (auto simp: adjust_range_def Let_def split: list.splits if_splits)
  have "idx = ?b @ x # after" using x by (metis takeWhile_dropWhile_id)
  then have I': "rl_inv ?b" "rl_inv (x # after)" "\<forall>y\<in>set ?b. \<forall>z\<in>set (x # after). range_less (snd y) (snd z)"
    using I rl_inv_append [of ?b "x # after"] by simp_all
  have low: "range_less (snd y) ?r" if y: "y \<in> set ?b" for y
  proof (cases "rl_offset ?r < rl_offset (snd x)")
    case True
    then have "prev_end ?b \<le> rl_offset ?r" using ok(1) by simp
    moreover have "rl_end (snd y) \<le> prev_end ?b"
    proof -
      obtain b0 l where b: "?b = b0 @ [l]" using y by (cases ?b rule: rev_cases) auto
      then have "y = l \<or> range_less (snd y) (snd l)" "rl_nonempty (snd l)" using y I'(1) by (auto simp: rl_inv_append rl_inv_Cons)
      then show ?thesis using b by (auto simp: prev_end_def range_less_def rl_nonempty_def)
    qed
    ultimately show ?thesis by (simp add: range_less_def)
  next
    case False
    then show ?thesis using I'(3) y by (auto simp: range_less_def)
  qed
  have high: "range_less ?r (snd z)" if z: "z \<in> set after" for z
  proof -
    obtain a as where a: "after = a # as" using z by (cases after) auto
    then have "rl_end (snd a) \<le> rl_offset (snd z) \<or> z = a" "rl_offset (snd a) < rl_end (snd a)" "rl_end (snd x) \<le> rl_offset (snd a)"
      using I'(2) z by (auto simp: rl_inv_Cons range_less_def rl_nonempty_def)
    then have n: "rl_end (snd x) \<le> next_offset after" "next_offset after \<le> rl_offset (snd z)"
      using a by (auto simp: next_offset_def)
    then show ?thesis using ok(2) by (auto simp: range_less_def)
  qed
  show ?thesis using I' r low high idx' by (auto simp: rl_inv_append rl_inv_Cons)
qed

subsection \<open>Properties\<close>

datatype rl_op = Try_lock nat u64 u64 | Unlock u64 u64 | Unlock_handle nat | Adjust nat u64 u64

fun rl_step :: "held list \<Rightarrow> rl_op \<Rightarrow> held list" where
  "rl_step idx (Try_lock n off len) = snd (try_lock_wait2 n off len idx)"
| "rl_step idx (Unlock off len) = unlock_range off len idx"
| "rl_step idx (Unlock_handle h) = unlock_handle h idx"
| "rl_step idx (Adjust h off len) = (case adjust_range h off len idx of None \<Rightarrow> idx | Some idx' \<Rightarrow> idx')"

fun rl_op_ok :: "rl_op \<Rightarrow> bool" where
  "rl_op_ok (Try_lock n off len) \<longleftrightarrow> rl_nonempty \<lparr>rl_offset = off, rl_length = len\<rparr>"
| "rl_op_ok (Unlock off len) \<longleftrightarrow> rl_nonempty \<lparr>rl_offset = off, rl_length = len\<rparr>"
| "rl_op_ok (Unlock_handle h) \<longleftrightarrow> True"
| "rl_op_ok (Adjust h off len) \<longleftrightarrow> rl_nonempty \<lparr>rl_offset = off, rl_length = len\<rparr>"

lemma try_lock_wait2_inv:
  assumes "rl_inv idx" "rl_nonempty \<lparr>rl_offset = off, rl_length = len\<rparr>"
  shows "rl_inv (snd (try_lock_wait2 n off len idx))"
  using assms(1) insert_inv [OF assms, of n] by (auto simp: try_lock_wait2_def Let_def not_less split: list.splits)

lemma rl_step_inv: "rl_inv idx \<Longrightarrow> rl_op_ok a \<Longrightarrow> rl_inv (rl_step idx a)"
  by (cases a) (auto simp: try_lock_wait2_inv unlock_range_eq unlock_handle_def rl_inv_subseq adjust_inv split: option.splits)

lemma rl_steps_inv: "rl_inv idx \<Longrightarrow> \<forall>a\<in>set oprs. rl_op_ok a \<Longrightarrow> rl_inv (foldl rl_step idx oprs)"
  by (induction oprs arbitrary: idx) (auto intro: rl_step_inv)

lemma rl_inv_Nil: "rl_inv []"
  by (simp add: rl_inv_def)



text \<open>
  Locking a range that is free and releasing the same range again gives back the same held ranges,
  whatever was locked before.
\<close>

theorem range_lock_unlock_roundtrip:
  assumes "\<forall>a\<in>set oprs. rl_op_ok a" "idx = foldl rl_step [] oprs" "rl_nonempty \<lparr>rl_offset = off, rl_length = len\<rparr>"
    and "try_lock_wait2 n off len idx = (Some n, idx')"
  shows "unlock_range off len idx' = idx"
proof -
  let ?r = "\<lparr>rl_offset = off, rl_length = len\<rparr>"
  have I: "rl_inv idx" using rl_steps_inv [OF rl_inv_Nil assms(1)] assms(2) by simp
  have idx': "idx' = before_bound ?r idx @ (n, ?r) # lower_bound ?r idx" "rl_inv idx'"
    using assms(4) try_lock_wait2_inv [OF I assms(3), of n] by (auto simp: try_lock_wait2_def Let_def split: list.splits if_splits)
  have out: "\<not> range_contains ?r (snd x)" if x: "x \<in> set idx" for x
  proof -
    have "x \<in> set (before_bound ?r idx) \<or> x \<in> set (lower_bound ?r idx)" using x split_bound [of idx ?r] by (metis Un_iff set_append)
    then have "range_less (snd x) ?r \<or> range_less ?r (snd x)" "rl_nonempty (snd x)"
      using idx' x I by (auto simp: rl_inv_append rl_inv_Cons) (auto simp: rl_inv_def)
    then show ?thesis using assms(3) by (auto simp: range_less_def range_contains_def rl_nonempty_def)
  qed
  have "unlock_range off len idx' = filter (\<lambda>x. \<not> range_contains ?r (snd x)) idx'"
    by (rule unlock_range_eq [OF idx'(2) assms(3)])
  also have "\<dots> = filter (\<lambda>x. \<not> range_contains ?r (snd x)) (before_bound ?r idx @ lower_bound ?r idx)"
    using idx'(1) by (simp add: range_contains_def)
  also have "\<dots> = idx" using out split_bound [of idx ?r] by (simp add: filter_id_conv)
  finally show ?thesis .
qed

theorem range_lock_unlock_roundtrip_witness:
  "unlock_range 40 10 (snd (try_lock_wait2 2 40 10 (foldl rl_step [] [Try_lock 1 10 10]))) = foldl rl_step [] [Try_lock 1 10 10]"
proof -
  have "\<exists>idx'. try_lock_wait2 2 40 10 (foldl rl_step [] [Try_lock 1 10 10]) = (Some 2, idx')"
    by (simp add: try_lock_wait2_def lower_bound_def before_bound_def range_less_def rl_end_def sat_add_def Let_def)
  then obtain idx' where i: "try_lock_wait2 2 40 10 (foldl rl_step [] [Try_lock 1 10 10]) = (Some 2, idx')" by blast
  have "unlock_range 40 10 idx' = foldl rl_step [] [Try_lock 1 10 10]"
    by (rule range_lock_unlock_roundtrip [OF _ refl _ i]) (simp_all add: rl_nonempty_def rl_end_def sat_add_def Let_def)
  then show ?thesis using i by simp
qed

end
