(* ===== verification/LRU.thy ===== *)
theory LRU
  imports Intrusive_List
begin

text \<open>
  The container of least recently used entries of src/fs/cache/policy/lru.h.  The vector of records
  is its length and one store per field; a key is an index.  The recency order is a ring of records
  with a sentinel at its end, the free records form a second ring, and a cleared key is linked to
  itself only.  Failed assertions and reads outside the vector are \<open>None\<close>.
\<close>

subsection \<open>Operations\<close>

record 'v lru =
  m_links :: "nat links"
  m_val :: "nat \<Rightarrow> 'v"
  m_array_size :: nat
  m_free :: "nat option"
  m_size :: nat
  m_head :: nat

definition do_insert :: "nat \<Rightarrow> nat \<Rightarrow> nat \<Rightarrow> nat links \<Rightarrow> nat links" where
  "do_insert prv nxt i h = set_next prv i (set_prev nxt i (set_next i nxt (set_prev i prv h)))"

definition do_remove :: "nat \<Rightarrow> 'v lru \<Rightarrow> 'v lru" where
  "do_remove i s =
     (let prv = prev_ptr (m_links s) i; nxt = next_ptr (m_links s) i
      in s\<lparr>m_head := (if i = m_head s then nxt else m_head s),
           m_links := set_prev nxt prv (set_next prv nxt (m_links s))\<rparr>)"

definition do_alloc :: "nat \<Rightarrow> 'v lru \<Rightarrow> (nat \<times> 'v lru) option" where
  "do_alloc limit s =
     (case m_free s of
        Some r \<Rightarrow>
          (if next_ptr (m_links s) r = r \<or> prev_ptr (m_links s) r = r then Some (r, s\<lparr>m_free := None\<rparr>)
           else Some (r, do_remove r (s\<lparr>m_free := Some (next_ptr (m_links s) r)\<rparr>)))
      | None \<Rightarrow>
          (let r = m_array_size s
           in if \<not> r < limit then None
              else Some (r, s\<lparr>m_array_size := Suc r, m_links := set_next r 0 (set_prev r 0 (m_links s))\<rparr>)))"

definition lru_new :: "nat \<Rightarrow> (nat \<Rightarrow> 'v) \<Rightarrow> 'v lru option" where
  "lru_new limit v =
     (case do_alloc limit \<lparr>m_links = \<lparr>next_ptr = \<lambda>_. 0, prev_ptr = \<lambda>_. 0\<rparr>, m_val = v, m_array_size = 0,
                           m_free = None, m_size = 0, m_head = 0\<rparr> of
        None \<Rightarrow> None
      | Some (i, s) \<Rightarrow> Some (s\<lparr>m_head := i, m_links := set_next i i (set_prev i i (m_links s))\<rparr>))"

definition lru_push_front :: "nat \<Rightarrow> 'v \<Rightarrow> 'v lru \<Rightarrow> (nat \<times> 'v lru) option" where
  "lru_push_front limit v s =
     (if \<not> m_size s < limit then None
      else case do_alloc limit s of
          None \<Rightarrow> None
        | Some (i, s1) \<Rightarrow>
            Some (i, s1\<lparr>m_val := (m_val s1)(i := v),
                        m_links := do_insert (prev_ptr (m_links s1) (m_head s1)) (m_head s1) i (m_links s1),
                        m_size := Suc (m_size s1), m_head := i\<rparr>))"

definition lru_access :: "nat \<Rightarrow> 'v lru \<Rightarrow> 'v lru option" where
  "lru_access i s =
     (if \<not> i < m_array_size s then None
      else if m_size s = 1 \<or> i = m_head s then Some s
      else
        (let s1 = do_remove i s
         in Some (s1\<lparr>m_links := do_insert (prev_ptr (m_links s1) (m_head s1)) (m_head s1) i (m_links s1),
                     m_head := i\<rparr>)))"

definition mark_key_cleared :: "nat \<Rightarrow> 'v lru \<Rightarrow> 'v lru option" where
  "mark_key_cleared i s =
     (if \<not> i < m_array_size s then None
      else
        (let s1 = do_remove i s in Some (s1\<lparr>m_links := set_prev i i (set_next i i (m_links s1))\<rparr>)))"

definition lru_remove :: "nat \<Rightarrow> 'v lru \<Rightarrow> 'v lru option" where
  "lru_remove i s =
     (if \<not> i < m_array_size s then None
      else
        (let s1 = do_remove i s; s2 = s1\<lparr>m_size := m_size s1 - 1\<rparr>
         in case m_free s2 of
              None \<Rightarrow> Some (s2\<lparr>m_free := Some i, m_links := set_prev i i (set_next i i (m_links s2))\<rparr>)
            | Some f \<Rightarrow> Some (s2\<lparr>m_links := do_insert f (next_ptr (m_links s2) f) i (m_links s2)\<rparr>)))"

definition lru_pop_back :: "'v lru \<Rightarrow> 'v lru option" where
  "lru_pop_back s =
     (if \<not> m_size s > 0 then None
      else lru_remove (prev_ptr (m_links s) (prev_ptr (m_links s) (m_head s))) s)"

definition lru_front :: "'v lru \<Rightarrow> 'v option" where
  "lru_front s = (if \<not> m_size s > 0 then None else Some (m_val s (m_head s)))"

definition lru_back :: "'v lru \<Rightarrow> 'v option" where
  "lru_back s =
     (if \<not> m_size s > 0 then None
      else Some (m_val s (prev_ptr (m_links s) (prev_ptr (m_links s) (m_head s)))))"

definition lru_empty :: "'v lru \<Rightarrow> bool" where
  "lru_empty s \<longleftrightarrow> m_head s = prev_ptr (m_links s) (m_head s)"

subsection \<open>Rings without the reset of the unlinked node\<close>

definition unlink :: "nat \<Rightarrow> nat links \<Rightarrow> nat links" where
  "unlink i h = set_prev (next_ptr h i) (prev_ptr h i) (set_next (prev_ptr h i) (next_ptr h i) h)"

lemma do_remove_fields [simp]:
  "m_links (do_remove i s) = unlink i (m_links s)"
  "m_head (do_remove i s) = (if i = m_head s then next_ptr (m_links s) i else m_head s)"
  "m_val (do_remove i s) = m_val s" "m_array_size (do_remove i s) = m_array_size s"
  "m_free (do_remove i s) = m_free s" "m_size (do_remove i s) = m_size s"
  by (simp_all add: do_remove_def unlink_def Let_def)

lemma set_next_prev [simp]:
  "next_ptr (set_next a b h) = (next_ptr h)(a := b)" "prev_ptr (set_next a b h) = prev_ptr h"
  "prev_ptr (set_prev a b h) = (prev_ptr h)(a := b)" "next_ptr (set_prev a b h) = next_ptr h"
  by (simp_all add: set_next_def set_prev_def)

lemma do_insert_ring:
  assumes "ring h ys" "i \<notin> set ys"
  shows "ring (do_insert (prev_ptr h (hd ys)) (hd ys) i h) (ys @ [i])"
    and "frame h (do_insert (prev_ptr h (hd ys)) (hd ys) i h) (set (ys @ [i]))"
proof -
  let ?h = "node_init i h" and ?d = "do_insert (prev_ptr h (hd ys)) (hd ys) i h"
  have r: "ring ?h ys" "ring ?h [i]"
    using assms by (subst ring_cong [of ys _ h]) (auto simp: node_init_def ring_singleton)
  have "hd ys \<noteq> i" "prev_ptr h (hd ys) \<noteq> i" using assms ringD [OF assms(1)] by auto
  then have eq: "insert_before (hd ys) i ?h = ?d"
    by (auto simp: insert_before_def insert_between_def node_init_def do_insert_def single_def
        set_next_def set_prev_def fun_upd_def fun_eq_iff intro!: links.equality)
  from ring_insert_before(1) [OF r assms(2)] show "ring ?d (ys @ [i])" using eq by simp
  from ring_insert_before(2) [OF r assms(2)] show "frame h ?d (set (ys @ [i]))"
    using eq by (auto simp: frame_def node_init_def)
qed

lemma unlink_ring:
  assumes "ring h (x # ys)"
  shows "ys \<noteq> [] \<Longrightarrow> ring (unlink x h) ys" and "frame h (unlink x h) (set (x # ys))"
proof -
  have fs: "fst (remove_from_list x h) = node_init x (unlink x h)" if "ys \<noteq> []"
    using ring_single_iff [OF assms] that ringD [OF assms] ring_next [OF assms] ring_prev [OF assms]
    by (auto simp: remove_from_list_def node_init_def unlink_def Let_def set_next_def set_prev_def)
  show "ring (unlink x h) ys" if ne: "ys \<noteq> []"
  proof -
    have "ring (node_init x (unlink x h)) ys" using ring_remove(2) [OF assms ne] fs [OF ne] by simp
    moreover have "ring (node_init x (unlink x h)) ys = ring (unlink x h) ys"
      using ringD(2) [OF assms] by (intro ring_cong) (auto simp: node_init_def)
    ultimately show ?thesis by simp
  qed
  show "frame h (unlink x h) (set (x # ys))"
    using ring_next [OF assms] ring_prev [OF assms]
    by (cases ys) (auto simp: frame_def unlink_def)
qed

lemma unlink_ring_at:
  assumes "ring h (as @ x # bs)" "as @ bs \<noteq> []"
  shows "ring (unlink x h) (as @ bs)" and "frame h (unlink x h) (set (as @ x # bs))"
proof -
  have r: "ring h (x # bs @ as)" using assms(1) ring_rotate [of h as "x # bs"] by simp
  show "ring (unlink x h) (as @ bs)"
    using unlink_ring(1) [OF r] assms(2) ring_rotate [of "unlink x h" bs as] by auto
  show "frame h (unlink x h) (set (as @ x # bs))" using unlink_ring(2) [OF r] by (simp add: Un_commute insert_commute)
qed

subsection \<open>The abstract container\<close>

text \<open>
  The abstract state: the keys from the most to the least recently used, the cleared keys, the keys to
  reuse in their order, the number of records ever allocated, the values and the entry count.
\<close>

record 'v alru =
  a_order :: "nat list"
  a_cleared :: "nat list"
  a_free :: "nat list"
  a_next :: nat
  a_val :: "nat \<Rightarrow> 'v"

definition a_count :: "'v alru \<Rightarrow> nat" where
  "a_count x = length (a_order x) + length (a_cleared x)"

definition a_forget :: "nat \<Rightarrow> 'v alru \<Rightarrow> 'v alru" where
  "a_forget i x = x\<lparr>a_order := remove1 i (a_order x), a_cleared := remove1 i (a_cleared x)\<rparr>"

definition a_release :: "nat \<Rightarrow> 'v alru \<Rightarrow> 'v alru" where
  "a_release i x = (a_forget i x)\<lparr>a_free := (case a_free x of [] \<Rightarrow> [i] | f # fs \<Rightarrow> f # i # fs)\<rparr>"

datatype 'v lru_op = Push_front 'v | Access nat | Mark_cleared nat | Remove nat | Pop_back | Front | Back | Empty

datatype 'v lru_result = Done | Key nat | Value 'v | Flag bool

fun lru_step :: "nat \<Rightarrow> 'v lru_op \<Rightarrow> 'v lru \<Rightarrow> ('v lru \<times> 'v lru_result) option" where
  "lru_step limit (Push_front v) s = map_option (\<lambda>(i, s'). (s', Key i)) (lru_push_front limit v s)"
| "lru_step limit (Access i) s = map_option (\<lambda>s'. (s', Done)) (lru_access i s)"
| "lru_step limit (Mark_cleared i) s = map_option (\<lambda>s'. (s', Done)) (mark_key_cleared i s)"
| "lru_step limit (Remove i) s = map_option (\<lambda>s'. (s', Done)) (lru_remove i s)"
| "lru_step limit Pop_back s = map_option (\<lambda>s'. (s', Done)) (lru_pop_back s)"
| "lru_step limit Front s = map_option (\<lambda>v. (s, Value v)) (lru_front s)"
| "lru_step limit Back s = map_option (\<lambda>v. (s, Value v)) (lru_back s)"
| "lru_step limit Empty s = Some (s, Flag (lru_empty s))"

fun alru_step :: "'v lru_op \<Rightarrow> 'v alru \<Rightarrow> 'v alru \<times> 'v lru_result" where
  "alru_step (Push_front v) x =
     (case a_free x of
        [] \<Rightarrow> (let i = a_next x in (x\<lparr>a_order := i # a_order x, a_next := Suc i, a_val := (a_val x)(i := v)\<rparr>, Key i))
      | i # fs \<Rightarrow> (x\<lparr>a_order := i # a_order x, a_free := fs, a_val := (a_val x)(i := v)\<rparr>, Key i))"
| "alru_step (Access i) x =
     (if a_count x = 1 then (x, Done)
      else ((a_forget i x)\<lparr>a_order := i # remove1 i (a_order x)\<rparr>, Done))"
| "alru_step (Mark_cleared i) x = ((a_forget i x)\<lparr>a_cleared := i # remove1 i (a_cleared x)\<rparr>, Done)"
| "alru_step (Remove i) x = (a_release i x, Done)"
| "alru_step Pop_back x = (a_release (last (a_order x)) x, Done)"
| "alru_step Front x = (x, Value (a_val x (hd (a_order x))))"
| "alru_step Back x = (x, Value (a_val x (last (a_order x))))"
| "alru_step Empty x = (x, Flag (a_order x = []))"

text \<open>
  What a caller must respect: keys are live, there is room for one more record besides the sentinel,
  and the order is not empty where an end of it is asked for.
\<close>

fun lru_pre :: "nat \<Rightarrow> 'v lru_op \<Rightarrow> 'v alru \<Rightarrow> bool" where
  "lru_pre limit (Push_front v) x \<longleftrightarrow> Suc (a_count x) < limit"
| "lru_pre limit (Access i) x \<longleftrightarrow> i \<in> set (a_order x) \<or> i \<in> set (a_cleared x)"
| "lru_pre limit (Mark_cleared i) x \<longleftrightarrow> i \<in> set (a_order x) \<or> i \<in> set (a_cleared x)"
| "lru_pre limit (Remove i) x \<longleftrightarrow> i \<in> set (a_order x) \<or> i \<in> set (a_cleared x)"
| "lru_pre limit Pop_back x \<longleftrightarrow> a_order x \<noteq> []"
| "lru_pre limit Front x \<longleftrightarrow> a_order x \<noteq> []"
| "lru_pre limit Back x \<longleftrightarrow> a_order x \<noteq> []"
| "lru_pre limit Empty x \<longleftrightarrow> True"

definition free_ring :: "'v lru \<Rightarrow> nat list \<Rightarrow> bool" where
  "free_ring s fr \<longleftrightarrow> (case fr of [] \<Rightarrow> m_free s = None | f # _ \<Rightarrow> m_free s = Some f \<and> ring (m_links s) fr)"

definition lru_rel :: "'v lru \<Rightarrow> 'v alru \<Rightarrow> bool" where
  "lru_rel s x \<longleftrightarrow>
     ring (m_links s) (a_order x @ [0]) \<and> m_head s = hd (a_order x @ [0]) \<and>
     free_ring s (a_free x) \<and> (\<forall>c\<in>set (a_cleared x). ring (m_links s) [c]) \<and>
     distinct (0 # a_order x @ a_cleared x @ a_free x) \<and>
     set (0 # a_order x @ a_cleared x @ a_free x) = {..<a_next x} \<and>
     m_array_size s = a_next x \<and> m_size s = a_count x \<and> m_val s = a_val x"

lemma lru_relI:
  assumes "ring (m_links s) (a_order x @ [0])" "m_head s = hd (a_order x @ [0])" "free_ring s (a_free x)"
    "\<And>c. c \<in> set (a_cleared x) \<Longrightarrow> ring (m_links s) [c]"
    "distinct (0 # a_order x @ a_cleared x @ a_free x)"
    "set (0 # a_order x @ a_cleared x @ a_free x) = {..<a_next x}"
    "m_array_size s = a_next x" "m_size s = a_count x" "m_val s = a_val x"
  shows "lru_rel s x"
  using assms by (simp add: lru_rel_def)

lemma lru_relD:
  assumes "lru_rel s x"
  shows "ring (m_links s) (a_order x @ [0])" "m_head s = hd (a_order x @ [0])" "free_ring s (a_free x)"
    "\<And>c. c \<in> set (a_cleared x) \<Longrightarrow> ring (m_links s) [c]"
    "distinct (0 # a_order x @ a_cleared x @ a_free x)"
    "set (0 # a_order x @ a_cleared x @ a_free x) = {..<a_next x}"
    "m_array_size s = a_next x" "m_size s = a_count x" "m_val s = a_val x"
  using assms by (simp_all add: lru_rel_def)

text \<open>Links outside the written nodes keep the other rings.\<close>

lemma free_ring_frame:
  "free_ring s fr \<Longrightarrow> frame (m_links s) (m_links s') A \<Longrightarrow> set fr \<inter> A = {} \<Longrightarrow> m_free s' = m_free s \<Longrightarrow> free_ring s' fr"
  using ring_frame [of "m_links s" "m_links s'" A fr] by (auto simp: free_ring_def split: list.splits)

lemma live_bound:
  assumes "lru_rel s x" "i \<in> set (a_order x) \<or> i \<in> set (a_cleared x)"
  shows "i < m_array_size s" and "i \<noteq> 0"
proof -
  have "i \<in> set (0 # a_order x @ a_cleared x @ a_free x)" using assms(2) by auto
  then show "i < m_array_size s" unfolding lru_relD(6,7) [OF assms(1)] by simp
  show "i \<noteq> 0" using assms(2) lru_relD(5) [OF assms(1)] by auto
qed

text \<open>Taking a live key out: the order and the cleared keys lose it, the other rings stay.\<close>

lemma do_remove_live:
  assumes R: "lru_rel s x" and i: "i \<in> set (a_order x) \<or> i \<in> set (a_cleared x)"
  shows "ring (m_links (do_remove i s)) (remove1 i (a_order x) @ [0])"
    and "m_head (do_remove i s) = hd (remove1 i (a_order x) @ [0])"
    and "free_ring (do_remove i s) (a_free x)"
    and "\<And>c. c \<in> set (remove1 i (a_cleared x)) \<Longrightarrow> ring (m_links (do_remove i s)) [c]"
proof -
  note D = lru_relD [OF R]
  have "ring (m_links (do_remove i s)) (remove1 i (a_order x) @ [0]) \<and>
    m_head (do_remove i s) = hd (remove1 i (a_order x) @ [0]) \<and>
    (\<exists>A. frame (m_links s) (m_links (do_remove i s)) A \<and> A \<inter> set (a_free x) = {} \<and> A \<inter> set (remove1 i (a_cleared x)) = {})"
  proof (cases "i \<in> set (a_order x)")
    case True
    then obtain as bs where o: "a_order x = as @ i # bs" "i \<notin> set as" by (auto dest: split_list_first)
    have r: "ring (m_links s) (as @ i # (bs @ [0]))" using D(1) o by simp
    note U = unlink_ring_at [OF r]
    have "next_ptr (m_links s) i = hd (bs @ [0])" if "as = []"
      using ring_next [of "m_links s" i "bs @ [0]"] r that by (simp add: hd_append)
    then have "m_head (do_remove i s) = hd (as @ bs @ [0])"
      using D(2,5) o by (cases as) auto
    moreover have "remove1 i (a_order x) = as @ bs" using o by (simp add: remove1_append)
    moreover have "set (as @ i # bs @ [0]) \<inter> set (a_free x) = {}" "set (as @ i # bs @ [0]) \<inter> set (remove1 i (a_cleared x)) = {}"
      using D(5) o by (auto dest: notin_set_remove1)
    ultimately show ?thesis using U by auto
  next
    case False
    then have c: "i \<in> set (a_cleared x)" using i by simp
    then have "next_ptr (m_links s) i = i" "prev_ptr (m_links s) i = i" using D(4) by (simp_all add: ring_singleton)
    then have u: "unlink i (m_links s) = m_links s" by (simp add: unlink_def set_next_def set_prev_def fun_upd_idem)
    moreover have "i \<noteq> m_head s" using D(2,5) c False by (cases "a_order x") auto
    ultimately show ?thesis using D(1,2) False by (auto simp: remove1_idem frame_def)
  qed
  then obtain A where A: "ring (m_links (do_remove i s)) (remove1 i (a_order x) @ [0])"
    "m_head (do_remove i s) = hd (remove1 i (a_order x) @ [0])" "frame (m_links s) (m_links (do_remove i s)) A"
    "A \<inter> set (a_free x) = {}" "A \<inter> set (remove1 i (a_cleared x)) = {}" by blast
  show "ring (m_links (do_remove i s)) (remove1 i (a_order x) @ [0])" "m_head (do_remove i s) = hd (remove1 i (a_order x) @ [0])"
    by (fact A)+
  show "free_ring (do_remove i s) (a_free x)" by (rule free_ring_frame [OF D(3) A(3)]) (use A(4) in auto)
  show "ring (m_links (do_remove i s)) [c]" if c: "c \<in> set (remove1 i (a_cleared x))" for c
    using ring_frame [OF A(3), of "[c]"] A(5) c D(4) notin_set_remove1 by fastforce
qed

text \<open>Linking a key in front of the head.\<close>

lemma insert_front:
  assumes "ring (m_links t) (ys @ [0])" "m_head t = hd (ys @ [0])" "free_ring t fr"
    and "\<And>c. c \<in> set cs \<Longrightarrow> ring (m_links t) [c]" "distinct (i # 0 # ys @ cs @ fr)"
    and L: "L = do_insert (prev_ptr (m_links t) (m_head t)) (m_head t) i (m_links t)"
  shows "ring L (i # ys @ [0])" and "m_links t' = L \<Longrightarrow> m_free t' = m_free t \<Longrightarrow> free_ring t' fr"
    and "\<And>c. c \<in> set cs \<Longrightarrow> ring L [c]"
proof -
  have i: "i \<notin> set (ys @ [0])" using assms(5) by auto
  note I = do_insert_ring [OF assms(1) i, folded assms(2), folded L]
  show "ring L (i # ys @ [0])" using I(1) ring_rotate [of L "ys @ [0]" "[i]"] by simp
  show "free_ring t' fr" if t: "m_links t' = L" "m_free t' = m_free t"
    by (rule free_ring_frame [OF assms(3), of _ "set ((ys @ [0]) @ [i])"]) (use I(2) t assms(5) in auto)
  show "ring L [c]" if c: "c \<in> set cs" for c
  proof -
    have "set [c] \<inter> set ((ys @ [0]) @ [i]) = {}" using assms(5) c by auto
    from ring_frame [OF I(2) this] show ?thesis using assms(4) [OF c] by simp
  qed
qed

lemma length_forget:
  assumes "distinct (0 # xs @ cl @ fr)" "i \<in> set xs \<or> i \<in> set cl"
  shows "length xs + length cl = Suc (length (remove1 i xs) + length (remove1 i cl))"
  using assms by (auto simp: length_remove1 disjoint_iff dest: length_pos_if_in_set)

lemma forget_distinct:
  assumes "distinct (0 # xs @ cl @ fr)" "i \<in> set xs \<or> i \<in> set cl"
  shows "distinct (i # 0 # remove1 i xs @ remove1 i cl @ fr)"
    and "set (i # 0 # remove1 i xs @ remove1 i cl @ fr) = set (0 # xs @ cl @ fr)"
  using assms by auto

lemma access_refines:
  assumes R: "lru_rel s x" and i: "i \<in> set (a_order x) \<or> i \<in> set (a_cleared x)"
  shows "\<exists>s'. lru_access i s = Some s' \<and> lru_rel s' (fst (alru_step (Access i) x))"
proof -
  note D = lru_relD [OF R]
  consider (one) "a_count x = 1" | (head) "a_count x \<noteq> 1" "i = m_head s" | (move) "a_count x \<noteq> 1" "i \<noteq> m_head s" by blast
  then show ?thesis
  proof cases
    case one
    then show ?thesis using R D(8) live_bound [OF R i] by (simp add: lru_access_def)
  next
    case head
    then obtain bs where b: "a_order x = i # bs" using D(2) live_bound(2) [OF R i] by (cases "a_order x") auto
    then have "i \<notin> set (a_cleared x)" using D(5) by auto
    then have "(a_forget i x)\<lparr>a_order := i # remove1 i (a_order x)\<rparr> = x" using b by (simp add: a_forget_def remove1_idem)
    then show ?thesis using head R D(8) live_bound [OF R i] by (simp add: lru_access_def)
  next
    case move
    note V = do_remove_live [OF R i] and F = forget_distinct [OF D(5) i]
    note I = insert_front [OF V(1,2,3,4) F(1) refl]
    let ?s = "(do_remove i s)\<lparr>m_links := do_insert (prev_ptr (m_links (do_remove i s)) (m_head (do_remove i s)))
        (m_head (do_remove i s)) i (m_links (do_remove i s)), m_head := i\<rparr>"
    have "lru_rel ?s ((a_forget i x)\<lparr>a_order := i # remove1 i (a_order x)\<rparr>)"
    proof (rule lru_relI)
      show "free_ring ?s (a_free ((a_forget i x)\<lparr>a_order := i # remove1 i (a_order x)\<rparr>))"
        using I(2) [of ?s] by (simp add: a_forget_def)
    qed (use I(1,3) F D(6-9) length_forget [OF D(5) i] in
        \<open>simp_all add: a_forget_def a_count_def insert_commute\<close>)
    then show ?thesis using move D(8) live_bound [OF R i] by (simp add: lru_access_def Let_def)
  qed
qed

text \<open>Linking a key to itself.\<close>

lemma self_link:
  assumes "ring (m_links t) (ys @ [0])" "free_ring t fr"
    and "\<And>c. c \<in> set cs \<Longrightarrow> ring (m_links t) [c]" "distinct (i # 0 # ys @ cs @ fr)"
    and L: "L = set_prev i i (set_next i i (m_links t))"
  shows "ring L (ys @ [0])" and "m_links t' = L \<Longrightarrow> m_free t' = m_free t \<Longrightarrow> free_ring t' fr"
    and "\<And>c. c \<in> set (i # cs) \<Longrightarrow> ring L [c]"
proof -
  have f: "frame (m_links t) L {i}" unfolding L by (auto simp: frame_def)
  have "set (ys @ [0]) \<inter> {i} = {}" using assms(4) by auto
  from ring_frame [OF f this] show "ring L (ys @ [0])" using assms(1) by simp
  show "free_ring t' fr" if "m_links t' = L" "m_free t' = m_free t"
    by (rule free_ring_frame [OF assms(2)]) (use f that assms(4) in auto)
  show "ring L [c]" if c: "c \<in> set (i # cs)" for c
  proof (cases "c = i")
    case False
    then have "set [c] \<inter> {i} = {}" by simp
    from ring_frame [OF f this] show ?thesis using assms(3) c False by simp
  qed (simp add: L ring_singleton)
qed

lemma mark_refines:
  assumes R: "lru_rel s x" and i: "i \<in> set (a_order x) \<or> i \<in> set (a_cleared x)"
  shows "\<exists>s'. mark_key_cleared i s = Some s' \<and> lru_rel s' (fst (alru_step (Mark_cleared i) x))"
proof -
  note D = lru_relD [OF R] and V = do_remove_live [OF R i]
  note F = forget_distinct [OF D(5) i]
  note I = self_link [OF V(1,3,4) F(1) refl]
  let ?s = "(do_remove i s)\<lparr>m_links := set_prev i i (set_next i i (m_links (do_remove i s)))\<rparr>"
  have "lru_rel ?s (fst (alru_step (Mark_cleared i) x))"
  proof (rule lru_relI)
    show "free_ring ?s (a_free (fst (alru_step (Mark_cleared i) x)))" using I(2) [of ?s] by (simp add: a_forget_def)
    show "ring (m_links ?s) [c]" if "c \<in> set (a_cleared (fst (alru_step (Mark_cleared i) x)))" for c
      using I(3) [of c] that by (simp add: a_forget_def)
    show "set (0 # a_order (fst (alru_step (Mark_cleared i) x)) @ a_cleared (fst (alru_step (Mark_cleared i) x)) @
        a_free (fst (alru_step (Mark_cleared i) x))) = {..<a_next (fst (alru_step (Mark_cleared i) x))}"
      using F(2) D(6) by (simp add: a_forget_def insert_commute)
  qed (use I(1) V(2) F(1) D(7-9) length_forget [OF D(5) i] in \<open>auto simp: a_forget_def a_count_def\<close>)
  then show ?thesis using live_bound [OF R i] by (simp add: mark_key_cleared_def Let_def)
qed

lemma insert_after_ring:
  assumes "ring h (f # fs)" "i \<notin> set (f # fs)"
  shows "ring (do_insert f (next_ptr h f) i h) (f # i # fs)"
    and "frame h (do_insert f (next_ptr h f) i h) (set (f # i # fs))"
proof -
  have r: "ring h (fs @ [f])" using assms(1) ring_rotate [of h "[f]" fs] by simp
  have n: "hd (fs @ [f]) = next_ptr h f" using ring_next [OF assms(1)] by simp
  moreover have "prev_ptr h (hd (fs @ [f])) = f" using ringD(5) [OF r] by simp
  ultimately have p: "prev_ptr h (next_ptr h f) = f" by simp
  have "i \<notin> set (fs @ [f])" using assms(2) by auto
  note I = do_insert_ring [OF r this, unfolded n p]
  show "ring (do_insert f (next_ptr h f) i h) (f # i # fs)"
    using I(1) ring_rotate [of _ fs "[f, i]"] by simp
  show "frame h (do_insert f (next_ptr h f) i h) (set (f # i # fs))"
    using I(2) by (simp add: insert_commute)
qed

lemma remove_refines:
  assumes R: "lru_rel s x" and i: "i \<in> set (a_order x) \<or> i \<in> set (a_cleared x)"
  shows "\<exists>s'. lru_remove i s = Some s' \<and> lru_rel s' (a_release i x)"
proof -
  note D = lru_relD [OF R] and V = do_remove_live [OF R i]
  note F = forget_distinct [OF D(5) i] and len = length_forget [OF D(5) i]
  let ?d = "(do_remove i s)\<lparr>m_size := m_size s - 1\<rparr>"
  show ?thesis
  proof (cases "a_free x")
    case Nil
    then have n: "m_free s = None" using D(3) by (simp add: free_ring_def)
    note I = self_link [OF V(1,3,4) F(1) refl]
    let ?s = "?d\<lparr>m_free := Some i, m_links := set_prev i i (set_next i i (m_links (do_remove i s)))\<rparr>"
    have "lru_rel ?s (a_release i x)"
    proof (rule lru_relI)
      show "set (0 # a_order (a_release i x) @ a_cleared (a_release i x) @ a_free (a_release i x)) = {..<a_next (a_release i x)}"
        using F(2) D(6) Nil by (simp add: a_forget_def a_release_def insert_commute)
    qed (use I(1,3) V(2) F(1) D(7-9) len Nil in \<open>auto simp: a_forget_def a_release_def a_count_def free_ring_def\<close>)
    then show ?thesis using live_bound [OF R i] n by (simp add: lru_remove_def Let_def)
  next
    case (Cons f fs)
    then have n: "m_free s = Some f" and rf: "ring (m_links (do_remove i s)) (f # fs)"
      using D(3) V(3) by (simp_all add: free_ring_def)
    have "i \<notin> set (f # fs)" using F(1) Cons by simp
    note I = insert_after_ring [OF rf this]
    let ?L = "do_insert f (next_ptr (m_links (do_remove i s)) f) i (m_links (do_remove i s))"
    let ?s = "?d\<lparr>m_links := ?L\<rparr>"
    have "set (remove1 i (a_order x) @ [0]) \<inter> set (f # i # fs) = {}" using F(1) Cons by auto
    then have o: "ring ?L (remove1 i (a_order x) @ [0])" using ring_frame [OF I(2)] V(1) by simp
    have c: "ring ?L [c]" if c: "c \<in> set (remove1 i (a_cleared x))" for c
    proof -
      have "set [c] \<inter> set (f # i # fs) = {}" using F(1) Cons c by auto
      from ring_frame [OF I(2) this] show ?thesis using V(4) [OF c] by simp
    qed
    have "lru_rel ?s (a_release i x)"
    proof (rule lru_relI)
      show "set (0 # a_order (a_release i x) @ a_cleared (a_release i x) @ a_free (a_release i x)) = {..<a_next (a_release i x)}"
        using F(2) D(6) Cons by (auto simp: a_forget_def a_release_def)
    qed (use o c I(1) V(2) F(1) D(7-9) len Cons n in \<open>auto simp: a_forget_def a_release_def a_count_def free_ring_def\<close>)
    then show ?thesis using live_bound [OF R i] n by (simp add: lru_remove_def Let_def)
  qed
qed

definition new_key :: "'v alru \<Rightarrow> nat" where
  "new_key x = (case a_free x of [] \<Rightarrow> a_next x | i # _ \<Rightarrow> i)"

lemma records_used: "lru_rel s x \<Longrightarrow> a_next x = Suc (a_count x + length (a_free x))"
  using lru_relD(5,6) [of s x] distinct_card [of "0 # a_order x @ a_cleared x @ a_free x"]
  by (simp add: a_count_def)

lemma do_alloc_refines:
  assumes R: "lru_rel s x" and room: "a_free x = [] \<Longrightarrow> a_next x < limit"
  shows "\<exists>s1. do_alloc limit s = Some (new_key x, s1) \<and> ring (m_links s1) (a_order x @ [0]) \<and>
    m_head s1 = m_head s \<and> free_ring s1 (tl (a_free x)) \<and> (\<forall>c\<in>set (a_cleared x). ring (m_links s1) [c]) \<and>
    m_val s1 = m_val s \<and> m_size s1 = m_size s \<and>
    m_array_size s1 = (if a_free x = [] then Suc (a_next x) else a_next x)"
proof (cases "a_free x")
  case Nil
  note D = lru_relD [OF R]
  let ?r = "a_next x" and ?L = "set_next (a_next x) 0 (set_prev (a_next x) 0 (m_links s))"
  have f: "frame (m_links s) ?L {?r}" by (auto simp: frame_def)
  have old: "set (a_order x @ [0]) \<inter> {?r} = {}" "\<And>c. c \<in> set (a_cleared x) \<Longrightarrow> set [c] \<inter> {?r} = {}"
    using D(6) by auto
  have "ring ?L (a_order x @ [0])" "\<forall>c\<in>set (a_cleared x). ring ?L [c]"
    using ring_frame [OF f old(1)] ring_frame [OF f old(2)] D(1,4) by auto
  then show ?thesis using Nil room D(3,7)
    by (simp add: do_alloc_def new_key_def free_ring_def Let_def)
next
  case (Cons r fs)
  note D = lru_relD [OF R]
  have m: "m_free s = Some r" "ring (m_links s) (r # fs)" using D(3) Cons by (simp_all add: free_ring_def)
  have nr: "r \<noteq> m_head s" using D(2,5) Cons by (cases "a_order x") auto
  have single: "next_ptr (m_links s) r = r \<or> prev_ptr (m_links s) r = r \<longleftrightarrow> fs = []"
    using ring_single_iff [OF m(2)] by (auto simp: single_def)
  show ?thesis
  proof (cases "fs = []")
    case True
    then show ?thesis using single m nr D(1,4,7) Cons by (simp add: do_alloc_def new_key_def free_ring_def)
  next
    case False
    note U = unlink_ring(1) [OF m(2) False] unlink_ring(2) [OF m(2)]
    have "set (a_order x @ [0]) \<inter> set (r # fs) = {}" "\<And>c. c \<in> set (a_cleared x) \<Longrightarrow> set [c] \<inter> set (r # fs) = {}"
      using D(5) Cons by auto
    note o = ring_frame [OF U(2) this(1)] ring_frame [OF U(2) this(2)]
    have "next_ptr (m_links s) r = hd fs" using ring_next [OF m(2)] False by simp
    then show ?thesis using single m nr D(1,4,7) o U(1) Cons False
      by (auto simp: do_alloc_def new_key_def free_ring_def neq_Nil_conv)
  qed
qed

lemma push_refines:
  assumes R: "lru_rel s x" and room: "Suc (a_count x) < limit"
  shows "\<exists>s'. lru_push_front limit v s = Some (new_key x, s') \<and> lru_rel s' (fst (alru_step (Push_front v) x))"
proof -
  note D = lru_relD [OF R]
  obtain s1 where s1: "do_alloc limit s = Some (new_key x, s1)" "ring (m_links s1) (a_order x @ [0])"
    "m_head s1 = m_head s" "free_ring s1 (tl (a_free x))" "\<And>c. c \<in> set (a_cleared x) \<Longrightarrow> ring (m_links s1) [c]"
    "m_val s1 = m_val s" "m_size s1 = m_size s" "m_array_size s1 = (if a_free x = [] then Suc (a_next x) else a_next x)"
    using do_alloc_refines [OF R, of limit] records_used [OF R] room by auto
  have "a_next x \<notin> set (0 # a_order x @ a_cleared x @ a_free x)" unfolding D(6) by simp
  then have d: "distinct (new_key x # 0 # a_order x @ a_cleared x @ tl (a_free x))"
    using D(5) by (cases "a_free x") (auto simp: new_key_def)
  have h: "m_head s1 = hd (a_order x @ [0])" using s1(3) D(2) by simp
  note I = insert_front [OF s1(2) h s1(4,5) d refl]
  let ?s = "s1\<lparr>m_val := (m_val s1)(new_key x := v),
     m_links := do_insert (prev_ptr (m_links s1) (m_head s1)) (m_head s1) (new_key x) (m_links s1),
     m_size := Suc (m_size s1), m_head := new_key x\<rparr>"
  let ?x = "fst (alru_step (Push_front v) x)"
  have x: "a_order ?x = new_key x # a_order x" "a_cleared ?x = a_cleared x" "a_free ?x = tl (a_free x)"
    "a_val ?x = (a_val x)(new_key x := v)" "a_next ?x = (if a_free x = [] then Suc (a_next x) else a_next x)"
    by (auto simp: new_key_def Let_def split: list.splits)
  have "lru_rel ?s ?x"
  proof (rule lru_relI)
    have "set (0 # a_order ?x @ a_cleared ?x @ a_free ?x) =
        insert (new_key x) (set (0 # a_order x @ a_cleared x @ a_free x))"
      unfolding x by (cases "a_free x") (auto simp: new_key_def)
    also have "\<dots> = {..<a_next ?x}"
    proof (cases "a_free x")
      case (Cons f fs)
      then have "new_key x \<in> set (0 # a_order x @ a_cleared x @ a_free x)" by (simp add: new_key_def)
      then show ?thesis unfolding D(6) x using Cons by (simp add: insert_absorb)
    next
      case Nil
      then show ?thesis unfolding D(6) x by (simp add: new_key_def lessThan_Suc)
    qed
    finally show "set (0 # a_order ?x @ a_cleared ?x @ a_free ?x) = {..<a_next ?x}" .
    show "free_ring ?s (a_free ?x)" using I(2) [of ?s] x by simp
  qed (unfold x, use I(1,3) d s1(6-8) D(8,9) x in \<open>auto simp: a_count_def\<close>)
  then show ?thesis using s1(1,7) D(8) room by (simp add: lru_push_front_def)
qed

lemma ring_ends:
  assumes R: "lru_rel s x"
  shows "prev_ptr (m_links s) (m_head s) = 0"
    and "prev_ptr (m_links s) 0 = (if a_order x = [] then 0 else last (a_order x))"
proof -
  note D = lru_relD [OF R]
  show "prev_ptr (m_links s) (m_head s) = 0" using ringD(5) [OF D(1)] D(2) by simp
  have "ring (m_links s) (0 # a_order x)" using D(1) ring_rotate [of "m_links s" "a_order x" "[0]"] by simp
  then show "prev_ptr (m_links s) 0 = (if a_order x = [] then 0 else last (a_order x))"
    using ring_prev by fastforce
qed

lemma lru_step_refines:
  assumes R: "lru_rel s x" and pre: "lru_pre limit a x"
  shows "\<exists>s'. lru_step limit a s = Some (s', snd (alru_step a x)) \<and> lru_rel s' (fst (alru_step a x))"
proof (cases a)
  case (Push_front v)
  then show ?thesis using push_refines [OF R, of limit v] pre
    by (auto simp: new_key_def Let_def split: list.splits)
next
  case (Access i)
  then show ?thesis using access_refines [OF R, of i] pre by (auto split: if_splits)
next
  case (Mark_cleared i)
  then show ?thesis using mark_refines [OF R, of i] pre by auto
next
  case (Remove i)
  then show ?thesis using remove_refines [OF R, of i] pre by auto
next
  case Pop_back
  then have "a_order x \<noteq> []" using pre by simp
  then show ?thesis using Pop_back remove_refines [OF R, of "last (a_order x)"] ring_ends [OF R] lru_relD(8) [OF R]
    by (auto simp: lru_pop_back_def a_count_def)
next
  case Front
  then show ?thesis using pre R lru_relD(2,8,9) [OF R] by (auto simp: lru_front_def a_count_def hd_append)
next
  case Back
  then show ?thesis using pre R ring_ends [OF R] lru_relD(8,9) [OF R] by (auto simp: lru_back_def a_count_def)
next
  case Empty
  then show ?thesis using R ring_ends(1) [OF R] lru_relD(2,5) [OF R] by (cases "a_order x") (auto simp: lru_empty_def)
qed

interpretation lruq: data_refinement lru_rel "lru_step limit" alru_step "lru_pre limit" for limit
  by unfold_locales (rule lru_step_refines)

definition alru_new :: "(nat \<Rightarrow> 'v) \<Rightarrow> 'v alru" where
  "alru_new v = \<lparr>a_order = [], a_cleared = [], a_free = [], a_next = 1, a_val = v\<rparr>"

lemma lru_new_refines: "0 < limit \<Longrightarrow> \<exists>s. lru_new limit v = Some s \<and> lru_rel s (alru_new v)"
  by (auto simp: lru_new_def do_alloc_def lru_rel_def alru_new_def free_ring_def ring_singleton a_count_def)

subsection \<open>Properties\<close>

text \<open>
  C23: On a new container, every sequence of operations that uses live keys and stays below the limit
  succeeds and returns what the abstract container returns: keys are in the order of their last use,
  \<open>front\<close> and \<open>back\<close> are the most and the least recently used values, cleared keys are never at an
  end of the order, and the entry count is the number of live keys.  Using a key is a no-op when it is the only live
  one, even if it was cleared.
\<close>

theorem lru_refines:
  assumes "0 < limit" "runnable (lru_pre limit) alru_step oprs (alru_new v)"
  shows "\<exists>s s'. lru_new limit v = Some s \<and>
    run (lru_step limit) oprs s = Some (s', snd (arun alru_step oprs (alru_new v))) \<and>
    m_size s' = a_count (fst (arun alru_step oprs (alru_new v)))"
proof -
  obtain s where s: "lru_new limit v = Some s" "lru_rel s (alru_new v)" using lru_new_refines [OF assms(1)] by blast
  from lruq.run_refines [OF s(2) assms(2)] s(1) show ?thesis by (blast dest: lru_relD(8))
qed

theorem lru_refines_witness:
  "\<exists>s s'. lru_new 65535 (\<lambda>_. 0 :: nat) = Some s \<and>
    run (lru_step 65535) [Push_front 10, Push_front 20, Push_front 30, Access 1, Back, Pop_back, Back, Front] s =
      Some (s', [Key 1, Key 2, Key 3, Done, Value 20, Done, Value 30, Value 10])"
  using lru_refines [of 65535 "[Push_front 10, Push_front 20, Push_front 30, Access 1, Back, Pop_back, Back, Front]" "\<lambda>_. 0 :: nat"]
  by (auto simp: numeral_2_eq_2 numeral_3_eq_3 alru_new_def a_count_def a_forget_def a_release_def Let_def del: lru_step.simps run.simps)

text \<open>
  The assertion in \<open>lru_push_front\<close> lets one more entry through than fits beside the sentinel: with
  \<open>limit - 1\<close> live entries it holds, and the allocation fails.
\<close>

lemma push_front_at_limit:
  assumes "lru_rel s x" "Suc (a_count x) = limit" "a_free x = []"
  shows "m_size s < limit" and "lru_push_front limit v s = None"
  using assms lru_relD(3,7,8) [OF assms(1)] records_used [OF assms(1)]
  by (simp_all add: lru_push_front_def do_alloc_def free_ring_def Let_def)

text \<open>
  When every live key is cleared, the assertion in \<open>pop_back\<close> holds and the key it removes is the
  sentinel, which then is the record that the next \<open>lru_push_front\<close> reuses.
\<close>

lemma pop_back_frees_sentinel:
  assumes "lru_rel s x" "a_order x = []" "a_cleared x \<noteq> []" "a_free x = []"
  shows "\<exists>s'. lru_pop_back s = Some s' \<and> m_free s' = Some 0"
proof -
  have "0 < m_array_size s" using records_used [OF assms(1)] lru_relD(7) [OF assms(1)] by simp
  then show ?thesis using assms ring_ends [OF assms(1)] lru_relD(3,8) [OF assms(1)]
    by (simp add: lru_pop_back_def lru_remove_def free_ring_def a_count_def Let_def)
qed

end
