(* ===== verification/Spin_Locks.thy ===== *)
theory Spin_Locks
  imports Prelude
begin

text \<open>
  The spin locks of thread/thread.h and thread/thread.cpp as programs of concurrent CPUs.  A state
  holds the atomic variables and the program counter of every CPU; a step lets one CPU do its next
  atomic access, and a run is any interleaving of such steps.  The order of the accesses is that of
  the source; where the memory order of an access admits it, the asymmetric lock is also run with
  a store buffer.
\<close>

subsection \<open>Interleavings\<close>

definition interleave :: "('a \<Rightarrow> 's \<Rightarrow> 's) \<Rightarrow> 'a list \<Rightarrow> 's \<Rightarrow> 's" where
  "interleave step as s = foldl (\<lambda>s a. step a s) s as"

locale step_invariant =
  fixes step :: "'a \<Rightarrow> 's \<Rightarrow> 's" and s0 :: 's and inv :: "'s \<Rightarrow> bool"
  assumes inv_init: "inv s0" and inv_step: "inv s \<Longrightarrow> inv (step a s)"
begin

lemma inv_interleave: "inv (interleave step as s0)"
proof -
  have "inv (interleave step as s)" if "inv s" for s
    using that by (induction as arbitrary: s) (simp_all add: interleave_def inv_step)
  then show ?thesis using inv_init by blast
qed

end

text \<open>What a CPU may begin next: to lock, to try to lock, or to unlock what it holds.\<close>

datatype request = Lock | Try | Unlock

subsection \<open>spinlock\<close>

datatype tas_pc = T_idle | T_xchg | T_load | T_try_load | T_try_xchg | T_held

record tas =
  tas_lock :: bool
  tas_pc :: "nat \<Rightarrow> tas_pc"

definition tas_goto :: "nat \<Rightarrow> tas_pc \<Rightarrow> tas \<Rightarrow> tas" where
  "tas_goto t p s = s\<lparr>tas_pc := (tas_pc s)(t := p)\<rparr>"

fun tas_step :: "nat \<times> request \<Rightarrow> tas \<Rightarrow> tas" where
  "tas_step (t, r) s =
     (case tas_pc s t of
        T_idle \<Rightarrow> (case r of Lock \<Rightarrow> tas_goto t T_xchg s | Try \<Rightarrow> tas_goto t T_try_load s | Unlock \<Rightarrow> s)
      | T_xchg \<Rightarrow> tas_goto t (if tas_lock s then T_load else T_held) (s\<lparr>tas_lock := True\<rparr>)
      | T_load \<Rightarrow> (if tas_lock s then s else tas_goto t T_xchg s)
      | T_try_load \<Rightarrow> tas_goto t (if tas_lock s then T_idle else T_try_xchg) s
      | T_try_xchg \<Rightarrow> tas_goto t (if tas_lock s then T_idle else T_held) (s\<lparr>tas_lock := True\<rparr>)
      | T_held \<Rightarrow> (if r = Unlock then tas_goto t T_idle (s\<lparr>tas_lock := False\<rparr>) else s))"

definition tas_init :: tas where
  "tas_init = \<lparr>tas_lock = False, tas_pc = \<lambda>_. T_idle\<rparr>"

definition tas_inv :: "tas \<Rightarrow> bool" where
  "tas_inv s \<longleftrightarrow> (\<exists>owner. tas_lock s = (owner \<noteq> None) \<and> (\<forall>t. tas_pc s t = T_held \<longleftrightarrow> owner = Some t))"

lemma tas_step_inv:
  assumes "tas_inv s"
  shows "tas_inv (tas_step (t, r) s)"
proof -
  obtain owner where I: "tas_lock s = (owner \<noteq> None)" "\<And>t. tas_pc s t = T_held \<longleftrightarrow> owner = Some t"
    using assms by (auto simp: tas_inv_def)
  have keep: "tas_inv (tas_goto t p s)" if "p \<noteq> T_held" "tas_pc s t \<noteq> T_held" for p
    using I that by (auto simp: tas_inv_def tas_goto_def)
  have same: "tas_inv (tas_goto t p (s\<lparr>tas_lock := True\<rparr>))" if "tas_lock s" "p \<noteq> T_held" "tas_pc s t \<noteq> T_held" for p
    using I that by (auto simp: tas_inv_def tas_goto_def)
  have take: "tas_inv (tas_goto t T_held (s\<lparr>tas_lock := True\<rparr>))" if "\<not> tas_lock s"
    unfolding tas_inv_def by (rule exI [of _ "Some t"]) (use I that in \<open>auto simp: tas_goto_def\<close>)
  show ?thesis
  proof (cases "tas_pc s t")
    case T_idle
    then show ?thesis using assms keep by (cases r) auto
  next
    case T_held
    then have "owner = Some t" using I by blast
    then have "tas_inv (tas_goto t T_idle (s\<lparr>tas_lock := False\<rparr>))"
      unfolding tas_inv_def using I(2) by (intro exI [of _ None]) (auto simp: tas_goto_def)
    then show ?thesis using T_held assms by simp
  qed (use assms keep take same in auto)
qed

interpretation tasi: step_invariant tas_step tas_init tas_inv
proof
  show "tas_inv tas_init" by (simp add: tas_inv_def tas_init_def)
  show "tas_inv (tas_step a s)" if "tas_inv s" for a s using that tas_step_inv by (cases a) simp
qed

subsection \<open>ticket_spinlock\<close>

text \<open>Both counters are \<open>size_t\<close> and wrap around.\<close>

datatype ticket_pc = K_idle | K_wait u64 | K_held | K_unlock u64

record ticket_lock =
  serv :: u64
  next_ticket :: u64
  k_pc :: "nat \<Rightarrow> ticket_pc"

definition k_goto :: "nat \<Rightarrow> ticket_pc \<Rightarrow> ticket_lock \<Rightarrow> ticket_lock" where
  "k_goto t p s = s\<lparr>k_pc := (k_pc s)(t := p)\<rparr>"

text \<open>The step of a CPU with a number below \<open>cpus\<close>.\<close>

fun ticket_step :: "nat \<Rightarrow> nat \<times> request \<Rightarrow> ticket_lock \<Rightarrow> ticket_lock" where
  "ticket_step cpus (t, r) s =
     (if \<not> t < cpus then s
      else case k_pc s t of
        K_idle \<Rightarrow> (if r = Lock then k_goto t (K_wait (next_ticket s)) (s\<lparr>next_ticket := next_ticket s + 1\<rparr>) else s)
      | K_wait k \<Rightarrow> (if serv s \<noteq> k then s else k_goto t K_held s)
      | K_held \<Rightarrow> (if r = Unlock then k_goto t (K_unlock (serv s + 1)) s else s)
      | K_unlock successor \<Rightarrow> k_goto t K_idle (s\<lparr>serv := successor\<rparr>))"

definition ticket_init :: ticket_lock where
  "ticket_init = \<lparr>serv = 0, next_ticket = 0, k_pc = \<lambda>_. K_idle\<rparr>"

text \<open>The CPUs that have a ticket, from the one that is served on; the i-th one has the i-th next ticket.\<close>

fun k_place :: "ticket_lock \<Rightarrow> nat \<Rightarrow> nat \<Rightarrow> bool" where
  "k_place s i t \<longleftrightarrow>
     (case k_pc s t of
        K_idle \<Rightarrow> False
      | K_wait k \<Rightarrow> k = serv s + of_nat i
      | K_held \<Rightarrow> i = 0
      | K_unlock k \<Rightarrow> i = 0 \<and> k = serv s + 1)"

definition k_queue :: "nat \<Rightarrow> ticket_lock \<Rightarrow> nat list \<Rightarrow> bool" where
  "k_queue cpus s q \<longleftrightarrow> distinct q \<and> set q = {t. k_pc s t \<noteq> K_idle} \<and> set q \<subseteq> {..<cpus} \<and>
     next_ticket s = serv s + of_nat (length q) \<and> (\<forall>i<length q. k_place s i (q ! i))"

lemma k_queue_length: "k_queue cpus s q \<Longrightarrow> length q \<le> cpus"
  unfolding k_queue_def by (metis card_lessThan card_mono distinct_card finite_lessThan)

lemma ticket_step_inv:
  assumes "k_queue cpus s q" and small: "cpus < 2 ^ 64"
  shows "\<exists>q'. k_queue cpus (ticket_step cpus (t, r) s) q'"
proof (cases "t < cpus")
  case True
  note Q = assms(1) [unfolded k_queue_def]
  show ?thesis
  proof (cases "k_pc s t")
    case K_idle
    then have "t \<notin> set q" using Q by auto
    then have pl: "k_pc s (q ! i) = ((k_pc s)(t := p)) (q ! i)" if "i < length q" for i p
      using that nth_mem by fastforce
    have "k_queue cpus (k_goto t (K_wait (next_ticket s)) (s\<lparr>next_ticket := next_ticket s + 1\<rparr>)) (q @ [t])"
      using Q K_idle True pl [symmetric] \<open>t \<notin> set q\<close> by (auto simp: k_queue_def k_goto_def nth_append less_Suc_eq split: ticket_pc.splits)
    then show ?thesis using K_idle True assms(1) by (cases "r = Lock") auto
  next
    case (K_wait k)
    show ?thesis
    proof (cases "serv s = k")
      case eq: True
      have "t \<in> set q" using Q K_wait by auto
      then obtain i where i: "i < length q" "q ! i = t" by (auto simp: in_set_conv_nth)
      then have "of_nat i = (0 :: u64)" using Q K_wait eq by auto
      moreover have "i < 2 ^ 64" using i k_queue_length [OF assms(1)] small by linarith
      ultimately have "i = 0" using unat_of_nat_u64 [of i] by simp
      then have "j = 0" if "j < length q" "q ! j = t" for j using that i Q nth_eq_iff_index_eq by fastforce
      then have "k_queue cpus (k_goto t K_held s) q"
        using Q K_wait by (auto simp: k_queue_def k_goto_def split: ticket_pc.splits)
      then show ?thesis using K_wait True eq by auto
    qed (use K_wait True assms(1) in auto)
  next
    case K_held
    have "j = 0" if "j < length q" "q ! j = t" for j using that Q K_held by auto
    then have "k_queue cpus (k_goto t (K_unlock (serv s + 1)) s) q"
      using Q K_held by (auto simp: k_queue_def k_goto_def split: ticket_pc.splits)
    then show ?thesis using K_held True assms(1) by auto
  next
    case (K_unlock k)
    have "t \<in> set q" using Q K_unlock by auto
    then obtain i where i: "i < length q" "q ! i = t" by (auto simp: in_set_conv_nth)
    then have "i = 0" "k = serv s + 1" using Q K_unlock by auto
    then obtain q' where q: "q = t # q'" using i by (cases q) auto
    have "k_place (k_goto t K_idle (s\<lparr>serv := k\<rparr>)) j (q' ! j)" if j: "j < length q'" for j
    proof -
      have "\<forall>i<length q. k_place s i (q ! i)" using Q by blast
      then have "k_place s (Suc j) (q ! Suc j)" using q j by (simp only: length_Cons Suc_less_eq)
      then have "k_place s (Suc j) (q' ! j)" using q by (simp only: nth_Cons_Suc)
      moreover have "q' ! j \<noteq> t" using Q q j by (metis distinct.simps(2) nth_mem)
      ultimately show ?thesis using \<open>k = serv s + 1\<close> by (auto simp: k_goto_def add_ac split: ticket_pc.splits)
    qed
    moreover have "set q' = {u. k_pc (k_goto t K_idle (s\<lparr>serv := k\<rparr>)) u \<noteq> K_idle}"
    proof -
      have "set q' = {u. k_pc s u \<noteq> K_idle} - {t}" using Q q by (metis Diff_insert_absorb distinct.simps(2) list.simps(15))
      then show ?thesis by (auto simp: k_goto_def)
    qed
    ultimately have "k_queue cpus (k_goto t K_idle (s\<lparr>serv := k\<rparr>)) q'"
      using Q q \<open>k = serv s + 1\<close> unfolding k_queue_def by (simp add: k_goto_def add_ac)
    then show ?thesis using K_unlock True by auto
  qed
qed (use assms(1) in auto)

interpretation ticketi: step_invariant "ticket_step cpus" ticket_init "\<lambda>s. cpus < 2 ^ 64 \<longrightarrow> (\<exists>q. k_queue cpus s q)" for cpus
proof
  show "cpus < 2 ^ 64 \<longrightarrow> (\<exists>q. k_queue cpus ticket_init q)"
    by (auto simp: k_queue_def ticket_init_def intro: exI [of _ "[]"])
  show "cpus < 2 ^ 64 \<longrightarrow> (\<exists>q. k_queue cpus (ticket_step cpus a s) q)"
    if "cpus < 2 ^ 64 \<longrightarrow> (\<exists>q. k_queue cpus s q)" for a s
    using that ticket_step_inv by (cases a) blast
qed

lemma k_queue_exclusive:
  assumes "k_queue cpus s q" "k_pc s t \<in> insert K_held (range K_unlock)" "k_pc s u \<in> insert K_held (range K_unlock)"
  shows "t = u"
proof -
  have "q ! 0 = x" if x: "k_pc s x \<in> insert K_held (range K_unlock)" for x
  proof -
    have "x \<in> set q" using assms(1) x by (auto simp: k_queue_def)
    then obtain i where i: "i < length q" "q ! i = x" by (auto simp: in_set_conv_nth)
    then have "k_place s i x" using assms(1) by (auto simp only: k_queue_def)
    then show ?thesis using i x by auto
  qed
  then show ?thesis using assms(2,3) by metis
qed

subsection \<open>asymmetric_spinLock\<close>

text \<open>
  One foreground CPU and any number of background CPUs.  \<open>fg_buffer\<close> holds the stores of the foreground
  CPU to \<open>foreground_locked\<close> that have not reached the memory: its release store may be delayed past
  its later acquire load of the other variable, as on a machine with store buffers.  With \<open>buffered\<close>
  off every store is visible at once.
\<close>

datatype fg_pc = F_idle | F_wait | F_held
datatype bg_pc = B_idle | B_wait | B_xchg | B_check | B_release | B_held

record asym_lock =
  foreground_locked :: bool
  background_locked :: bool
  fg_buffer :: "bool list"
  fg_pc :: fg_pc
  bg_pc :: "nat \<Rightarrow> bg_pc"

definition store_foreground :: "bool \<Rightarrow> bool \<Rightarrow> asym_lock \<Rightarrow> asym_lock" where
  "store_foreground buffered b s =
     (if buffered then s\<lparr>fg_buffer := fg_buffer s @ [b]\<rparr> else s\<lparr>foreground_locked := b\<rparr>)"

definition foreground_step :: "bool \<Rightarrow> request \<Rightarrow> asym_lock \<Rightarrow> asym_lock" where
  "foreground_step buffered r s =
     (case fg_pc s of
        F_idle \<Rightarrow> (if r = Lock then (store_foreground buffered True s)\<lparr>fg_pc := F_wait\<rparr> else s)
      | F_wait \<Rightarrow> (if background_locked s then s else s\<lparr>fg_pc := F_held\<rparr>)
      | F_held \<Rightarrow> (if r = Unlock then (store_foreground buffered False s)\<lparr>fg_pc := F_idle\<rparr> else s))"

definition b_goto :: "nat \<Rightarrow> bg_pc \<Rightarrow> asym_lock \<Rightarrow> asym_lock" where
  "b_goto t p s = s\<lparr>bg_pc := (bg_pc s)(t := p)\<rparr>"

definition background_step :: "nat \<Rightarrow> request \<Rightarrow> asym_lock \<Rightarrow> asym_lock" where
  "background_step t r s =
     (case bg_pc s t of
        B_idle \<Rightarrow> (if r = Try then b_goto t B_wait s else s)
      | B_wait \<Rightarrow> (if foreground_locked s then s else b_goto t B_xchg s)
      | B_xchg \<Rightarrow> b_goto t (if background_locked s then B_idle else B_check) (s\<lparr>background_locked := True\<rparr>)
      | B_check \<Rightarrow> b_goto t (if foreground_locked s then B_release else B_held) s
      | B_release \<Rightarrow> b_goto t B_wait (s\<lparr>background_locked := False\<rparr>)
      | B_held \<Rightarrow> (if r = Unlock then b_goto t B_idle (s\<lparr>background_locked := False\<rparr>) else s))"

definition drain_store :: "asym_lock \<Rightarrow> asym_lock" where
  "drain_store s =
     (case fg_buffer s of [] \<Rightarrow> s | b # bs \<Rightarrow> s\<lparr>foreground_locked := b, fg_buffer := bs\<rparr>)"

datatype asym_action = Foreground request | Background nat request | Drain

fun asym_step :: "bool \<Rightarrow> asym_action \<Rightarrow> asym_lock \<Rightarrow> asym_lock" where
  "asym_step buffered (Foreground r) s = foreground_step buffered r s"
| "asym_step buffered (Background t r) s = background_step t r s"
| "asym_step buffered Drain s = drain_store s"

definition asym_init :: asym_lock where
  "asym_init = \<lparr>foreground_locked = False, background_locked = False, fg_buffer = [], fg_pc = F_idle, bg_pc = \<lambda>_. B_idle\<rparr>"

definition b_owning :: "bg_pc \<Rightarrow> bool" where
  "b_owning p \<longleftrightarrow> p = B_check \<or> p = B_release \<or> p = B_held"

definition asym_inv :: "asym_lock \<Rightarrow> bool" where
  "asym_inv s \<longleftrightarrow> fg_buffer s = [] \<and> (fg_pc s \<noteq> F_idle \<longrightarrow> foreground_locked s) \<and>
     (fg_pc s = F_held \<longrightarrow> (\<forall>t. bg_pc s t \<noteq> B_held)) \<and>
     (\<exists>owner. background_locked s = (owner \<noteq> None) \<and> (\<forall>t. b_owning (bg_pc s t) \<longleftrightarrow> owner = Some t))"

lemma foreground_inv: "asym_inv s \<Longrightarrow> asym_inv (foreground_step False r s)"
  by (cases "fg_pc s") (auto simp: asym_inv_def foreground_step_def store_foreground_def b_owning_def)

lemma background_inv:
  assumes "asym_inv s"
  shows "asym_inv (background_step t r s)"
proof -
  obtain owner where I: "background_locked s = (owner \<noteq> None)" "\<And>t. b_owning (bg_pc s t) \<longleftrightarrow> owner = Some t"
    using assms by (auto simp: asym_inv_def)
  have set_inv: "asym_inv (b_goto t p (s\<lparr>background_locked := (own \<noteq> None)\<rparr>))"
    if "\<And>u. (if u = t then b_owning p else owner = Some u) \<longleftrightarrow> own = Some u" "p = B_held \<Longrightarrow> fg_pc s \<noteq> F_held" for p own
  proof -
    have "b_owning (((bg_pc s)(t := p)) u) \<longleftrightarrow> own = Some u" for u using that(1) [of u] I(2) [of u] by (auto split: if_splits)
    then show ?thesis using assms that(2) unfolding asym_inv_def b_goto_def by (intro conjI exI [of _ own]) auto
  qed
  have keep: "asym_inv (b_goto t p s)"
    if "b_owning p = b_owning (bg_pc s t)" "p = B_held \<Longrightarrow> fg_pc s \<noteq> F_held" for p
    using assms that I unfolding asym_inv_def b_goto_def by (intro conjI exI [of _ owner]) auto
  show ?thesis
  proof (cases "bg_pc s t")
    case B_xchg
    then have t: "owner \<noteq> Some t" using I(2) [of t] by (simp add: b_owning_def)
    show ?thesis
    proof (cases "background_locked s")
      case True
      have "asym_inv (b_goto t B_idle (s\<lparr>background_locked := (owner \<noteq> None)\<rparr>))"
        by (rule set_inv) (use t in \<open>auto simp: b_owning_def\<close>)
      then show ?thesis using True I(1) B_xchg by (simp add: background_step_def)
    next
      case False
      have "asym_inv (b_goto t B_check (s\<lparr>background_locked := (Some t \<noteq> None)\<rparr>))"
        by (rule set_inv) (use False I(1) in \<open>auto simp: b_owning_def\<close>)
      then show ?thesis using False B_xchg by (simp add: background_step_def)
    qed
  next
    case B_release
    then have t: "owner = Some t" using I(2) [of t] by (simp add: b_owning_def)
    have "asym_inv (b_goto t B_wait (s\<lparr>background_locked := (None \<noteq> (None :: nat option))\<rparr>))"
      by (rule set_inv) (use t in \<open>auto simp: b_owning_def\<close>)
    then show ?thesis using B_release by (simp add: background_step_def)
  next
    case B_held
    then have t: "owner = Some t" using I(2) [of t] by (simp add: b_owning_def)
    have "asym_inv (b_goto t B_idle (s\<lparr>background_locked := (None \<noteq> (None :: nat option))\<rparr>))"
      by (rule set_inv) (use t in \<open>auto simp: b_owning_def\<close>)
    then show ?thesis using B_held assms by (simp add: background_step_def)
  next
    case B_check
    then show ?thesis using keep [of B_release] keep [of B_held] assms
      by (auto simp: background_step_def b_owning_def asym_inv_def [of s])
  qed (use assms keep in \<open>auto simp: background_step_def b_owning_def\<close>)
qed

interpretation asymi: step_invariant "asym_step False" asym_init asym_inv
proof
  show "asym_inv asym_init" by (auto simp: asym_inv_def asym_init_def b_owning_def)
  show "asym_inv (asym_step False a s)" if "asym_inv s" for a s
    using that foreground_inv background_inv by (cases a) (simp_all add: drain_store_def asym_inv_def [of s])
qed

subsection \<open>Properties\<close>

text \<open>
  C25: In every interleaving, at most one CPU holds a test-and-set spin lock; at most one of fewer than
  \<open>2 ^ 64\<close> CPUs is between the end of \<open>lock\<close> and the end of \<open>unlock\<close> of a ticket lock, although both of
  its counters wrap around; and when stores are visible at once, at most one CPU, foreground or
  background, holds an asymmetric lock.
\<close>

theorem spin_locks_exclude:
  assumes "s = interleave tas_step as tas_init"
    and "k = interleave (ticket_step cpus) bs ticket_init" "cpus < 2 ^ 64"
    and "a = interleave (asym_step False) cs asym_init"
  shows "(tas_pc s t = T_held \<and> tas_pc s u = T_held \<longrightarrow> t = u) \<and>
    (k_pc k t \<in> insert K_held (range K_unlock) \<and> k_pc k u \<in> insert K_held (range K_unlock) \<longrightarrow> t = u) \<and>
    (bg_pc a t = B_held \<longrightarrow> fg_pc a \<noteq> F_held \<and> (bg_pc a u = B_held \<longrightarrow> t = u))"
proof (intro conjI impI)
  show "t = u" if "tas_pc s t = T_held \<and> tas_pc s u = T_held"
    using tasi.inv_interleave [of as] that assms(1) by (auto simp: tas_inv_def)
  obtain q where "k_queue cpus k q" using ticketi.inv_interleave [of cpus bs] assms(2,3) by blast
  then show "t = u" if "k_pc k t \<in> insert K_held (range K_unlock) \<and> k_pc k u \<in> insert K_held (range K_unlock)"
    using that k_queue_exclusive by blast
  have I: "asym_inv a" using asymi.inv_interleave [of cs] assms(4) by simp
  then show "fg_pc a \<noteq> F_held" if "bg_pc a t = B_held" using that by (auto simp: asym_inv_def)
  obtain own where "\<And>x. b_owning (bg_pc a x) \<longleftrightarrow> own = Some x" using I by (auto simp: asym_inv_def)
  then show "t = u" if "bg_pc a t = B_held" "bg_pc a u = B_held"
    using that by (metis b_owning_def option.inject)
qed

text \<open>A background CPU takes the lock, the foreground CPU asks for it and waits.\<close>

definition asym_demo :: "asym_action list" where
  "asym_demo = [Background 3 Try, Background 3 Try, Background 3 Try, Background 3 Try, Foreground Lock, Foreground Lock]"

theorem spin_locks_exclude_witness:
  "{t. tas_pc (interleave tas_step [(0, Lock), (1, Try), (0, Lock), (1, Try)] tas_init) t = T_held} = {0} \<and>
   {t. k_pc (interleave (ticket_step 2) [(0, Lock), (1, Lock), (1, Lock), (0, Lock)] ticket_init) t = K_held} = {0} \<and>
   {t. bg_pc (interleave (asym_step False) asym_demo asym_init) t = B_held} = {3}"
proof -
  let ?s = "interleave tas_step [(0, Lock), (1, Try), (0, Lock), (1, Try)] tas_init"
    and ?k = "interleave (ticket_step 2) [(0, Lock), (1, Lock), (1, Lock), (0, Lock)] ticket_init"
    and ?a = "interleave (asym_step False) asym_demo asym_init"
  have h1: "tas_pc ?s 0 = T_held" by (simp add: interleave_def tas_init_def tas_goto_def)
  have h2: "k_pc ?k 0 = K_held" by (simp add: interleave_def ticket_init_def k_goto_def)
  have h3: "bg_pc ?a 3 = B_held"
    by (simp add: interleave_def asym_init_def asym_demo_def background_step_def foreground_step_def
        store_foreground_def b_goto_def)
  have "(2 :: nat) < 2 ^ 64" by simp
  note E = spin_locks_exclude [OF refl refl this refl]
  have "t = 0" if "tas_pc ?s t = T_held" for t using E [THEN conjunct1] that h1 by blast
  moreover have "t = 0" if "k_pc ?k t = K_held" for t using E [THEN conjunct2, THEN conjunct1] that h2 by blast
  moreover have "t = 3" if "bg_pc ?a t = B_held" for t using E [THEN conjunct2, THEN conjunct2] that h3 by blast
  ultimately have "{t. tas_pc ?s t = T_held} = {0}" "{t. k_pc ?k t = K_held} = {0}" "{t. bg_pc ?a t = B_held} = {3}"
    using h1 h2 h3 by blast+
  then show ?thesis by blast
qed


end
