(* ===== verification/Queue_Spinlock.thy ===== *)
theory Queue_Spinlock
  imports Spin_Locks
begin

text \<open>
  The queue lock \<open>qspinlock\<close> of thread/thread.cpp.  A CPU has one \<open>holder\<close> for all locks; a lock is the
  pointer to the holder at the tail of its queue.  The program counter of a CPU names the lock it
  works on, so a CPU uses one lock at a time.
\<close>

subsection \<open>The program\<close>

datatype 'l qpc = Idle | Q_reset 'l nat | Q_link 'l nat | Q_spin 'l | Q_held 'l
  | U_load 'l | U_clear 'l nat | U_hand 'l nat | U_cas 'l | Q_failed

datatype 'l qrequest = Q_lock 'l | Q_try_lock 'l | Q_unlock | Q_stay

record 'l qspin =
  owner_tail :: "'l \<Rightarrow> nat option"
  h_next :: "nat \<Rightarrow> nat option"
  got_lock :: "nat \<Rightarrow> bool"
  q_pc :: "nat \<Rightarrow> 'l qpc"

definition q_goto :: "nat \<Rightarrow> 'l qpc \<Rightarrow> 'l qspin \<Rightarrow> 'l qspin" where
  "q_goto t p s = s\<lparr>q_pc := (q_pc s)(t := p)\<rparr>"

text \<open>\<open>lock\<close> asserts that the holder has no successor and exchanges the tail.\<close>

definition q_exchange :: "nat \<Rightarrow> 'l \<Rightarrow> 'l qspin \<Rightarrow> 'l qspin" where
  "q_exchange t l s =
     (if h_next s t \<noteq> None then q_goto t Q_failed s
      else q_goto t (case owner_tail s l of None \<Rightarrow> Q_held l | Some old_tail \<Rightarrow> Q_reset l old_tail)
             (s\<lparr>owner_tail := (owner_tail s)(l := Some t)\<rparr>))"

definition q_try :: "nat \<Rightarrow> 'l \<Rightarrow> 'l qspin \<Rightarrow> 'l qspin" where
  "q_try t l s =
     (if owner_tail s l = None then q_goto t (Q_held l) (s\<lparr>owner_tail := (owner_tail s)(l := Some t)\<rparr>) else s)"

text \<open>The rest of \<open>lock\<close>: reset the flag, link behind the old tail, spin on the flag.\<close>

definition q_link :: "nat \<Rightarrow> 'l \<Rightarrow> nat \<Rightarrow> 'l qspin \<Rightarrow> 'l qspin" where
  "q_link t l old_tail s =
     (if h_next s old_tail \<noteq> None then q_goto t Q_failed s
      else q_goto t (Q_spin l) (s\<lparr>h_next := (h_next s)(old_tail := Some t)\<rparr>))"

fun q_step :: "nat \<times> 'l qrequest \<Rightarrow> 'l qspin \<Rightarrow> 'l qspin" where
  "q_step (t, r) s =
     (case q_pc s t of
        Idle \<Rightarrow> (case r of Q_lock l \<Rightarrow> q_exchange t l s | Q_try_lock l \<Rightarrow> q_try t l s | _ \<Rightarrow> s)
      | Q_reset l old_tail \<Rightarrow> q_goto t (Q_link l old_tail) (s\<lparr>got_lock := (got_lock s)(t := False)\<rparr>)
      | Q_link l old_tail \<Rightarrow> q_link t l old_tail s
      | Q_spin l \<Rightarrow> (if got_lock s t then q_goto t (Q_held l) s else s)
      | Q_held l \<Rightarrow> (if r = Q_unlock then q_goto t (U_load l) s else s)
      | U_load l \<Rightarrow> q_goto t (case h_next s t of Some n \<Rightarrow> U_clear l n | None \<Rightarrow> U_cas l) s
      | U_clear l n \<Rightarrow> q_goto t (U_hand l n) (s\<lparr>h_next := (h_next s)(t := None)\<rparr>)
      | U_hand l n \<Rightarrow> q_goto t Idle (s\<lparr>got_lock := (got_lock s)(n := True)\<rparr>)
      | U_cas l \<Rightarrow>
          (if owner_tail s l = Some t then q_goto t Idle (s\<lparr>owner_tail := (owner_tail s)(l := None)\<rparr>)
           else q_goto t (U_load l) s)
      | Q_failed \<Rightarrow> s)"

definition q_init :: "'l qspin" where
  "q_init = \<lparr>owner_tail = \<lambda>_. None, h_next = \<lambda>_. None, got_lock = \<lambda>_. False, q_pc = \<lambda>_. Idle\<rparr>"

subsection \<open>The queue of a lock\<close>

fun q_lock_of :: "'l qpc \<Rightarrow> 'l option" where
  "q_lock_of (Q_reset l _) = Some l"
| "q_lock_of (Q_link l _) = Some l"
| "q_lock_of (Q_spin l) = Some l"
| "q_lock_of (Q_held l) = Some l"
| "q_lock_of (U_load l) = Some l"
| "q_lock_of (U_clear l _) = Some l"
| "q_lock_of (U_hand l _) = Some l"
| "q_lock_of (U_cas l) = Some l"
| "q_lock_of _ = None"

text \<open>
  The waiters behind CPU \<open>p\<close>.  A waiter is about to reset its flag, about to link itself, or linked
  and spinning with its flag down.
\<close>

fun q_waiter :: "'l qspin \<Rightarrow> 'l \<Rightarrow> nat \<Rightarrow> nat \<Rightarrow> bool" where
  "q_waiter s l p t \<longleftrightarrow>
     q_pc s t = Q_reset l p \<and> h_next s p = None \<or>
     q_pc s t = Q_link l p \<and> \<not> got_lock s t \<and> h_next s p = None \<or>
     q_pc s t = Q_spin l \<and> \<not> got_lock s t \<and> h_next s p = Some t"

fun q_behind :: "'l qspin \<Rightarrow> 'l \<Rightarrow> nat \<Rightarrow> nat list \<Rightarrow> bool" where
  "q_behind s l p [] \<longleftrightarrow> h_next s p = None"
| "q_behind s l p (t # ts) \<longleftrightarrow> q_waiter s l p t \<and> q_behind s l t ts"

text \<open>The CPU at the front has the lock, or has been given it, or is handing it on.\<close>

fun q_front :: "'l qspin \<Rightarrow> 'l \<Rightarrow> nat list \<Rightarrow> bool" where
  "q_front s l [] \<longleftrightarrow> True"
| "q_front s l (t # ts) \<longleftrightarrow>
     (case q_pc s t of
        Q_held k \<Rightarrow> k = l \<and> q_behind s l t ts
      | U_load k \<Rightarrow> k = l \<and> q_behind s l t ts
      | U_cas k \<Rightarrow> k = l \<and> q_behind s l t ts
      | Q_spin k \<Rightarrow> k = l \<and> got_lock s t \<and> q_behind s l t ts
      | U_clear k n \<Rightarrow> k = l \<and> h_next s t = Some n \<and> q_behind s l t ts
      | U_hand k n \<Rightarrow> k = l \<and> h_next s t = None \<and>
          (\<exists>us. ts = n # us \<and> q_pc s n = Q_spin l \<and> \<not> got_lock s n \<and> q_behind s l n us)
      | _ \<Rightarrow> False)"

definition q_inv :: "'l qspin \<Rightarrow> ('l \<Rightarrow> nat list) \<Rightarrow> bool" where
  "q_inv s Q \<longleftrightarrow>
     (\<forall>l. distinct (Q l) \<and> owner_tail s l = (if Q l = [] then None else Some (last (Q l))) \<and> q_front s l (Q l)) \<and>
     (\<forall>l t. t \<in> set (Q l) \<longleftrightarrow> q_lock_of (q_pc s t) = Some l) \<and>
     (\<forall>t. q_pc s t \<noteq> Q_failed \<and> (q_pc s t = Idle \<longrightarrow> h_next s t = None))"

text \<open>Only the words of the CPUs in the queue matter.\<close>

definition q_same :: "'l qspin \<Rightarrow> 'l qspin \<Rightarrow> nat \<Rightarrow> bool" where
  "q_same s s' t \<longleftrightarrow> h_next s' t = h_next s t \<and> got_lock s' t = got_lock s t \<and> q_pc s' t = q_pc s t"

lemma q_behind_cong:
  "h_next s' p = h_next s p \<Longrightarrow> (\<And>t. t \<in> set ts \<Longrightarrow> q_same s s' t) \<Longrightarrow> q_behind s' l p ts = q_behind s l p ts"
  by (induction ts arbitrary: p) (auto simp: q_same_def)

lemma q_front_cong:
  assumes "\<And>t. t \<in> set ts \<Longrightarrow> q_same s s' t"
  shows "q_front s' l ts = q_front s l ts"
proof (cases ts)
  case (Cons t us)
  have 1: "h_next s' t = h_next s t" "got_lock s' t = got_lock s t" "q_pc s' t = q_pc s t"
    and 2: "q_behind s' l t us = q_behind s l t us"
    using assms Cons q_behind_cong [of s' t s us l] by (auto simp: q_same_def)
  have 3: "us = n # vs \<and> q_pc s' n = Q_spin l \<and> \<not> got_lock s' n \<and> q_behind s' l n vs \<longleftrightarrow>
      us = n # vs \<and> q_pc s n = Q_spin l \<and> \<not> got_lock s n \<and> q_behind s l n vs" for n vs
    using assms Cons q_behind_cong [of s' n s vs l] by (auto simp: q_same_def)
  show ?thesis unfolding Cons q_front.simps 1 2 3 ..
qed simp

text \<open>A step of a CPU changes one queue and the words of its members.\<close>

lemma q_inv_change:
  assumes I: "q_inv s Q" and t: "q_lock_of (q_pc s t) \<in> {None, Some l}"
    and same: "\<And>u. u \<noteq> t \<Longrightarrow> q_lock_of (q_pc s u) \<noteq> Some l \<Longrightarrow> q_same s s' u"
    and tails: "\<And>k. k \<noteq> l \<Longrightarrow> owner_tail s' k = owner_tail s k"
    and new: "distinct ts" "owner_tail s' l = (if ts = [] then None else Some (last ts))" "q_front s' l ts"
    and mem: "\<And>u. u = t \<or> q_lock_of (q_pc s u) = Some l \<Longrightarrow>
      q_pc s' u \<noteq> Q_failed \<and> (q_pc s' u = Idle \<longrightarrow> h_next s' u = None) \<and>
      q_lock_of (q_pc s' u) = (if u \<in> set ts then Some l else None)"
    and sub: "\<And>u. u \<in> set ts \<Longrightarrow> u = t \<or> q_lock_of (q_pc s u) = Some l"
  shows "q_inv s' (Q(l := ts))"
proof -
  note D = I [unfolded q_inv_def]
  have other: "q_same s s' u" if "u \<in> set (Q k)" "k \<noteq> l" for u k
  proof (rule same)
    have k: "q_lock_of (q_pc s u) = Some k" using D that(1) by blast
    then show "q_lock_of (q_pc s u) \<noteq> Some l" using that(2) by simp
    show "u \<noteq> t" using k t that(2) by auto
  qed
  have lock: "q_lock_of (q_pc s' u) = q_lock_of (q_pc s u)" "q_pc s' u = q_pc s u" "h_next s' u = h_next s u"
    if "\<not> (u = t \<or> q_lock_of (q_pc s u) = Some l)" for u
    using same [of u] that by (auto simp: q_same_def)
  show ?thesis unfolding q_inv_def
  proof (intro conjI allI)
    fix k u
    show "distinct ((Q(l := ts)) k)" using D new(1) by simp
    show "owner_tail s' k = (if (Q(l := ts)) k = [] then None else Some (last ((Q(l := ts)) k)))"
      using D new(2) tails by simp
    show "q_front s' k ((Q(l := ts)) k)"
      using D new(3) q_front_cong [of "Q k" s s' k] other by auto
    show "u \<in> set ((Q(l := ts)) k) \<longleftrightarrow> q_lock_of (q_pc s' u) = Some k"
    proof (cases "u = t \<or> q_lock_of (q_pc s u) = Some l")
      case True
      then have "k \<noteq> l \<Longrightarrow> u \<notin> set (Q k)" using D t by auto
      then show ?thesis using mem [OF True] by auto
    next
      case False
      then show ?thesis using lock [OF False] D sub by auto
    qed
    show "q_pc s' u \<noteq> Q_failed" "q_pc s' u = Idle \<longrightarrow> h_next s' u = None"
      using mem [of u] lock [of u] D by metis+
  qed
qed

subsection \<open>Waiters join the queue\<close>

lemma q_behind_append:
  assumes "q_behind s l p ts" "h_next s' p = h_next s p" "\<And>u. u \<in> set ts \<Longrightarrow> q_same s s' u"
    and "q_pc s' t = Q_reset l (last (p # ts))" "h_next s' t = None"
  shows "q_behind s' l p (ts @ [t])"
  using assms by (induction ts arbitrary: p) (auto simp: q_same_def split: if_splits)

lemma q_behind_reset:
  assumes "q_behind s l p ts" "distinct (p # ts)" "t \<in> set ts" "q_pc s t = Q_reset k old"
    and s': "s' = q_goto t (Q_link k old) (s\<lparr>got_lock := (got_lock s)(t := False)\<rparr>)"
  shows "q_behind s' l p ts"
  using assms(1-4)
proof (induction ts arbitrary: p)
  case (Cons u us)
  show ?case
  proof (cases "u = t")
    case True
    then have "q_behind s' l u us = q_behind s l u us"
      using Cons.prems(2) by (intro q_behind_cong) (auto simp: q_same_def q_goto_def s')
    moreover have "q_waiter s' l p u" using Cons.prems True by (auto simp: q_goto_def s')
    ultimately show ?thesis using Cons.prems(1) by (simp del: q_waiter.simps)
  next
    case False
    then have "q_behind s' l u us" using Cons by auto
    then show ?thesis using Cons.prems False by (auto simp: q_goto_def s')
  qed
qed simp

lemma q_behind_link:
  assumes "q_behind s l p ts" "distinct (p # ts)" "t \<in> set ts" "q_pc s t = Q_link k old"
    and s': "s' = q_goto t (Q_spin k) (s\<lparr>h_next := (h_next s)(old := Some t)\<rparr>)"
  shows "h_next s old = None \<and> old \<in> set (p # ts) \<and>
    q_behind s' l p ts"
  using assms(1-4)
proof (induction ts arbitrary: p)
  case (Cons u us)
  show ?case
  proof (cases "u = t")
    case True
    then have o: "old = p" "k = l" "h_next s p = None" "\<not> got_lock s t" using Cons.prems by auto
    then have "q_behind s' l u us = q_behind s l u us"
      using Cons.prems(2) True by (intro q_behind_cong) (auto simp: q_same_def q_goto_def s')
    moreover have "q_waiter s' l p u" using Cons.prems True o by (auto simp: q_goto_def s')
    ultimately show ?thesis using Cons.prems(1) o by (simp del: q_waiter.simps)
  next
    case False
    then have I: "h_next s old = None" "old \<in> set (u # us)" "q_behind s' l u us" using Cons by auto
    then have "old \<noteq> p" using Cons.prems(2) by auto
    then show ?thesis using Cons.prems False I by (auto simp: q_goto_def s')
  qed
qed simp

text \<open>The front of the queue with the words of its first CPU kept.\<close>

lemma q_front_cases [consumes 1, case_names has hand]:
  assumes "q_front s l (f # ts)"
  obtains (has) "q_behind s l f ts" "\<And>n. q_pc s f \<noteq> U_hand l n"
    "\<And>k n. q_pc s f \<noteq> Q_reset k n \<and> q_pc s f \<noteq> Q_link k n"
  | (hand) n us where "q_pc s f = U_hand l n" "h_next s f = None" "ts = n # us" "q_pc s n = Q_spin l"
    "\<not> got_lock s n" "q_behind s l n us"
  using assms by (cases "q_pc s f") auto

lemma q_front_transfer:
  assumes "q_front s l (f # ts)" "q_pc s' f = q_pc s f" "got_lock s' f = got_lock s f"
    and "q_behind s l f ts \<Longrightarrow> q_behind s' l f ts'"
    and "\<And>n. q_pc s f = U_clear l n \<Longrightarrow> h_next s' f = Some n"
    and "\<And>n us. q_pc s f = U_hand l n \<Longrightarrow> ts = n # us \<Longrightarrow> q_pc s n = Q_spin l \<Longrightarrow> \<not> got_lock s n \<Longrightarrow> q_behind s l n us \<Longrightarrow>
      h_next s f = None \<Longrightarrow>
      h_next s' f = None \<and> (\<exists>us'. ts' = n # us' \<and> q_pc s' n = Q_spin l \<and> \<not> got_lock s' n \<and> q_behind s' l n us')"
  shows "q_front s' l (f # ts')"
  using assms by (cases "q_pc s f") auto

lemma q_front_append:
  assumes "q_front s l (f # ts)" "\<And>u. u \<in> set (f # ts) \<Longrightarrow> q_same s s' u"
    and "q_pc s' t = Q_reset l (last (f # ts))" "h_next s' t = None"
  shows "q_front s' l (f # ts @ [t])"
proof (rule q_front_transfer [OF assms(1)])
  show "q_behind s' l f (ts @ [t])" if "q_behind s l f ts"
    by (rule q_behind_append [OF that]) (use assms(2-4) in \<open>auto simp: q_same_def\<close>)
  show "h_next s' f = Some n" if "q_pc s f = U_clear l n" for n using assms(1,2) that by (auto simp: q_same_def)
  show "h_next s' f = None \<and> (\<exists>us'. ts @ [t] = n # us' \<and> q_pc s' n = Q_spin l \<and> \<not> got_lock s' n \<and> q_behind s' l n us')"
    if "ts = n # us" "q_pc s n = Q_spin l" "\<not> got_lock s n" "q_behind s l n us" "h_next s f = None" for n us
  proof -
    have "q_behind s' l n (us @ [t])"
      by (rule q_behind_append [OF that(4)]) (use assms(2-4) that(1) in \<open>auto simp: q_same_def\<close>)
    then show ?thesis using that assms(2) by (auto simp: q_same_def)
  qed
qed (use assms(2) in \<open>auto simp: q_same_def\<close>)

lemma q_front_reset:
  assumes "q_front s l (f # ts)" "distinct (f # ts)" "t \<in> set (f # ts)" "q_pc s t = Q_reset k old"
  shows "q_front (q_goto t (Q_link k old) (s\<lparr>got_lock := (got_lock s)(t := False)\<rparr>)) l (f # ts)"
proof -
  have t: "t \<in> set ts" "t \<noteq> f" using assms by auto
  show ?thesis
  proof (rule q_front_transfer [OF assms(1)], goal_cases)
    case 3
    then show ?case using q_behind_reset [OF _ assms(2) t(1) assms(4) refl] by simp
  next
    case (4 n)
    then show ?case using assms(1) by (simp add: q_goto_def)
  next
    case (5 n us)
    then have "t \<in> set us" "distinct (n # us)" "t \<noteq> n" using t assms(2,4) by auto
    then show ?case using 5 q_behind_reset [OF _ _ _ assms(4) refl, of l n us] by (simp add: q_goto_def)
  qed (use t in \<open>simp_all add: q_goto_def\<close>)
qed

lemma q_front_link:
  assumes "q_front s l (f # ts)" "distinct (f # ts)" "t \<in> set (f # ts)" "q_pc s t = Q_link k old"
  shows "h_next s old = None \<and> old \<in> set (f # ts) \<and>
    q_front (q_goto t (Q_spin k) (s\<lparr>h_next := (h_next s)(old := Some t)\<rparr>)) l (f # ts)"
proof -
  have t: "t \<in> set ts" "t \<noteq> f" using assms by auto
  let ?s = "q_goto t (Q_spin k) (s\<lparr>h_next := (h_next s)(old := Some t)\<rparr>)"
  have H: "h_next s old = None \<and> old \<in> set (n # us) \<and> q_behind ?s l n us \<and> t \<noteq> n \<and> f \<noteq> old"
    if "ts = n # us" "q_pc s n = Q_spin l" "q_behind s l n us" for n us
  proof -
    have "t \<in> set us" "distinct (n # us)" "t \<noteq> n" using t assms(2,4) that by auto
    then show ?thesis using q_behind_link [OF that(3) _ _ assms(4) refl] assms(2) that(1) by auto
  qed
  have old: "h_next s old = None \<and> old \<in> set (f # ts)"
    using assms(1)
  proof (cases rule: q_front_cases)
    case has
    then show ?thesis using q_behind_link [OF has(1) assms(2) t(1) assms(4) refl] by simp
  next
    case (hand n us)
    then show ?thesis using H [of n us] by auto
  qed
  moreover have "q_front ?s l (f # ts)"
  proof (rule q_front_transfer [OF assms(1)], goal_cases)
    case 3
    then show ?case using q_behind_link [OF _ assms(2) t(1) assms(4) refl] by simp
  next
    case (4 n)
    then have "h_next s f = Some n" using assms(1) by simp
    then show ?case using old by (auto simp: q_goto_def)
  next
    case (5 n us)
    then show ?case using H [of n us] by (auto simp: q_goto_def)
  qed (use t in \<open>simp_all add: q_goto_def\<close>)
  ultimately show ?thesis by blast
qed

subsection \<open>Every step keeps the queues\<close>

definition q_waiting :: "'l qspin \<Rightarrow> nat \<Rightarrow> bool" where
  "q_waiting s t \<longleftrightarrow>
     (case q_pc s t of Q_reset _ _ \<Rightarrow> True | Q_link _ _ \<Rightarrow> True | Q_spin _ \<Rightarrow> \<not> got_lock s t | _ \<Rightarrow> False)"

lemma q_behind_waiting: "q_behind s l p ts \<Longrightarrow> t \<in> set ts \<Longrightarrow> q_waiting s t"
  by (induction ts arbitrary: p) (auto simp: q_waiting_def)

lemma q_front_waiting: "q_front s l (f # ts) \<Longrightarrow> t \<in> set ts \<Longrightarrow> q_waiting s t"
  by (cases rule: q_front_cases) (auto simp: q_behind_waiting, simp add: q_waiting_def)

lemma q_invD:
  assumes "q_inv s Q"
  shows "distinct (Q l)" "owner_tail s l = (if Q l = [] then None else Some (last (Q l)))" "q_front s l (Q l)"
    "t \<in> set (Q l) \<longleftrightarrow> q_lock_of (q_pc s t) = Some l" "q_pc s t \<noteq> Q_failed" "q_pc s t = Idle \<Longrightarrow> h_next s t = None"
  using assms unfolding q_inv_def by blast+

text \<open>A CPU that is not waiting is at the front.\<close>

lemma q_owner_front:
  assumes "q_inv s Q" "q_lock_of (q_pc s t) = Some l" "\<not> q_waiting s t"
  obtains ts where "Q l = t # ts" "q_front s l (t # ts)" "t \<notin> set ts" "distinct ts"
proof -
  note D = q_invD [OF assms(1)]
  have "t \<in> set (Q l)" using D(4) assms(2) by simp
  then obtain f ts where q: "Q l = f # ts" by (cases "Q l") auto
  then have "f = t" using q_front_waiting [of s l f ts t] D(3) [of l] assms(3) \<open>t \<in> set (Q l)\<close> by auto
  then show thesis using that [of ts] q D(1,3) [of l] by auto
qed

text \<open>Steps that leave the queue as it is.\<close>

lemma q_inv_stay:
  assumes I: "q_inv s Q" and t: "q_lock_of (q_pc s t) = Some l" "q_lock_of (q_pc s' t) = Some l"
    and same: "\<And>u. u \<noteq> t \<Longrightarrow> q_pc s' u = q_pc s u" "\<And>u. q_lock_of (q_pc s u) \<noteq> Some l \<Longrightarrow> q_same s s' u"
    and "owner_tail s' = owner_tail s" "q_front s' l (Q l)"
  shows "q_inv s' Q"
proof -
  note D = q_invD [OF I]
  have "q_inv s' (Q(l := Q l))"
  proof (rule q_inv_change [OF I, of t])
    fix u assume u: "u = t \<or> q_lock_of (q_pc s u) = Some l"
    then have "q_lock_of (q_pc s' u) = Some l" using t same(1) by (cases "u = t") auto
    moreover have "u \<in> set (Q l)" using u t(1) D(4) by auto
    ultimately show "q_pc s' u \<noteq> Q_failed \<and> (q_pc s' u = Idle \<longrightarrow> h_next s' u = None) \<and>
      q_lock_of (q_pc s' u) = (if u \<in> set (Q l) then Some l else None)" by auto
  qed (use assms D in auto)
  then show ?thesis by simp
qed

lemma q_exchange_inv:
  assumes I: "q_inv s Q" and t: "q_pc s t = Idle"
  shows "q_inv (q_exchange t l s) (Q(l := Q l @ [t]))"
proof -
  note D = q_invD [OF I]
  have n: "h_next s t = None" "t \<notin> set (Q l)" using D(4,6) t by auto
  let ?s = "q_exchange t l s"
  have same: "q_same s ?s u" if "u \<noteq> t" for u
    using that n by (simp add: q_exchange_def q_goto_def q_same_def)
  have tail: "owner_tail ?s l = Some t" "\<And>k. k \<noteq> l \<Longrightarrow> owner_tail ?s k = owner_tail s k" "h_next ?s t = None"
    using n by (simp_all add: q_exchange_def q_goto_def)
  have pc: "q_pc ?s t = (if Q l = [] then Q_held l else Q_reset l (last (Q l)))"
    using n D(2) [of l] by (simp add: q_exchange_def q_goto_def)
  have fr: "q_front ?s l (Q l @ [t])"
  proof (cases "Q l")
    case (Cons f ts)
    have sm: "q_same s ?s u" if "u \<in> set (f # ts)" for u using that n(2) Cons by (intro same) auto
    have "q_front s l (f # ts)" using D(3) [of l] Cons by simp
    from q_front_append [OF this sm, of t] show ?thesis using Cons pc tail(3) by simp
  qed (use pc tail in simp)
  show ?thesis
  proof (rule q_inv_change [OF I, of t])
    fix u assume "u = t \<or> q_lock_of (q_pc s u) = Some l"
    then show "q_pc ?s u \<noteq> Q_failed \<and> (q_pc ?s u = Idle \<longrightarrow> h_next ?s u = None) \<and>
      q_lock_of (q_pc ?s u) = (if u \<in> set (Q l @ [t]) then Some l else None)"
      using pc same [of u] D(4) [of u l] by (cases "u = t") (auto simp: q_same_def)
  qed (use D(1,4) n t tail fr same in auto)
qed

lemma q_try_inv:
  assumes I: "q_inv s Q" and t: "q_pc s t = Idle"
  shows "\<exists>Q'. q_inv (q_try t l s) Q'"
proof (cases "owner_tail s l")
  case None
  then have "q_try t l s = q_exchange t l s"
    using q_invD(6) [OF I t] by (simp add: q_try_def q_exchange_def)
  then show ?thesis using q_exchange_inv [OF assms] by auto
qed (use I in \<open>auto simp: q_try_def\<close>)

lemma q_waiter_inv:
  assumes I: "q_inv s Q" and t: "q_pc s t = Q_reset l old \<or> q_pc s t = Q_link l old"
  shows "q_inv (q_step (t, r) s) Q"
proof -
  note D = q_invD [OF I]
  have "t \<in> set (Q l)" using t D(4) by auto
  then obtain f ts where q: "Q l = f # ts" by (cases "Q l") auto
  note F = D(3) [of l, unfolded q] D(1) [of l, unfolded q] \<open>t \<in> set (Q l)\<close> [unfolded q]
  show ?thesis
  proof (cases "q_pc s t = Q_reset l old")
    case True
    note R = q_front_reset [OF F True]
    show ?thesis
      by (rule q_inv_stay [OF I, of t l]) (use True R q in \<open>auto simp: q_goto_def q_same_def\<close>)
  next
    case False
    then have pc: "q_pc s t = Q_link l old" using t by simp
    note R = q_front_link [OF F pc]
    then have "q_lock_of (q_pc s old) = Some l" using D(4) [of old l] q by simp
    then show ?thesis
      by (intro q_inv_stay [OF I, of t l]) (use pc R q in \<open>auto simp: q_goto_def q_same_def q_link_def\<close>)
  qed
qed

text \<open>The owner moves on inside \<open>lock\<close> or \<open>unlock\<close>; only its own words change.\<close>

lemma q_owner_inv:
  assumes I: "q_inv s Q" and l: "q_lock_of (q_pc s t) = Some l" "\<not> q_waiting s t"
    and s': "s' = q_goto t p (s\<lparr>h_next := (h_next s)(t := n)\<rparr>)" "q_lock_of p = Some l"
    and fr: "\<And>ts. Q l = t # ts \<Longrightarrow> q_front s l (t # ts) \<Longrightarrow> t \<notin> set ts \<Longrightarrow>
      (\<And>k us. t \<notin> set us \<Longrightarrow> k \<noteq> t \<Longrightarrow> q_behind s' l k us = q_behind s l k us) \<Longrightarrow> q_front s' l (t # ts)"
  shows "q_inv s' Q"
proof -
  obtain ts where q: "Q l = t # ts" "q_front s l (t # ts)" "t \<notin> set ts" using q_owner_front [OF I l] by metis
  have "q_behind s' l k us = q_behind s l k us" if "t \<notin> set us" "k \<noteq> t" for k us
    by (rule q_behind_cong) (use that s' in \<open>auto simp: q_same_def q_goto_def\<close>)
  then have "q_front s' l (Q l)" using fr q by simp
  then show ?thesis
    by (intro q_inv_stay [OF I l(1)]) (use s' l(1) in \<open>auto simp: q_same_def q_goto_def\<close>)
qed

lemma q_release_inv:
  assumes I: "q_inv s Q" and pc: "q_pc s t = U_hand l n"
  shows "q_inv (q_step (t, r) s) (Q(l := tl (Q l)))"
proof -
  obtain ts where q: "Q l = t # ts" "q_front s l (t # ts)" "t \<notin> set ts" "distinct ts"
    using q_owner_front [OF I, of t l] pc by (auto simp: q_waiting_def)
  then obtain us where us: "ts = n # us" "q_pc s n = Q_spin l" "q_behind s l n us" "h_next s t = None"
    using pc by auto
  let ?s = "q_goto t Idle (s\<lparr>got_lock := (got_lock s)(n := True)\<rparr>)"
  have "q_behind ?s l n us" using us q
    by (subst q_behind_cong [of _ _ s]) (auto simp: q_same_def q_goto_def)
  then have fr: "q_front ?s l ts" using us q by (simp add: q_goto_def)
  have n: "q_lock_of (q_pc s n) = Some l" using us by simp
  have mem: "\<And>u. u \<in> set (Q l) \<longleftrightarrow> q_lock_of (q_pc s u) = Some l" using q_invD(4) [OF I] by blast
  have "q_inv ?s (Q(l := ts))"
  proof (rule q_inv_change [OF I, of t])
    fix u assume "u = t \<or> q_lock_of (q_pc s u) = Some l"
    then have "u \<in> set (t # ts)" using mem [of u] q(1) pc by auto
    then show "q_pc ?s u \<noteq> Q_failed \<and> (q_pc ?s u = Idle \<longrightarrow> h_next ?s u = None) \<and>
      q_lock_of (q_pc ?s u) = (if u \<in> set ts then Some l else None)"
      using mem [of u] q q_invD(5,6) [OF I, of u] us by (cases "u = t") (auto simp: q_goto_def)
  next
    show "owner_tail ?s l = (if ts = [] then None else Some (last ts))"
      using q_invD(2) [OF I, of l] q us by (simp add: q_goto_def)
    show "u = t \<or> q_lock_of (q_pc s u) = Some l" if "u \<in> set ts" for u using that mem [of u] q by auto
  qed (use q fr n pc in \<open>auto simp: q_goto_def q_same_def\<close>)
  then show ?thesis using pc q by simp
qed

lemma q_owner_move:
  assumes I: "q_inv s Q" and l: "q_lock_of (q_pc s t) = Some l" "\<not> q_waiting s t"
    and p: "p = Q_held l \<or> p = U_load l \<or> p = U_cas l \<or> p = (case h_next s t of Some n \<Rightarrow> U_clear l n | None \<Rightarrow> U_cas l)"
    and hand: "\<And>n. q_pc s t \<noteq> U_hand l n"
  shows "q_inv (q_goto t p s) Q"
proof (rule q_owner_inv [OF I l, of _ p "h_next s t"])
  fix ts assume ts: "q_front s l (t # ts)" "t \<notin> set ts"
  have "q_behind s l t ts" using ts(1) hand by (cases rule: q_front_cases) auto
  moreover have "q_behind (q_goto t p s) l t ts = q_behind s l t ts"
    by (rule q_behind_cong) (use ts(2) in \<open>auto simp: q_same_def q_goto_def\<close>)
  moreover have "q_pc (q_goto t p s) t = p" "h_next (q_goto t p s) = h_next s" by (simp_all add: q_goto_def)
  ultimately show "q_front (q_goto t p s) l (t # ts)" using p by (auto split: option.splits)
qed (use p in \<open>auto split: option.splits\<close>)

lemma q_cas_inv:
  assumes I: "q_inv s Q" and pc: "q_pc s t = U_cas l" and tail: "owner_tail s l = Some t"
  shows "q_inv (q_step (t, r) s) (Q(l := []))"
proof -
  obtain ts where q: "Q l = t # ts" "q_front s l (t # ts)" "t \<notin> set ts" "distinct ts"
    using q_owner_front [OF I, of t l] pc by (auto simp: q_waiting_def)
  have "last (t # ts) = t" using q_invD(2) [OF I, of l] q tail by (auto split: if_splits)
  then have "ts = []" using q(3) by (metis last_ConsR last_in_set)
  then have n: "Q l = [t]" "h_next s t = None" using q pc by auto
  then have mem: "u = t" if "q_lock_of (q_pc s u) = Some l" for u using that q_invD(4) [OF I, of u l] by simp
  have "q_inv (q_goto t Idle (s\<lparr>owner_tail := (owner_tail s)(l := None)\<rparr>)) (Q(l := []))"
    by (rule q_inv_change [OF I, of t]) (use n pc in \<open>auto simp: q_goto_def q_same_def dest: mem\<close>)
  then show ?thesis using pc tail by simp
qed

lemma q_step_inv:
  assumes I: "q_inv s Q"
  shows "\<exists>Q'. q_inv (q_step (t, r) s) Q'"
proof (cases "q_pc s t")
  case Idle
  then show ?thesis using q_exchange_inv [OF I Idle] q_try_inv [OF I Idle] I by (cases r) auto
next
  case (Q_reset l old)
  then show ?thesis using q_waiter_inv [OF I, of t l old r] by blast
next
  case (Q_link l old)
  then show ?thesis using q_waiter_inv [OF I, of t l old r] by blast
next
  case (Q_spin l)
  have "q_inv (q_goto t (Q_held l) s) Q" if "got_lock s t"
    by (rule q_owner_move [OF I, of t l]) (use Q_spin that in \<open>simp_all add: q_waiting_def\<close>)
  then show ?thesis using Q_spin I by auto
next
  case (Q_held l)
  have "q_inv (q_goto t (U_load l) s) Q"
    by (rule q_owner_move [OF I, of t l]) (use Q_held in \<open>simp_all add: q_waiting_def\<close>)
  then show ?thesis using Q_held I by auto
next
  case (U_load l)
  have "q_inv (q_goto t (case h_next s t of Some n \<Rightarrow> U_clear l n | None \<Rightarrow> U_cas l) s) Q"
    by (rule q_owner_move [OF I, of t l]) (use U_load in \<open>simp_all add: q_waiting_def\<close>)
  then show ?thesis using U_load by auto
next
  case (U_clear l n)
  have "q_inv (q_goto t (U_hand l n) (s\<lparr>h_next := (h_next s)(t := None)\<rparr>)) Q"
  proof (rule q_owner_inv [OF I, of t l _ _ None], goal_cases)
    case (5 ts)
    then obtain us where "ts = n # us" "q_pc s n = Q_spin l" "\<not> got_lock s n" "q_behind s l n us"
      using U_clear by (cases ts) auto
    then show ?case using 5 by (auto simp: q_goto_def)
  qed (use U_clear in \<open>auto simp: q_waiting_def\<close>)
  then show ?thesis using U_clear by auto
next
  case (U_hand l n)
  then show ?thesis using q_release_inv [OF I U_hand] by blast
next
  case (U_cas l)
  have "q_inv (q_goto t (U_load l) s) Q"
    by (rule q_owner_move [OF I, of t l]) (use U_cas in \<open>simp_all add: q_waiting_def\<close>)
  then show ?thesis using U_cas q_cas_inv [OF I U_cas] by (cases "owner_tail s l = Some t") auto
next
  case Q_failed
  then show ?thesis using q_invD(5) [OF I, of t] by simp
qed

interpretation qspini: step_invariant q_step q_init "\<lambda>s. \<exists>Q. q_inv s Q"
proof
  show "\<exists>Q. q_inv q_init Q" by (rule exI [of _ "\<lambda>_. []"]) (simp add: q_inv_def q_init_def)
  show "\<exists>Q. q_inv (q_step a s) Q" if "\<exists>Q. q_inv s Q" for a s
    using that q_step_inv by (cases a) blast
qed

subsection \<open>Properties\<close>

text \<open>The critical section lasts from the end of \<open>lock\<close> to the store or exchange that gives the lock away.\<close>

definition q_in_cs :: "'l \<Rightarrow> 'l qspin \<Rightarrow> nat \<Rightarrow> bool" where
  "q_in_cs l s t \<longleftrightarrow>
     (case q_pc s t of Q_held k \<Rightarrow> k = l | U_load k \<Rightarrow> k = l | U_clear k _ \<Rightarrow> k = l | U_hand k _ \<Rightarrow> k = l
      | U_cas k \<Rightarrow> k = l | _ \<Rightarrow> False)"

lemma q_in_cs_owner: "q_in_cs l s t \<Longrightarrow> q_lock_of (q_pc s t) = Some l \<and> \<not> q_waiting s t"
  by (auto simp: q_in_cs_def q_waiting_def split: qpc.splits)

lemma q_inv_one_owner:
  assumes "q_inv s Q" "q_lock_of (q_pc s t) = Some l"
  shows "\<exists>!f. q_lock_of (q_pc s f) = Some l \<and> \<not> q_waiting s f"
proof -
  note D = q_invD [OF assms(1)]
  have "t \<in> set (Q l)" using D(4) assms(2) by simp
  then obtain f ts where q: "Q l = f # ts" by (cases "Q l") auto
  show ?thesis
  proof (rule ex1I [of _ f])
    show "q_lock_of (q_pc s f) = Some l \<and> \<not> q_waiting s f"
      using D(3) [of l] D(4) [of f l] q by (auto simp: q_waiting_def split: qpc.splits)
    show "u = f" if "q_lock_of (q_pc s u) = Some l \<and> \<not> q_waiting s u" for u
      using q_owner_front [OF assms(1), of u l] that q by auto
  qed
qed

text \<open>
  C24: In every interleaving of any number of CPUs that lock, try to lock and unlock any number of queue
  locks, one at a time: no assertion of the code fails, at most one CPU is in the critical section
  of a lock, and whenever a CPU is at work on a lock exactly one CPU has the lock or has been given
  it, so that waiters never wait for each other only.
\<close>

theorem qspinlock_excludes:
  assumes "s = interleave q_step as q_init"
  shows "q_pc s t \<noteq> Q_failed \<and> (q_in_cs l s t \<and> q_in_cs l s u \<longrightarrow> t = u) \<and>
    (q_lock_of (q_pc s t) = Some l \<longrightarrow> (\<exists>!f. q_lock_of (q_pc s f) = Some l \<and> \<not> q_waiting s f))"
proof -
  obtain Q where I: "q_inv s Q" using qspini.inv_interleave [of as] assms by blast
  have "t = u" if "q_in_cs l s t" "q_in_cs l s u"
    using that [THEN q_in_cs_owner] q_inv_one_owner [OF I, of t l] by blast
  then show ?thesis using q_invD(5) [OF I] q_inv_one_owner [OF I] by blast
qed

text \<open>Two CPUs contend for one lock, the first hands it to the second.\<close>

definition q_demo :: "(nat \<times> unit qrequest) list" where
  "q_demo = [(0, Q_lock ()), (1, Q_lock ()), (1, Q_stay), (0, Q_unlock), (0, Q_stay), (1, Q_stay), (0, Q_stay),
     (0, Q_stay), (0, Q_stay), (0, Q_stay), (1, Q_stay)]"

theorem qspinlock_excludes_witness:
  "q_pc (interleave q_step q_demo q_init) 0 = Idle \<and> {t. q_in_cs () (interleave q_step q_demo q_init) t} = {1}"
proof -
  let ?s = "interleave q_step q_demo q_init"
  have p: "q_pc ?s 0 = Idle" "q_pc ?s 1 = Q_held ()"
    by (simp_all add: interleave_def q_demo_def q_init_def q_goto_def q_exchange_def q_link_def)
  then have "q_in_cs () ?s 1" by (simp add: q_in_cs_def)
  then have "{t. q_in_cs () ?s t} = {1}" using qspinlock_excludes [OF refl, of q_demo _ "()" 1] by blast
  then show ?thesis using p by simp
qed

end
