(* ===== verification/Log2.thy ===== *)
theory Log2
  imports Utility
begin

text \<open>
  The logarithms and the rounding to a power of two of src/common/utility.h.  \<open>__builtin_clzl\<close> counts
  the leading zero bits; a failed assertion is \<open>None\<close>.
\<close>

definition clzl :: "u64 \<Rightarrow> nat" where
  "clzl x = length (takeWhile (\<lambda>i. \<not> bit x i) (rev [0..<64]))"

definition log2_truncate :: "u64 \<Rightarrow> nat option" where
  "log2_truncate x =
     (if \<not> x > 0 then None
      else (let exp = 63 - clzl x in if x AND push_bit exp 1 = 0 then None else Some exp))"

definition log2_round :: "u64 \<Rightarrow> nat option" where
  "log2_round x =
     (if \<not> x > 0 then None
      else case log2_truncate x of
          None \<Rightarrow> None
        | Some exp \<Rightarrow>
            (if x AND push_bit exp 1 = 0 then None
             else (let carry = exp \<noteq> 0 \<and> x AND push_bit (exp - 1) 1 \<noteq> 0 in Some (exp + of_bool carry))))"

definition log2_round_up :: "u64 \<Rightarrow> nat option" where
  "log2_round_up x =
     (if \<not> x > 0 then None
      else if x \<le> 1 then Some (unat x)
      else map_option Suc (log2_truncate (x - 1)))"

text \<open>\<open>round_up_to_exp2\<close> keeps the power in a \<open>uint32_t\<close>.\<close>

definition round_up_to_exp2 :: "u64 \<Rightarrow> u64 option" where
  "round_up_to_exp2 x =
     (if x = 0 then Some 1
      else case log2_truncate x of
          None \<Rightarrow> None
        | Some exp \<Rightarrow>
            (let y = (ucast (push_bit exp 1 :: u64) :: u32)
             in if x AND ucast y = 0 then None
                else Some (ucast (push_bit (of_bool (x XOR ucast y \<noteq> 0)) y))))"

subsection \<open>The highest bit\<close>

lemma clzl_top:
  assumes "x \<noteq> 0"
  shows "clzl x < 64" and "bit x (63 - clzl x)" and "\<And>i. 63 - clzl x < i \<Longrightarrow> \<not> bit x i"
proof -
  let ?l = "rev [0..<64]" and ?P = "\<lambda>i. \<not> bit x i"
  have nth: "?l ! k = 63 - k" if "k < 64" for k using that by (simp add: rev_nth)
  obtain j where j: "bit x j" using assms by (auto simp: bit_eq_iff)
  then have "j < 64" using bit_imp_le_length [of x j] by simp
  then have "j \<in> set ?l" by simp
  show c: "clzl x < 64"
  proof (rule ccontr)
    assume "\<not> clzl x < 64"
    then have "takeWhile ?P ?l = ?l"
      using length_takeWhile_le [of ?P ?l] takeWhile_eq_take [of ?P ?l] by (simp add: clzl_def)
    then show False using j \<open>j \<in> set ?l\<close> by (simp add: takeWhile_eq_all_conv)
  qed
  show "bit x (63 - clzl x)"
    using nth_length_takeWhile [of ?P ?l] nth [OF c] c by (simp add: clzl_def)
  show "\<not> bit x i" if i: "63 - clzl x < i" for i
  proof (cases "i < 64")
    case True
    have "63 - i < clzl x" using i c True by linarith
    then have l: "63 - i < length (takeWhile ?P ?l)" by (simp only: clzl_def)
    then have "takeWhile ?P ?l ! (63 - i) = ?l ! (63 - i)" by (rule takeWhile_nth)
    with l have "?P (?l ! (63 - i))" using nth_mem set_takeWhileD by metis
    then show ?thesis using nth [of "63 - i"] True by simp
  qed (use bit_imp_le_length [of x i] in auto)
qed

lemma unat_less_power_iff: "unat (x :: u64) < 2 ^ n \<longleftrightarrow> (\<forall>i\<ge>n. \<not> bit x i)"
proof -
  have "unat x < 2 ^ n \<longleftrightarrow> take_bit n (unat x) = unat x" by (simp add: take_bit_nat_eq_self_iff)
  also have "\<dots> \<longleftrightarrow> take_bit n x = x" by (simp add: word_eq_iff_unat unsigned_take_bit_eq)
  also have "\<dots> \<longleftrightarrow> (\<forall>i\<ge>n. \<not> bit x i)" 
    by (metis bit_eqI bit_take_bit_iff not_le)
  finally show ?thesis .
qed

lemma log2_truncate_Some:
  assumes "x \<noteq> 0"
  obtains e where "log2_truncate x = Some e" "e < 64" "2 ^ e \<le> unat x" "unat x < 2 ^ Suc e" "bit x e"
proof (rule that)
  note C = clzl_top [OF assms]
  have "0 < x" using assms by (simp add: word_gt_0)
  then show "log2_truncate x = Some (63 - clzl x)" using C(2) by (simp add: log2_truncate_def and_exp_eq_0_iff_not_bit Let_def)
  show "bit x (63 - clzl x)" by (fact C(2))
  have "\<not> unat x < 2 ^ (63 - clzl x)" unfolding unat_less_power_iff using C(2) by blast
  then show "2 ^ (63 - clzl x) \<le> unat x" by simp
  show "unat x < 2 ^ Suc (63 - clzl x)" unfolding unat_less_power_iff using C(3) by (simp add: Suc_le_eq)
qed simp

lemma unat_exp: "e < LENGTH('a) \<Longrightarrow> unat (2 ^ e :: 'a::len word) = 2 ^ e"
proof -
  assume "e < LENGTH('a)"
  then have "take_bit LENGTH('a) (2 ^ e :: nat) = 2 ^ e" by (simp add: take_bit_nat_eq_self_iff)
  then show ?thesis using unat_of_nat [of "2 ^ e", where ?'a = 'a] by (simp add: take_bit_eq_mod)
qed

lemma ucast_exp32: "(ucast (2 ^ e :: u64) :: u32) = (if e < 32 then 2 ^ e else 0)" if "e < 64"
proof -
  have "unat (2 ^ e :: u64) = 2 ^ e" using that by (simp add: unat_exp)
  moreover have "(ucast (2 ^ e :: u64) :: u32) = of_nat (unat (2 ^ e :: u64))" by (rule of_nat_unat [symmetric])
  ultimately have "(ucast (2 ^ e :: u64) :: u32) = of_nat (2 ^ e)" by simp
  then show ?thesis by (simp add: exp_eq_zero_iff)
qed

lemma ucast_exp64: "(ucast (2 ^ e :: u32) :: u64) = 2 ^ e" if "e < 32"
proof -
  have "unat (2 ^ e :: u32) = 2 ^ e" using that by (simp add: unat_exp)
  moreover have "(ucast (2 ^ e :: u32) :: u64) = of_nat (unat (2 ^ e :: u32))" by (rule of_nat_unat [symmetric])
  ultimately have "(ucast (2 ^ e :: u32) :: u64) = of_nat (2 ^ e)" by simp
  then show ?thesis by simp
qed

lemma xor_zero_iff: "(x :: u64) XOR y = 0 \<longleftrightarrow> x = y"
proof
  assume a: "x XOR y = 0"
  have "x = (x XOR y) XOR y" by (simp only: xor.assoc xor_self_eq xor.right_neutral)
  then show "x = y" using a by simp
qed simp

lemma round_up_cases:
  assumes "x \<noteq> 0" "log2_truncate x = Some e" "e < 64" "bit x e"
  shows "round_up_to_exp2 x =
    (if 32 \<le> e then None else if x = 2 ^ e then Some (2 ^ e) else if e = 31 then Some 0 else Some (2 ^ Suc e))"
proof (cases "e < 32")
  case True
  have "ucast (push_bit 1 (2 ^ e :: u32)) = (if e = 31 then 0 else 2 ^ Suc e :: u64)"
  proof -
    have "push_bit 1 (2 ^ e :: u32) = 2 ^ Suc e" by (simp add: push_bit_eq_mult)
    moreover have "(2 ^ Suc 31 :: u32) = 0" by (subst exp_eq_zero_iff) simp
    ultimately show ?thesis using ucast_exp64 [of "Suc e"] True by (auto simp del: power_Suc)
  qed
  then show ?thesis using assms True ucast_exp32 [OF assms(3)] ucast_exp64 [OF True]
    by (simp add: round_up_to_exp2_def Let_def and_exp_eq_0_iff_not_bit xor_zero_iff del: push_bit_Suc)
qed (use assms ucast_exp32 [OF assms(3)] in \<open>simp add: round_up_to_exp2_def\<close>)

lemma log2_round_nearest:
  assumes "x \<noteq> 0"
  obtains e where "log2_truncate x = Some e" "log2_round x = Some (e + of_bool (0 < e \<and> 3 * 2 ^ (e - 1) \<le> unat x))"
proof -
  obtain e where e: "log2_truncate x = Some e" "e < 64" "2 ^ e \<le> unat x" "unat x < 2 ^ Suc e" "bit x e"
    using log2_truncate_Some [OF assms] .
  have "bit x (e - 1) \<longleftrightarrow> 3 * 2 ^ (e - 1) \<le> unat x" if e0: "0 < e"
  proof -
    obtain d where d: "e = Suc d" using e0 by (cases e) auto
    have "bit x d \<longleftrightarrow> bit (unat x) d" by (simp add: bit_unsigned_iff)
    then have "bit x d \<longleftrightarrow> odd (unat x div 2 ^ d)" by (simp only: bit_iff_odd)
    moreover have "2 \<le> unat x div 2 ^ d" "unat x div 2 ^ d < 4"
      using e(3,4) d by (auto simp: less_eq_div_iff_mult_less_eq div_less_iff_less_mult)
    moreover have "3 \<le> unat x div 2 ^ d \<longleftrightarrow> 3 * 2 ^ d \<le> unat x" by (simp add: less_eq_div_iff_mult_less_eq)
    moreover have "odd q \<longleftrightarrow> 3 \<le> q" if "2 \<le> q" "q < 4" for q :: nat using that by presburger
    ultimately have "bit x d \<longleftrightarrow> 3 * 2 ^ d \<le> unat x" by simp
    then show ?thesis using d by simp
  qed
  then have "(0 < e \<and> bit x (e - 1)) = (0 < e \<and> 3 * 2 ^ (e - 1) \<le> unat x)" by blast
  then show thesis using that [of e] e assms
    by (simp add: log2_round_def Let_def and_exp_eq_0_iff_not_bit word_gt_0)
qed

lemma log2_round_up_bound:
  assumes "1 < x"
  obtains r where "log2_round_up x = Some r" "unat x \<le> 2 ^ r" "2 ^ r < 2 * unat x"
proof -
  have "x - 1 \<noteq> 0" using assms by auto
  moreover have "unat (x - 1) = unat x - 1" using unat_sub [of 1 x] assms by simp
  moreover have "1 < unat x" using assms by (simp add: word_less_nat_alt)
  ultimately obtain e where e: "log2_truncate (x - 1) = Some e" "2 ^ e \<le> unat x - 1" "unat x - 1 < 2 ^ Suc e"
    using log2_truncate_Some [of "x - 1"] by metis
  have "x \<noteq> 0" "\<not> x \<le> 1" using assms by auto
  then have "log2_round_up x = Some (Suc e)" using e(1) by (simp add: log2_round_up_def word_gt_0)
  moreover have "unat x \<le> 2 ^ Suc e" "2 ^ Suc e < 2 * unat x" using e(2,3) \<open>1 < unat x\<close> by simp_all
  ultimately show thesis by (rule that)
qed

text \<open>The logarithm of one, rounded up, is zero; the code returns one.\<close>

lemma log2_round_up_of_one: "log2_round_up 1 = Some 1"
  by (simp add: log2_round_up_def)

lemma round_up_small:
  assumes "x \<noteq> 0" "unat x \<le> 2 ^ 31"
  shows "\<exists>k\<le>31. round_up_to_exp2 x = Some (2 ^ k) \<and> unat x \<le> 2 ^ k \<and> 2 ^ k < 2 * unat x"
proof -
  obtain e where e: "log2_truncate x = Some e" "e < 64" "2 ^ e \<le> unat x" "unat x < 2 ^ Suc e" "bit x e"
    using log2_truncate_Some [OF assms(1)] .
  note R = round_up_cases [OF assms(1) e(1,2,5)]
  have eq: "x = 2 ^ e \<longleftrightarrow> unat x = 2 ^ e" using unat_exp [of e, where ?'a = 64] e(2) by (simp add: word_eq_iff_unat)
  show ?thesis
  proof (cases "unat x = 2 ^ e")
    case True
    then have "(2 :: nat) ^ e < 2 ^ 32" using assms(2) by simp
    then have "e < 32" by (rule power_less_imp_less_exp [rotated]) simp
    then show ?thesis using R eq True by (intro exI [of _ e]) simp
  next
    case False
    then have lt: "2 ^ e < unat x" using e(3) by simp
    then have "(2 :: nat) ^ e < 2 ^ 31" using assms(2) by linarith
    then have "e < 31" by (rule power_less_imp_less_exp [rotated]) simp
    then show ?thesis using R eq False lt e(4) by (intro exI [of _ "Suc e"]) simp
  qed
qed

subsection \<open>Properties\<close>

text \<open>
  C27: \<open>round_up_to_exp2\<close> returns the least power of two that is at least its argument for every argument
  up to \<open>2 ^ 31\<close>; above that the 32-bit intermediate makes it return zero, and from \<open>2 ^ 32\<close> on its
  assertion fails.
\<close>

theorem round_up_to_exp2_exact:
  assumes "x \<noteq> 0"
  shows "(unat x \<le> 2 ^ 31 \<longrightarrow> (\<exists>k\<le>31. round_up_to_exp2 x = Some (2 ^ k) \<and> unat x \<le> 2 ^ k \<and> 2 ^ k < 2 * unat x)) \<and>
    (2 ^ 31 < unat x \<and> unat x < 2 ^ 32 \<longrightarrow> round_up_to_exp2 x = Some 0) \<and>
    (2 ^ 32 \<le> unat x \<longrightarrow> round_up_to_exp2 x = None)"
proof -
  obtain e where e: "log2_truncate x = Some e" "e < 64" "2 ^ e \<le> unat x" "unat x < 2 ^ Suc e" "bit x e"
    using log2_truncate_Some [OF assms] .
  note R = round_up_cases [OF assms e(1,2,5)]
  have eq: "x = 2 ^ e \<longleftrightarrow> unat x = 2 ^ e" using unat_exp [of e, where ?'a = 64] e(2) by (simp add: word_eq_iff_unat)
  have lo: "e < n" if "unat x < 2 ^ n" for n
    using le_less_trans [OF e(3) that] by simp
  have hi: "n \<le> e" if "2 ^ n \<le> unat x" for n
    using le_less_trans [OF that e(4)] by (simp del: power_Suc add: less_Suc_eq_le)
  have mid: "round_up_to_exp2 x = Some 0" if "2 ^ 31 < unat x" "unat x < 2 ^ 32"
  proof -
    have "e = 31" using hi [of 31] lo [of 32] that by simp
    then show ?thesis using R eq that(1) by simp
  qed
  have "round_up_to_exp2 x = None" if "2 ^ 32 \<le> unat x" using R hi [OF that] by simp
  then show ?thesis using round_up_small [OF assms] mid by blast
qed

theorem round_up_to_exp2_exact_witness:
  "(\<exists>k\<le>31. round_up_to_exp2 1000 = Some (2 ^ k) \<and> (1000 :: nat) \<le> 2 ^ k \<and> 2 ^ k < (2000 :: nat)) \<and>
    round_up_to_exp2 3000000000 = Some 0 \<and> round_up_to_exp2 5000000000 = None"
  using round_up_to_exp2_exact [of 1000] round_up_to_exp2_exact [of 3000000000] round_up_to_exp2_exact [of 5000000000]
  by auto

end
