(* ===== verification/Ring_Buffer.thy ===== *)
theory Ring_Buffer
  imports Log2
begin

text \<open>
  The ring queue and the ring buffer of src/common/ring.h and ring.cpp.  Indices are 32-bit and
  reduced by a mask.  An operation that has to wait for the other side stops with the outcome that
  the caller is blocked; what it moved before stays moved.  \<open>None\<close> is an access outside the buffer.
\<close>

subsection \<open>RingBase and RingQueue\<close>

record 'a ring_queue =
  rq_begin :: u32
  rq_end :: u32
  rq_capacity :: u32
  rq_mask :: u32
  rq_buf :: "'a list"

definition rq_mod :: "'a ring_queue \<Rightarrow> u32 \<Rightarrow> u32" where
  "rq_mod s i = i AND rq_mask s"

definition next_end :: "'a ring_queue \<Rightarrow> u32" where
  "next_end s = rq_mod s (rq_end s + 1)"

definition next_begin :: "'a ring_queue \<Rightarrow> u32" where
  "next_begin s = rq_mod s (rq_begin s + 1)"

definition rq_size :: "'a ring_queue \<Rightarrow> u32" where
  "rq_size s = rq_mod s (rq_end s - rq_begin s)"

definition rq_empty :: "'a ring_queue \<Rightarrow> bool" where
  "rq_empty s \<longleftrightarrow> rq_begin s = rq_end s"

definition rq_full :: "'a ring_queue \<Rightarrow> bool" where
  "rq_full s \<longleftrightarrow> next_end s = rq_begin s"

definition set_capacity :: "u32 \<Rightarrow> 'a ring_queue \<Rightarrow> 'a ring_queue option" where
  "set_capacity capacity s =
     map_option (\<lambda>c. s\<lparr>rq_capacity := ucast c, rq_mask := ucast c - 1\<rparr>) (round_up_to_exp2 (ucast capacity))"

text \<open>The memory that \<open>malloc\<close> returns has some content \<open>fill\<close>.\<close>

definition new_ring_queue :: "u32 \<Rightarrow> (nat \<Rightarrow> 'a) \<Rightarrow> 'a ring_queue option" where
  "new_ring_queue capacity fill =
     map_option (\<lambda>s. s\<lparr>rq_buf := map fill [0..<unat (rq_capacity s)]\<rparr>)
       (set_capacity capacity \<lparr>rq_begin = 0, rq_end = 0, rq_capacity = 0, rq_mask = 0, rq_buf = []\<rparr>)"

definition rq_front :: "'a ring_queue \<Rightarrow> 'a" where
  "rq_front s = rq_buf s ! unat (rq_begin s)"

definition rq_back :: "'a ring_queue \<Rightarrow> 'a" where
  "rq_back s = rq_buf s ! unat (rq_mod s (rq_end s - 1))"

definition rq_index :: "u64 \<Rightarrow> 'a ring_queue \<Rightarrow> 'a" where
  "rq_index i s = rq_buf s ! unat (rq_mod s (ucast (ucast (rq_begin s) + i :: u64)))"

text \<open>\<open>push_back\<close> waits while the queue is full, \<open>pop_front\<close> while it is empty.\<close>

definition rq_push_back :: "'a \<Rightarrow> 'a ring_queue \<Rightarrow> 'a ring_queue option" where
  "rq_push_back x s =
     (if rq_full s then None
      else Some (s\<lparr>rq_buf := (rq_buf s)[unat (rq_end s) := x], rq_end := next_end s\<rparr>))"

definition rq_pop_front :: "'a ring_queue \<Rightarrow> ('a \<times> 'a ring_queue) option" where
  "rq_pop_front s = (if rq_empty s then None else Some (rq_front s, s\<lparr>rq_begin := next_begin s\<rparr>))"

partial_function (option) rq_clear :: "'a ring_queue \<Rightarrow> 'a ring_queue option" where
  "rq_clear s = (case rq_pop_front s of None \<Rightarrow> Some s | Some (_, s') \<Rightarrow> rq_clear s')"

subsection \<open>RingBuffer\<close>

definition rb_do_read :: "u64 \<Rightarrow> u64 \<Rightarrow> 'a ring_queue \<Rightarrow> ('a list \<times> u64 \<times> 'a ring_queue) option" where
  "rb_do_read cnt end s =
     (if cnt = 0 then Some ([], cnt, s)
      else
        (let len = min cnt (end - ucast (rq_begin s)); pos = unat (rq_begin s)
         in if pos + unat len > length (rq_buf s) then None
            else Some (take (unat len) (drop pos (rq_buf s)), cnt - len, s\<lparr>rq_begin := rq_begin s + ucast len\<rparr>)))"

definition rb_read_round :: "u64 \<Rightarrow> 'a ring_queue \<Rightarrow> ('a list \<times> u64 \<times> 'a ring_queue) option" where
  "rb_read_round cnt s =
     (if rq_begin s < rq_end s then rb_do_read cnt (ucast (rq_end s)) s
      else
        map_option (\<lambda>(out, cnt', s'). (out, cnt', if rq_begin s' = rq_capacity s' then s'\<lparr>rq_begin := 0\<rparr> else s'))
          (rb_do_read cnt (ucast (rq_capacity s)) s))"

text \<open>\<open>do_read\<close> up to the point where it is done or has to wait: the bytes and the count that is left.\<close>

partial_function (option) rb_read :: "u64 \<Rightarrow> 'a ring_queue \<Rightarrow> ('a list \<times> u64 \<times> 'a ring_queue) option" where
  "rb_read cnt s =
     (if \<not> cnt > 0 \<or> rq_empty s then Some ([], cnt, s)
      else Option.bind (rb_read_round cnt s)
        (\<lambda>(out, cnt', s'). Option.bind (rb_read cnt' s') (\<lambda>(out', cnt'', s''). Some (out @ out', cnt'', s''))))"

text \<open>The bytes that are still to be written stand for the pointer and the count.\<close>

definition rb_do_write :: "'a list \<Rightarrow> u64 \<Rightarrow> 'a ring_queue \<Rightarrow> ('a list \<times> 'a ring_queue) option" where
  "rb_do_write data end s =
     (if data = [] then Some (data, s)
      else
        (let len = min (of_nat (length data)) (end - ucast (rq_end s)); pos = unat (rq_end s); n = unat len
         in if pos + n > length (rq_buf s) then None
            else Some (drop n data,
              s\<lparr>rq_buf := take pos (rq_buf s) @ take n data @ drop (pos + n) (rq_buf s), rq_end := rq_end s + ucast len\<rparr>)))"

definition rb_write_round :: "'a list \<Rightarrow> 'a ring_queue \<Rightarrow> ('a list \<times> 'a ring_queue) option" where
  "rb_write_round data s =
     (if rq_end s < rq_begin s then rb_do_write data (ucast (rq_begin s - 1)) s
      else
        (let end = (if rq_begin s = 0 then rq_capacity s - 1 else rq_capacity s)
         in map_option (\<lambda>(rest, s'). (rest, if rq_end s' = rq_capacity s' then s'\<lparr>rq_end := 0\<rparr> else s'))
              (rb_do_write data (ucast end) s)))"

partial_function (option) rb_write :: "'a list \<Rightarrow> 'a ring_queue \<Rightarrow> ('a list \<times> 'a ring_queue) option" where
  "rb_write data s =
     (if data = [] \<or> rq_full s then Some (data, s)
      else Option.bind (rb_write_round data s) (\<lambda>(rest, s'). rb_write rest s'))"

subsection \<open>Windows of a circular buffer\<close>

definition window :: "nat \<Rightarrow> nat \<Rightarrow> 'a list \<Rightarrow> 'a list" where
  "window b n buf = map (\<lambda>i. buf ! ((b + i) mod length buf)) [0..<n]"

lemma length_window [simp]: "length (window b n buf) = n"
  by (simp add: window_def)

lemma wrap: "b < c \<Longrightarrow> i \<le> c \<Longrightarrow> (b + i) mod c = (if b + i < c then b + i else b + i - c)" for b c i :: nat
  by (simp add: mod_if)

lemma nth_splice:
  assumes "e + length d \<le> length buf" "j < length buf"
  shows "(take e buf @ d @ drop (e + length d) buf) ! j =
    (if e \<le> j \<and> j < e + length d then d ! (j - e) else buf ! j)"
  using assms by (auto simp: nth_append)

lemma window_write:
  assumes "b < length buf" "n + length d < length buf" "e = (b + n) mod length buf" "e + length d \<le> length buf"
  shows "window b (n + length d) (take e buf @ d @ drop (e + length d) buf) = window b n buf @ d"
proof (rule nth_equalityI)
  fix i assume "i < length (window b (n + length d) (take e buf @ d @ drop (e + length d) buf))"
  then have i: "i < n + length d" by simp
  let ?c = "length buf"
  let ?j = "(b + i) mod ?c"
  have j: "?j < ?c" using assms(1) by (intro mod_less_divisor) linarith
  have len: "length (take e buf @ d @ drop (e + length d) buf) = ?c" using assms(4) by simp
  have e: "e = (if b + n < ?c then b + n else b + n - ?c)" using wrap [of b ?c n] assms(1-3) by simp
  have ji: "?j = (if b + i < ?c then b + i else b + i - ?c)" using wrap [of b ?c i] assms(1,2) i by simp
  have old: "\<not> (e \<le> ?j \<and> ?j < e + length d)" if "i < n" using e ji that assms(1,2) by (auto split: if_splits)
  have new: "?j = e + (i - n)" if "\<not> i < n" using e ji that assms i by (auto split: if_splits)
  have "window b (n + length d) (take e buf @ d @ drop (e + length d) buf) ! i =
      (take e buf @ d @ drop (e + length d) buf) ! ?j"
    unfolding window_def len using i by simp
  also have "\<dots> = (window b n buf @ d) ! i"
    unfolding nth_splice [OF assms(4) j]
    using old new i by (cases "i < n") (auto simp: window_def nth_append)
  finally show "window b (n + length d) (take e buf @ d @ drop (e + length d) buf) ! i = (window b n buf @ d) ! i" .
qed simp

lemma window_read:
  assumes "b < length buf" "m \<le> n" "n < length buf" "b + m \<le> length buf"
  shows "window b n buf = take m (drop b buf) @ window ((b + m) mod length buf) (n - m) buf"
proof (rule nth_equalityI)
  fix i assume "i < length (window b n buf)"
  then have i: "i < n" by simp
  have len: "length (take m (drop b buf)) = m" using assms(4) by simp
  have "((b + m) mod length buf + (i - m)) mod length buf = (b + i) mod length buf" if "\<not> i < m"
  proof -
    have "((b + m) mod length buf + (i - m)) mod length buf = (b + m + (i - m)) mod length buf" by (rule mod_add_left_eq)
    then show ?thesis using that by simp
  qed
  then show "window b n buf ! i = (take m (drop b buf) @ window ((b + m) mod length buf) (n - m) buf) ! i"
    using i assms len by (cases "i < m") (auto simp: window_def nth_append)
qed (use assms in simp)

subsection \<open>Well-formed queues\<close>

definition rq_ok :: "'a ring_queue \<Rightarrow> bool" where
  "rq_ok s \<longleftrightarrow> (\<exists>k\<le>31. rq_capacity s = 2 ^ k) \<and> rq_mask s = rq_capacity s - 1 \<and>
     rq_begin s < rq_capacity s \<and> rq_end s < rq_capacity s \<and> length (rq_buf s) = unat (rq_capacity s)"

definition rq_list :: "'a ring_queue \<Rightarrow> 'a list" where
  "rq_list s = window (unat (rq_begin s)) (unat (rq_size s)) (rq_buf s)"

lemma unat_and_mask32: "unat (i AND (2 ^ k - 1) :: u32) = unat i mod 2 ^ k" if "k \<le> 31"
proof -
  have "i AND (2 ^ k - 1) = take_bit k i" by (simp add: take_bit_eq_mask mask_eq_exp_minus_1)
  moreover have "unat (take_bit k i) = take_bit k (unat i)" by (simp add: unsigned_take_bit_eq)
  ultimately show ?thesis by (simp only: take_bit_eq_mod)
qed

lemma rq_okD:
  assumes "rq_ok s"
  shows "unat (rq_mod s i) = unat i mod length (rq_buf s)" and "length (rq_buf s) = unat (rq_capacity s)"
    and "unat (rq_begin s) < length (rq_buf s)" "unat (rq_end s) < length (rq_buf s)"
    and "length (rq_buf s) \<le> 2 ^ 31" "length (rq_buf s) dvd 2 ^ 32"
proof -
  obtain k where k: "k \<le> 31" "rq_capacity s = 2 ^ k" using assms by (auto simp: rq_ok_def)
  have c: "length (rq_buf s) = 2 ^ k" using assms k unat_exp [of k, where ?'a = 32] by (simp add: rq_ok_def)
  show "unat (rq_mod s i) = unat i mod length (rq_buf s)"
    using assms k unat_and_mask32 [of k i] by (simp add: rq_mod_def rq_ok_def c)
  show "length (rq_buf s) = unat (rq_capacity s)" "unat (rq_begin s) < length (rq_buf s)" "unat (rq_end s) < length (rq_buf s)"
    using assms by (auto simp: rq_ok_def word_less_nat_alt)
  show "length (rq_buf s) \<le> 2 ^ 31" unfolding c using k(1) by (rule power_increasing) simp
  show "length (rq_buf s) dvd 2 ^ 32" unfolding c using k(1) by (intro le_imp_power_dvd) simp
qed

lemma rq_size_nat:
  assumes "rq_ok s"
  shows "unat (rq_size s) =
    (if rq_begin s \<le> rq_end s then unat (rq_end s) - unat (rq_begin s)
     else unat (rq_end s) + length (rq_buf s) - unat (rq_begin s))"
    and "unat (rq_size s) < length (rq_buf s)"
    and "(unat (rq_begin s) + unat (rq_size s)) mod length (rq_buf s) = unat (rq_end s)"
proof -
  note D = rq_okD [OF assms]
  let ?c = "length (rq_buf s)" and ?b = "unat (rq_begin s)" and ?e = "unat (rq_end s)"
  have "unat (rq_end s - rq_begin s) = (if rq_begin s \<le> rq_end s then ?e - ?b else ?e + 2 ^ 32 - ?b)"
    by (simp add: unat_sub_if' word_le_nat_alt)
  moreover have "(?e + 2 ^ 32 - ?b) mod ?c = ?e + ?c - ?b" if "\<not> rq_begin s \<le> rq_end s"
  proof -
    obtain m where m: "2 ^ 32 = ?c * Suc m" using D(6) D(3) by (metis dvdE gr0_conv_Suc not_gr_zero mult_0_right zero_less_numeral zero_less_power)
    have lt: "?e < ?b" using that by (simp add: word_le_nat_alt)
    have eq: "?e + 2 ^ 32 - ?b = (?e + ?c - ?b) + ?c * m" unfolding m using lt D(3) by simp
    show ?thesis unfolding eq mod_mult_self2 by (rule mod_less) (use lt D(3) in linarith)
  qed
  ultimately show z: "unat (rq_size s) = (if rq_begin s \<le> rq_end s then ?e - ?b else ?e + ?c - ?b)"
    using D(4) unfolding rq_size_def D(1) by auto
  show "unat (rq_size s) < ?c" unfolding z using D(3,4) by (auto simp: word_le_nat_alt)
  show "(?b + unat (rq_size s)) mod ?c = ?e" unfolding z using D(3,4) by (auto simp: word_le_nat_alt)
qed

text \<open>An end or a begin index that has moved on determines the size.\<close>

lemma rq_size_eq:
  assumes "rq_ok s" "n < length (rq_buf s)" "(unat (rq_begin s) + n) mod length (rq_buf s) = unat (rq_end s)"
  shows "unat (rq_size s) = n"
proof -
  note D = rq_okD [OF assms(1)] and Z = rq_size_nat [OF assms(1)]
  have "(if unat (rq_begin s) + n < length (rq_buf s) then unat (rq_begin s) + n else unat (rq_begin s) + n - length (rq_buf s)) =
      (if unat (rq_begin s) + unat (rq_size s) < length (rq_buf s) then unat (rq_begin s) + unat (rq_size s)
       else unat (rq_begin s) + unat (rq_size s) - length (rq_buf s))"
    using wrap [OF D(3), of n] wrap [OF D(3), of "unat (rq_size s)"] assms(2,3) Z(2,3) by simp
  then show ?thesis using assms(2) Z(2) D(3) by (auto split: if_splits)
qed

lemma rq_empty_iff: "rq_ok s \<Longrightarrow> rq_empty s \<longleftrightarrow> rq_list s = []"
  using rq_size_nat(1) [of s] rq_okD(3) [of s]
  by (auto simp: rq_empty_def rq_list_def word_le_nat_alt word_eq_iff_unat length_0_conv [symmetric] simp del: length_0_conv split: if_splits)

lemma rq_full_iff: "rq_ok s \<Longrightarrow> rq_full s \<longleftrightarrow> Suc (length (rq_list s)) = length (rq_buf s)"
proof -
  assume I: "rq_ok s"
  note D = rq_okD [OF I] and Z = rq_size_nat [OF I]
  have "unat (rq_end s + 1) = unat (rq_end s) + 1" using D(4,5) by (simp add: unat_word_ariths)
  then have "unat (next_end s) = (unat (rq_end s) + 1) mod length (rq_buf s)" by (simp add: next_end_def D(1))
  then have "rq_full s \<longleftrightarrow> (unat (rq_end s) + 1) mod length (rq_buf s) = unat (rq_begin s)"
    by (simp add: rq_full_def word_eq_iff_unat)
  moreover have "(unat (rq_end s) + 1) mod length (rq_buf s) =
      (if unat (rq_end s) + 1 < length (rq_buf s) then unat (rq_end s) + 1 else unat (rq_end s) + 1 - length (rq_buf s))"
    by (rule wrap) (use D(4) in auto)
  ultimately show ?thesis using Z(1) D(3,4) by (auto simp: rq_list_def word_le_nat_alt split: if_splits)
qed

subsection \<open>Moving the indices\<close>

lemma rq_fill:
  assumes I: "rq_ok s" and d: "length (rq_list s) + length d < length (rq_buf s)"
    and e: "unat (rq_end s) + length d \<le> length (rq_buf s)"
    and s': "s' = s\<lparr>rq_buf := take (unat (rq_end s)) (rq_buf s) @ d @ drop (unat (rq_end s) + length d) (rq_buf s), rq_end := end'\<rparr>"
    and end': "unat end' = (unat (rq_end s) + length d) mod length (rq_buf s)"
  shows "rq_ok s'" "rq_list s' = rq_list s @ d" "length (rq_buf s') = length (rq_buf s)"
proof -
  note D = rq_okD [OF I] and Z = rq_size_nat [OF I]
  let ?c = "length (rq_buf s)"
  have n: "length (rq_list s) = unat (rq_size s)" by (simp add: rq_list_def)
  show len: "length (rq_buf s') = ?c" using e s' by simp
  have "unat end' < ?c" using end' D(3) by (metis mod_less_divisor gr_implies_not0 gr0I)
  then show I': "rq_ok s'" using I e D(2) unfolding s' rq_ok_def by (simp add: word_less_nat_alt)
  have "(unat (rq_begin s') + (unat (rq_size s) + length d)) mod ?c = unat (rq_end s')"
    using Z(3) end' by (simp add: s' add.assoc [symmetric] mod_add_left_eq [symmetric, of "_ + _" _ "length d"])
      (metis mod_add_left_eq)
  then have "unat (rq_size s') = unat (rq_size s) + length d"
    using rq_size_eq [OF I', of "unat (rq_size s) + length d"] len d n by simp
  then show "rq_list s' = rq_list s @ d"
    using window_write [OF D(3), of "unat (rq_size s)" d "unat (rq_end s)"] d e Z(3) n by (simp add: rq_list_def s')
qed

lemma rq_drain:
  assumes I: "rq_ok s" and m: "m \<le> length (rq_list s)" "unat (rq_begin s) + m \<le> length (rq_buf s)"
    and s': "s' = s\<lparr>rq_begin := begin'\<rparr>" and begin': "unat begin' = (unat (rq_begin s) + m) mod length (rq_buf s)"
  shows "rq_ok s'" "rq_list s = take m (drop (unat (rq_begin s)) (rq_buf s)) @ rq_list s'"
proof -
  note D = rq_okD [OF I] and Z = rq_size_nat [OF I]
  let ?c = "length (rq_buf s)"
  have n: "length (rq_list s) = unat (rq_size s)" by (simp add: rq_list_def)
  have "unat begin' < ?c" using begin' D(3) by (metis mod_less_divisor gr_implies_not0 gr0I)
  then show I': "rq_ok s'" using I D(2) unfolding s' rq_ok_def by (simp add: word_less_nat_alt)
  have "((unat (rq_begin s) + m) mod ?c + (unat (rq_size s) - m)) mod ?c = (unat (rq_begin s) + m + (unat (rq_size s) - m)) mod ?c"
    by (rule mod_add_left_eq)
  then have "(unat (rq_begin s') + (unat (rq_size s) - m)) mod ?c = unat (rq_end s')"
    using Z(3) begin' m(1) n by (simp add: s')
  then have "unat (rq_size s') = unat (rq_size s) - m"
    using rq_size_eq [OF I', of "unat (rq_size s) - m"] Z(2) by (simp add: s')
  then show "rq_list s = take m (drop (unat (rq_begin s)) (rq_buf s)) @ rq_list s'"
    using window_read [OF D(3), of m "unat (rq_size s)"] m Z(2) n begin' by (simp add: rq_list_def s')
qed

lemma rq_push_back_list:
  assumes I: "rq_ok s" and "\<not> rq_full s"
  obtains s' where "rq_push_back x s = Some s'" "rq_ok s'" "rq_list s' = rq_list s @ [x]" "length (rq_buf s') = length (rq_buf s)"
proof -
  note D = rq_okD [OF I]
  have lt: "length (rq_list s) + length [x] < length (rq_buf s)"
    using rq_full_iff [OF I] assms(2) rq_size_nat(2) [OF I] by (simp add: rq_list_def)
  have e: "unat (rq_end s + 1) = unat (rq_end s) + length [x]" using D(4,5) by (simp add: unat_word_ariths)
  have ne: "unat (next_end s) = (unat (rq_end s) + length [x]) mod length (rq_buf s)" unfolding next_end_def D(1) e ..
  have up: "(rq_buf s)[unat (rq_end s) := x] =
      take (unat (rq_end s)) (rq_buf s) @ [x] @ drop (unat (rq_end s) + length [x]) (rq_buf s)"
    using upd_conv_take_nth_drop [OF D(4)] by simp
  note F = rq_fill [OF I lt _ refl ne]
  show thesis
    by (rule that [of "s\<lparr>rq_buf := (rq_buf s)[unat (rq_end s) := x], rq_end := next_end s\<rparr>"])
      (use assms(2) F D(4) in \<open>simp_all add: rq_push_back_def up\<close>)
qed

lemma rq_pop_front_list:
  assumes I: "rq_ok s" and "\<not> rq_empty s"
  obtains s' where "rq_pop_front s = Some (hd (rq_list s), s')" "rq_ok s'" "rq_list s' = tl (rq_list s)" "rq_buf s' = rq_buf s"
proof -
  note D = rq_okD [OF I]
  have ne: "rq_list s \<noteq> []" using rq_empty_iff [OF I] assms(2) by simp
  have b: "unat (next_begin s) = (unat (rq_begin s) + 1) mod length (rq_buf s)"
    using D(3,5) by (simp add: next_begin_def D(1) unat_word_ariths)
  have one: "take 1 (drop (unat (rq_begin s)) (rq_buf s)) = [rq_front s]"
    using D(3) by (simp add: rq_front_def take_Suc_conv_app_nth hd_drop_conv_nth take_Suc)
  have "1 \<le> length (rq_list s)" using ne by (cases "rq_list s") auto
  note R = rq_drain [OF I this _ refl b, unfolded one]
  show thesis
    by (rule that [of "s\<lparr>rq_begin := next_begin s\<rparr>"]) (use assms(2) R D(3) in \<open>simp_all add: rq_pop_front_def\<close>)
qed

subsection \<open>Bulk transfer\<close>

lemma unat_ucast64 [simp]: "unat (ucast (x :: u32) :: u64) = unat x"
proof -
  have "unat x < 2 ^ 32" using unsigned_less [of x] by simp
  then show ?thesis by (simp add: unsigned_ucast_eq take_bit_nat_eq_self_iff)
qed

lemma unat_ucast32: "unat (x :: u64) < 2 ^ 32 \<Longrightarrow> unat (ucast x :: u32) = unat x"
  by (simp add: unsigned_ucast_eq take_bit_nat_eq_self_iff)

lemma rb_write_round_list:
  assumes I: "rq_ok s" and d: "data \<noteq> []" "length data < 2 ^ 64" and nf: "\<not> rq_full s"
  obtains n s' where "rb_write_round data s = Some (drop n data, s')" "0 < n" "n \<le> length data"
    "rq_ok s'" "rq_list s' = rq_list s @ take n data" "length (rq_buf s') = length (rq_buf s)"
proof -
  note D = rq_okD [OF I] and Z = rq_size_nat [OF I]
  let ?c = "length (rq_buf s)" and ?b = "unat (rq_begin s)" and ?e = "unat (rq_end s)"
  define lim :: u32 where "lim = (if rq_end s < rq_begin s then rq_begin s - 1
    else if rq_begin s = 0 then rq_capacity s - 1 else rq_capacity s)"
  have cap: "0 < unat (rq_capacity s)" using D(2,3) by linarith
  have lim: "unat lim = (if ?e < ?b then ?b - 1 else if ?b = 0 then ?c - 1 else ?c)"
    using D(2) cap by (auto simp: lim_def word_less_nat_alt unat_sub_if' unat_eq_0 Suc_le_eq [symmetric])
  have nfull: "Suc (unat (rq_size s)) \<noteq> ?c" using rq_full_iff [OF I] nf by (simp add: rq_list_def)
  have gap: "?e < unat lim" "unat (rq_size s) + (unat lim - ?e) < ?c" "unat lim \<le> ?c"
    using lim Z(1,2) nfull D(3,4) by (auto simp: word_le_nat_alt split: if_splits)
  define len :: u64 where "len = min (of_nat (length data)) (ucast lim - ucast (rq_end s))"
  define n where "n = unat len"
  have "unat (ucast lim - ucast (rq_end s) :: u64) = unat lim - ?e" using gap(1) by (subst unat_sub) (auto simp: word_le_nat_alt)
  moreover have "unat (of_nat (length data) :: u64) = length data" using d(2) by (simp add: unat_of_nat_u64)
  ultimately have n: "n = min (length data) (unat lim - ?e)" by (simp add: n_def len_def min_def word_le_nat_alt)
  have n32: "unat (ucast len :: u32) = n" using n gap(3) D(5) n_def by (simp add: unat_ucast32)
  have pos: "0 < n" "n \<le> length data" "length (take n data) = n" using n gap(1) d(1) by auto
  have fits: "?e + n \<le> ?c" "length (rq_list s) + length (take n data) < ?c" using n gap pos(3) by (auto simp: rq_list_def)
  let ?s = "s\<lparr>rq_buf := take ?e (rq_buf s) @ take n data @ drop (?e + n) (rq_buf s), rq_end := rq_end s + ucast len\<rparr>"
  have do: "rb_do_write data (ucast lim) s = Some (drop n data, ?s)"
    using d(1) fits(1) by (simp add: rb_do_write_def len_def [symmetric] n_def [symmetric] Let_def)
  have ee: "unat (rq_end s + ucast len) = ?e + n" using fits(1) D(5) n32 by (simp add: unat_word_ariths)
  define e' where "e' = (if \<not> rq_end s < rq_begin s \<and> rq_end s + ucast len = rq_capacity s then 0 else rq_end s + ucast len)"
  have wr: "rb_write_round data s = Some (drop n data, ?s\<lparr>rq_end := e'\<rparr>)"
    using do by (auto simp: rb_write_round_def lim_def e'_def Let_def)
  have "unat e' = (?e + n) mod ?c"
  proof (cases "?e + n < ?c")
    case True
    then have "rq_end s + ucast len \<noteq> rq_capacity s" using ee D(2) by auto
    then show ?thesis using True ee by (simp add: e'_def)
  next
    case False
    then have "?e + n = ?c" using fits(1) by simp
    moreover have "rq_end s + ucast len = rq_capacity s" using ee D(2) calculation by (simp add: word_eq_iff_unat)
    moreover have "\<not> rq_end s < rq_begin s" using False n lim D(3) by (auto simp: word_less_nat_alt)
    ultimately show ?thesis by (simp add: e'_def)
  qed
  then have e': "unat e' = (?e + length (take n data)) mod ?c" using pos(3) by simp
  have up: "?s\<lparr>rq_end := e'\<rparr> = s\<lparr>rq_buf := take ?e (rq_buf s) @ take n data @ drop (?e + length (take n data)) (rq_buf s), rq_end := e'\<rparr>"
    using pos(3) by simp
  have fit': "?e + length (take n data) \<le> ?c" using fits(1) pos(3) by simp
  show thesis using that [OF wr pos(1,2)] rq_fill [OF I fits(2) fit' up e'] by blast
qed

lemma rb_write_list:
  assumes "rq_ok s" "length data < 2 ^ 64"
  shows "\<exists>s'. rb_write data s = Some (drop (length (rq_buf s) - 1 - length (rq_list s)) data, s') \<and> rq_ok s' \<and>
    rq_list s' = rq_list s @ take (length (rq_buf s) - 1 - length (rq_list s)) data \<and> length (rq_buf s') = length (rq_buf s)"
  using assms
proof (induction "length data" arbitrary: data s rule: less_induct)
  case less
  let ?f = "length (rq_buf s) - 1 - length (rq_list s)"
  show ?case
  proof (cases "data = [] \<or> rq_full s")
    case True
    then have "rb_write data s = Some (data, s)" by (subst rb_write.simps) simp
    moreover have "drop ?f data = data" "take ?f data = []" using True rq_full_iff [OF less.prems(1)] by auto
    ultimately show ?thesis using less.prems(1) by simp
  next
    case False
    then obtain n s1 where r: "rb_write_round data s = Some (drop n data, s1)" "0 < n" "n \<le> length data"
      "rq_ok s1" "rq_list s1 = rq_list s @ take n data" "length (rq_buf s1) = length (rq_buf s)"
      using rb_write_round_list [OF less.prems(1) _ less.prems(2)] by metis
    have nf: "n \<le> ?f" using rq_size_nat(2) [OF r(4)] r(3,5,6) by (simp add: rq_list_def [of s1, THEN arg_cong [of _ _ length], simplified, symmetric])
    have st: "rb_write data s = rb_write (drop n data) s1" using False r(1) by (subst rb_write.simps) simp
    have "length (drop n data) < length data" "length (drop n data) < 2 ^ 64" using r(2,3) False less.prems(2) by auto
    note IH = less.hyps [OF this(1) r(4) this(2)]
    have f: "length (rq_buf s1) - 1 - length (rq_list s1) = ?f - n" using r(3,5,6) by simp
    have dd: "drop (?f - n) (drop n data) = drop ?f data" by (simp only: drop_drop le_add_diff_inverse2 [OF nf])
    have tt: "rq_list s1 @ take (?f - n) (drop n data) = rq_list s @ take ?f data"
      using take_add [of n "?f - n" data, unfolded le_add_diff_inverse [OF nf]] by (simp only: r(5) append_assoc)
    show ?thesis using IH [unfolded f dd tt, unfolded r(6)] unfolding st .
  qed
qed

lemma rb_read_round_list:
  assumes I: "rq_ok s" and c: "cnt \<noteq> 0" and ne: "\<not> rq_empty s"
  obtains n s' where "rb_read_round cnt s = Some (take n (rq_list s), cnt - of_nat n, s')" "0 < n" "n \<le> unat cnt"
    "n \<le> length (rq_list s)" "rq_ok s'" "rq_list s' = drop n (rq_list s)" "rq_buf s' = rq_buf s"
proof -
  note D = rq_okD [OF I] and Z = rq_size_nat [OF I]
  let ?c = "length (rq_buf s)" and ?b = "unat (rq_begin s)" and ?e = "unat (rq_end s)"
  define lim :: u32 where "lim = (if rq_begin s < rq_end s then rq_end s else rq_capacity s)"
  have lim: "unat lim = (if ?b < ?e then ?e else ?c)" using D(2) by (simp add: lim_def word_less_nat_alt)
  have be: "?b \<noteq> ?e" using ne by (simp add: rq_empty_def word_eq_iff_unat)
  have L: "length (rq_list s) = unat (rq_size s)" by (simp add: rq_list_def)
  have gap: "?b < unat lim" "unat lim - ?b \<le> unat (rq_size s)" "unat lim \<le> ?c"
    using lim Z(1) be D(3,4) by (auto simp: word_le_nat_alt split: if_splits)
  define len :: u64 where "len = min cnt (ucast lim - ucast (rq_begin s))"
  define n where "n = unat len"
  have "unat (ucast lim - ucast (rq_begin s) :: u64) = unat lim - ?b" using gap(1) by (subst unat_sub) (auto simp: word_le_nat_alt)
  then have n: "n = min (unat cnt) (unat lim - ?b)" by (simp add: n_def len_def min_def word_le_nat_alt)
  have n32: "unat (ucast len :: u32) = n" using n gap(3) D(5) n_def by (simp add: unat_ucast32)
  have "unat cnt \<noteq> 0" using c by (simp add: unat_eq_0)
  then have pos: "0 < n" "n \<le> unat cnt" "n \<le> length (rq_list s)" "?b + n \<le> ?c" using n gap L by auto
  have ln: "len = of_nat n" by (simp add: n_def)
  let ?s = "s\<lparr>rq_begin := rq_begin s + ucast len\<rparr>"
  have do: "rb_do_read cnt (ucast lim) s = Some (take n (drop ?b (rq_buf s)), cnt - len, ?s)"
    using c pos(4) by (simp add: rb_do_read_def len_def [symmetric] n_def [symmetric] Let_def)
  have bb: "unat (rq_begin s + ucast len) = ?b + n" using pos(4) D(5) n32 by (simp add: unat_word_ariths)
  define b' where "b' = (if \<not> rq_begin s < rq_end s \<and> rq_begin s + ucast len = rq_capacity s then 0 else rq_begin s + ucast len)"
  have rd: "rb_read_round cnt s = Some (take n (drop ?b (rq_buf s)), cnt - len, s\<lparr>rq_begin := b'\<rparr>)"
    using do by (auto simp: rb_read_round_def lim_def b'_def)
  have "unat b' = (?b + n) mod ?c"
  proof (cases "?b + n < ?c")
    case True
    then have "rq_begin s + ucast len \<noteq> rq_capacity s" using bb D(2) by auto
    then show ?thesis using True bb by (simp add: b'_def)
  next
    case False
    then have "?b + n = ?c" using pos(4) by simp
    moreover have "rq_begin s + ucast len = rq_capacity s" using bb D(2) calculation by (simp add: word_eq_iff_unat)
    moreover have "\<not> rq_begin s < rq_end s" using False n lim D(4) by (auto simp: word_less_nat_alt)
    ultimately show ?thesis by (simp add: b'_def)
  qed
  note R = rq_drain [OF I pos(3,4) refl this]
  have tl: "length (take n (drop ?b (rq_buf s))) = n" using pos(4) by simp
  have "take n (rq_list s) = take n (drop ?b (rq_buf s))" "drop n (rq_list s) = rq_list (s\<lparr>rq_begin := b'\<rparr>)"
    unfolding R(2) using tl by simp_all
  then show thesis using that [of n "s\<lparr>rq_begin := b'\<rparr>"] rd R(1) pos ln by simp
qed

lemma rb_read_list:
  assumes "rq_ok s"
  shows "\<exists>s'. rb_read cnt s = Some (take (unat cnt) (rq_list s), cnt - of_nat (min (unat cnt) (length (rq_list s))), s') \<and>
    rq_ok s' \<and> rq_list s' = drop (unat cnt) (rq_list s) \<and> rq_buf s' = rq_buf s"
  using assms
proof (induction "unat cnt" arbitrary: cnt s rule: less_induct)
  case less
  show ?case
  proof (cases "cnt = 0 \<or> rq_empty s")
    case True
    then have "rb_read cnt s = Some ([], cnt, s)" by (subst rb_read.simps) (auto simp: word_gt_0)
    then show ?thesis using less.prems True rq_empty_iff [OF less.prems] by auto
  next
    case False
    then obtain n s1 where r: "rb_read_round cnt s = Some (take n (rq_list s), cnt - of_nat n, s1)" "0 < n" "n \<le> unat cnt"
      "n \<le> length (rq_list s)" "rq_ok s1" "rq_list s1 = drop n (rq_list s)" "rq_buf s1 = rq_buf s"
      using rb_read_round_list [OF less.prems] by metis
    have "unat (of_nat n :: u64) = n" using r(3) unat_u64_less [of cnt] by (intro unat_of_nat_u64) linarith
    then have u: "unat (cnt - of_nat n) = unat cnt - n" using r(3) by (simp add: unat_sub word_le_nat_alt)
    then have lt: "unat (cnt - of_nat n) < unat cnt" using r(2,3) by linarith
    have st: "rb_read cnt s = Option.bind (rb_read (cnt - of_nat n) s1) (\<lambda>(out', cnt'', s''). Some (take n (rq_list s) @ out', cnt'', s''))"
      using False r(1) by (subst rb_read.simps) (simp add: word_gt_0)
    have tt: "take n (rq_list s) @ take (unat cnt - n) (drop n (rq_list s)) = take (unat cnt) (rq_list s)"
      using take_add [of n "unat cnt - n" "rq_list s"] r(3) by simp
    have mm: "cnt - of_nat n - of_nat (min (unat cnt - n) (length (rq_list s) - n)) = cnt - of_nat (min (unat cnt) (length (rq_list s)))"
    proof -
      have "min (unat cnt) (length (rq_list s)) = n + min (unat cnt - n) (length (rq_list s) - n)" using r(3,4) by linarith
      then show ?thesis by (simp only: of_nat_add diff_diff_add)
    qed
    from less.hyps [OF lt r(5)] obtain s2 where
      "rb_read (cnt - of_nat n) s1 = Some (take (unat cnt - n) (drop n (rq_list s)),
        cnt - of_nat n - of_nat (min (unat cnt - n) (length (rq_list s) - n)), s2)"
      "rq_ok s2" "rq_list s2 = drop (unat cnt - n) (drop n (rq_list s))" "rq_buf s2 = rq_buf s"
      unfolding u r(6,7) by auto
    then show ?thesis unfolding st mm using r(3) tt by simp
  qed
qed

subsection \<open>The bounded queue\<close>

lemma rq_clear_list: "rq_ok s \<Longrightarrow> \<exists>s'. rq_clear s = Some s' \<and> rq_ok s' \<and> rq_list s' = [] \<and> rq_buf s' = rq_buf s"
proof (induction "length (rq_list s)" arbitrary: s rule: less_induct)
  case less
  show ?case
  proof (cases "rq_empty s")
    case True
    then have "rq_clear s = Some s" by (subst rq_clear.simps) (simp add: rq_pop_front_def)
    then show ?thesis using True less.prems rq_empty_iff by auto
  next
    case False
    obtain s1 where s1: "rq_pop_front s = Some (hd (rq_list s), s1)" "rq_ok s1" "rq_list s1 = tl (rq_list s)" "rq_buf s1 = rq_buf s"
      using rq_pop_front_list [OF less.prems False] .
    have "length (rq_list s1) < length (rq_list s)"
      using s1(3) False rq_empty_iff [OF less.prems] by (cases "rq_list s") auto
    moreover have "rq_clear s = rq_clear s1" using s1(1) by (subst rq_clear.simps) simp
    ultimately show ?thesis using less.hyps [OF _ s1(2)] s1(4) by auto
  qed
qed

lemma rq_index_list:
  assumes I: "rq_ok s" and i: "unat i < length (rq_list s)"
  shows "rq_index i s = rq_list s ! unat i"
proof -
  note D = rq_okD [OF I] and Z = rq_size_nat [OF I]
  have i': "unat i < unat (rq_size s)" using i by (simp add: rq_list_def)
  then have "unat (ucast (rq_begin s) + i :: u64) = unat (rq_begin s) + unat i"
    using D(3,5) Z(2) by (subst unat_add_u64) auto
  moreover have "unat (rq_begin s) + unat i < 2 ^ 32" using D(3,5) Z(2) i' by auto
  ultimately have "unat (ucast (ucast (rq_begin s) + i :: u64) :: u32) = unat (rq_begin s) + unat i" by (simp add: unat_ucast32)
  then show ?thesis using i' by (simp add: rq_index_def D(1) rq_list_def window_def)
qed

lemma rq_front_back_list:
  assumes I: "rq_ok s" and ne: "rq_list s \<noteq> []"
  shows "rq_front s = hd (rq_list s)" and "rq_back s = last (rq_list s)"
proof -
  note D = rq_okD [OF I] and Z = rq_size_nat [OF I]
  let ?c = "length (rq_buf s)" and ?n = "unat (rq_size s)"
  have n: "0 < ?n" using ne by (simp add: rq_list_def window_def)
  show "rq_front s = hd (rq_list s)" using n D(3) by (simp add: rq_front_def rq_list_def window_def upt_conv_Cons)
  have e: "unat (rq_end s - 1) mod ?c = (unat (rq_begin s) + (?n - 1)) mod ?c"
  proof (cases "unat (rq_end s) = 0")
    case True
    then have "rq_end s = 0" by (simp add: unat_eq_0)
    then have "unat (rq_end s - 1) = 2 ^ 32 - 1" by (simp add: unsigned_minus_1_eq_mask mask_eq_exp_minus_1)
    moreover obtain m where m: "2 ^ 32 = ?c * Suc m" using D(6) D(3) by (metis dvdE gr0_conv_Suc not_gr_zero mult_0_right zero_less_numeral zero_less_power)
    have "(2 ^ 32 - 1) mod ?c = ?c - 1"
    proof -
      have eq: "2 ^ 32 - 1 = (?c - 1) + ?c * m" unfolding m using D(3) by simp
      show ?thesis unfolding eq mod_mult_self2 by (rule mod_less) (use D(3) in linarith)
    qed
    moreover have "unat (rq_begin s) + ?n = ?c" using Z(1) n True D(3) by (auto simp: word_le_nat_alt split: if_splits)
    then have "unat (rq_begin s) + (?n - 1) = ?c - 1" using n by linarith
    ultimately show ?thesis using D(3) by simp
  next
    case False
    then have "unat (rq_end s - 1) = unat (rq_end s) - 1" by (simp add: unat_sub word_le_nat_alt)
    moreover have "(unat (rq_begin s) + (?n - 1)) mod ?c =
        (if unat (rq_begin s) + (?n - 1) < ?c then unat (rq_begin s) + (?n - 1) else unat (rq_begin s) + (?n - 1) - ?c)"
      by (rule wrap) (use D(3) Z(2) in auto)
    then have "(unat (rq_begin s) + (?n - 1)) mod ?c = unat (rq_end s) - 1"
      using Z(1) n False D(3,4) by (auto simp: word_le_nat_alt simp del: mod_less split: if_splits)
    ultimately show ?thesis using D(4) by simp
  qed
  have "last (rq_list s) = rq_list s ! (?n - 1)" using ne by (simp add: last_conv_nth rq_list_def)
  then show "rq_back s = last (rq_list s)" using n by (simp add: rq_back_def D(1) e rq_list_def window_def)
qed

datatype 'a rq_op = Rq_push 'a | Rq_pop | Rq_front | Rq_back | Rq_index u64 | Rq_clear | Rb_write "'a list" | Rb_read u64

datatype 'a rq_result = Blocked | Moved | Item 'a | Items "'a list" u64 | Left "'a list"

fun rq_step :: "'a rq_op \<Rightarrow> 'a ring_queue \<Rightarrow> ('a ring_queue \<times> 'a rq_result) option" where
  "rq_step (Rq_push x) s = Some (case rq_push_back x s of None \<Rightarrow> (s, Blocked) | Some s' \<Rightarrow> (s', Moved))"
| "rq_step Rq_pop s = Some (case rq_pop_front s of None \<Rightarrow> (s, Blocked) | Some (x, s') \<Rightarrow> (s', Item x))"
| "rq_step Rq_front s = Some (s, Item (rq_front s))"
| "rq_step Rq_back s = Some (s, Item (rq_back s))"
| "rq_step (Rq_index i) s = Some (s, Item (rq_index i s))"
| "rq_step Rq_clear s = map_option (\<lambda>s'. (s', Moved)) (rq_clear s)"
| "rq_step (Rb_write data) s = map_option (\<lambda>(rest, s'). (s', Left rest)) (rb_write data s)"
| "rq_step (Rb_read cnt) s = map_option (\<lambda>(out, rest, s'). (s', Items out rest)) (rb_read cnt s)"

text \<open>A queue of at most \<open>c - 1\<close> elements.\<close>

fun arq_step :: "'a rq_op \<Rightarrow> nat \<times> 'a list \<Rightarrow> (nat \<times> 'a list) \<times> 'a rq_result" where
  "arq_step (Rq_push x) (c, xs) = (if Suc (length xs) = c then ((c, xs), Blocked) else ((c, xs @ [x]), Moved))"
| "arq_step Rq_pop (c, xs) = (if xs = [] then ((c, xs), Blocked) else ((c, tl xs), Item (hd xs)))"
| "arq_step Rq_front (c, xs) = ((c, xs), Item (hd xs))"
| "arq_step Rq_back (c, xs) = ((c, xs), Item (last xs))"
| "arq_step (Rq_index i) (c, xs) = ((c, xs), Item (xs ! unat i))"
| "arq_step Rq_clear (c, xs) = ((c, []), Moved)"
| "arq_step (Rb_write data) (c, xs) =
     (let k = c - 1 - length xs in ((c, xs @ take k data), Left (drop k data)))"
| "arq_step (Rb_read cnt) (c, xs) =
     ((c, drop (unat cnt) xs), Items (take (unat cnt) xs) (cnt - of_nat (min (unat cnt) (length xs))))"

fun rq_pre :: "'a rq_op \<Rightarrow> nat \<times> 'a list \<Rightarrow> bool" where
  "rq_pre Rq_front (c, xs) \<longleftrightarrow> xs \<noteq> []"
| "rq_pre Rq_back (c, xs) \<longleftrightarrow> xs \<noteq> []"
| "rq_pre (Rq_index i) (c, xs) \<longleftrightarrow> unat i < length xs"
| "rq_pre (Rb_write data) (c, xs) \<longleftrightarrow> length data < 2 ^ 64"
| "rq_pre _ _ \<longleftrightarrow> True"

definition rq_rel :: "'a ring_queue \<Rightarrow> nat \<times> 'a list \<Rightarrow> bool" where
  "rq_rel s x \<longleftrightarrow> rq_ok s \<and> x = (length (rq_buf s), rq_list s)"

lemma rq_step_refines:
  assumes "rq_rel s x" "rq_pre a x"
  shows "\<exists>s'. rq_step a s = Some (s', snd (arq_step a x)) \<and> rq_rel s' (fst (arq_step a x))"
proof -
  have I: "rq_ok s" and x: "x = (length (rq_buf s), rq_list s)" using assms(1) by (auto simp: rq_rel_def)
  show ?thesis
  proof (cases a)
    case (Rq_push v)
    show ?thesis
    proof (cases "rq_full s")
      case False
      obtain s' where "rq_push_back v s = Some s'" "rq_ok s'" "rq_list s' = rq_list s @ [v]" "length (rq_buf s') = length (rq_buf s)"
        using rq_push_back_list [OF I False] .
      then show ?thesis using False rq_full_iff [OF I] Rq_push x by (simp add: rq_rel_def)
    qed (use I Rq_push x rq_full_iff [OF I] in \<open>simp add: rq_push_back_def rq_rel_def\<close>)
  next
    case Rq_pop
    show ?thesis
    proof (cases "rq_empty s")
      case False
      obtain s' where "rq_pop_front s = Some (hd (rq_list s), s')" "rq_ok s'" "rq_list s' = tl (rq_list s)" "rq_buf s' = rq_buf s"
        using rq_pop_front_list [OF I False] .
      then show ?thesis using False rq_empty_iff [OF I] Rq_pop x by (simp add: rq_rel_def)
    qed (use I Rq_pop x rq_empty_iff [OF I] in \<open>simp add: rq_pop_front_def rq_rel_def\<close>)
  next
    case Rq_clear
    then show ?thesis using rq_clear_list [OF I] x by (auto simp: rq_rel_def)
  next
    case (Rb_write data)
    then show ?thesis using rb_write_list [OF I, of data] assms(2) x by (auto simp: rq_rel_def Let_def)
  next
    case (Rb_read cnt)
    then show ?thesis using rb_read_list [OF I, of cnt] x by (auto simp: rq_rel_def)
  next
    case (Rq_index i)
    then show ?thesis using rq_index_list [OF I, of i] assms x by simp
  qed (use assms x rq_front_back_list [OF I] in simp_all)
qed

interpretation rqq: data_refinement rq_rel rq_step arq_step rq_pre
  by unfold_locales (rule rq_step_refines)

lemma new_ring_queue_ok:
  assumes "capacity \<noteq> 0" "unat capacity \<le> 2 ^ 31"
  obtains k s where "k \<le> 31" "unat capacity \<le> 2 ^ k" "2 ^ k < 2 * unat capacity"
    "new_ring_queue capacity fill = Some s" "rq_rel s (2 ^ k, [])"
proof -
  have "(ucast capacity :: u64) \<noteq> 0" using assms(1) by (simp add: unat_eq_0 [symmetric] del: unat_eq_0)
  then obtain k where k: "k \<le> 31" "round_up_to_exp2 (ucast capacity) = Some (2 ^ k)" "unat capacity \<le> 2 ^ k" "2 ^ k < 2 * unat capacity"
    using round_up_small [of "ucast capacity"] assms(2) by auto
  let ?s = "\<lparr>rq_begin = 0, rq_end = 0, rq_capacity = 2 ^ k, rq_mask = 2 ^ k - 1, rq_buf = map fill [0..<2 ^ k]\<rparr>"
  have c: "(ucast (2 ^ k :: u64) :: u32) = 2 ^ k" "unat (2 ^ k :: u32) = 2 ^ k"
    using k(1) ucast_exp32 [of k] unat_exp [of k, where ?'a = 32] by auto
  have "rq_ok ?s" using k(1) c by (auto simp: rq_ok_def word_less_nat_alt)
  moreover have "rq_list ?s = []" by (simp add: rq_list_def window_def rq_size_def rq_mod_def)
  ultimately have "rq_rel ?s (2 ^ k, [])" by (simp add: rq_rel_def)
  moreover have "new_ring_queue capacity fill = Some ?s"
    using k(2) c by (simp add: new_ring_queue_def set_capacity_def)
  ultimately show thesis using that [OF k(1,3,4)] by blast
qed

subsection \<open>Properties\<close>

text \<open>
  C26: A ring queue made for \<open>capacity\<close> elements, at most \<open>2 ^ 31\<close>, rounds the capacity up to a power of two
  and from then on is a first-in first-out queue of one element less: any sequence of single pushes
  and pops, reads of its ends and elements, clearing, and bulk writes and reads that wrap around
  the end of the buffer ends without an access outside the buffer and returns what the list of the
  elements gives, and an operation is blocked exactly when that queue is full or empty.
\<close>

theorem ring_queue_refines:
  assumes "capacity \<noteq> 0" "unat capacity \<le> 2 ^ 31"
    and "\<And>c. runnable rq_pre arq_step oprs (c, [])"
  shows "\<exists>c s s'. new_ring_queue capacity fill = Some s \<and> unat capacity \<le> c \<and> c < 2 * unat capacity \<and>
    run rq_step oprs s = Some (s', snd (arun arq_step oprs (c, []))) \<and>
    rq_ok s' \<and> rq_list s' = snd (fst (arun arq_step oprs (c, [])))"
proof -
  obtain k s where s: "unat capacity \<le> 2 ^ k" "2 ^ k < 2 * unat capacity"
    "new_ring_queue capacity fill = Some s" "rq_rel s (2 ^ k, [])"
    using new_ring_queue_ok [OF assms(1,2)] by metis
  from rqq.run_refines [OF s(4) assms(3)] obtain s' where
    "run rq_step oprs s = Some (s', snd (arun arq_step oprs (2 ^ k, [])))"
    "rq_rel s' (fst (arun arq_step oprs (2 ^ k, [])))" by blast
  then show ?thesis using s(1-3) by (intro exI [of _ "2 ^ k"] exI [of _ s] exI [of _ s']) (simp add: rq_rel_def)
qed

theorem ring_queue_refines_witness:
  "\<exists>c s s'. new_ring_queue 4 (\<lambda>_. 0 :: nat) = Some s \<and> 4 \<le> c \<and> c < (8 :: nat) \<and>
    run rq_step [Rb_write [1, 2, 3], Rb_read 2, Rb_write [4, 5], Rq_pop, Rb_read 9] s =
      Some (s', snd (arun arq_step [Rb_write [1, 2, 3], Rb_read 2, Rb_write [4, 5], Rq_pop, Rb_read 9] (c, [])))"
proof -
  have "runnable rq_pre arq_step [Rb_write [1, 2, 3], Rb_read 2, Rb_write [4, 5], Rq_pop, Rb_read 9] (c, [] :: nat list)" for c
    by (simp add: Let_def)
  from ring_queue_refines [OF _ _ this, of 4 "\<lambda>_. 0"] show ?thesis by (simp del: run.simps arun.simps) blast
qed

end
