(* ===== verification/Base64.thy ===== *)
theory Base64
  imports Prelude "HOL-Library.Char_ord"
begin

text \<open>
  Base64 encoding and decoding of src/net/utils.cpp.  A character is its byte; a pointer into the
  input is the rest of the input, with the number of bytes up to \<open>end\<close> where the loop compares with it.
  The bit fields of \<open>xlator\<close> lie in a little-endian 32-bit word from bit 8 on.
\<close>

subsection \<open>Encoding\<close>

definition b64_tbl :: "byte list" where
  "b64_tbl = map of_char ''ABCDEFGHIJKLMNOPQRSTUVWXYZabcdefghijklmnopqrstuvwxyz0123456789+/''"

text \<open>\<open>htonl\<close> of the 32-bit word at a pointer: the first byte becomes the most significant.\<close>

definition load_net32 :: "byte list \<Rightarrow> u32" where
  "load_net32 p = push_bit 24 (ucast (p ! 0)) OR push_bit 16 (ucast (p ! 1)) OR push_bit 8 (ucast (p ! 2)) OR ucast (p ! 3)"

definition xlator_a :: "u32 \<Rightarrow> nat" where "xlator_a v = unat (drop_bit 8 v AND 63)"
definition xlator_b :: "u32 \<Rightarrow> nat" where "xlator_b v = unat (drop_bit 14 v AND 63)"
definition xlator_c :: "u32 \<Rightarrow> nat" where "xlator_c v = unat (drop_bit 20 v AND 63)"
definition xlator_d :: "u32 \<Rightarrow> nat" where "xlator_d v = unat (drop_bit 26 v AND 63)"

text \<open>The four bytes written, in the order of their addresses.\<close>

definition base64_translate_3to4 :: "byte list \<Rightarrow> byte list" where
  "base64_translate_3to4 p =
     (let v = load_net32 p in [b64_tbl ! xlator_d v, b64_tbl ! xlator_c v, b64_tbl ! xlator_b v, b64_tbl ! xlator_a v])"

fun b64_loop4 :: "byte list \<Rightarrow> nat \<Rightarrow> byte list \<times> byte list \<times> nat" where
  "b64_loop4 p rem =
     (if 12 < rem then
        (let (out, q, r) = b64_loop4 (drop 12 p) (rem - 12)
         in (base64_translate_3to4 p @ base64_translate_3to4 (drop 3 p) @ base64_translate_3to4 (drop 6 p) @
             base64_translate_3to4 (drop 9 p) @ out, q, r))
      else ([], p, rem))"

fun b64_loop1 :: "byte list \<Rightarrow> nat \<Rightarrow> byte list \<times> byte list" where
  "b64_loop1 p rem =
     (if 0 < rem then (let (out, q) = b64_loop1 (drop 3 p) (rem - 3) in (base64_translate_3to4 p @ out, q))
      else ([], p))"

text \<open>
  The last one to three bytes, padded with zeros in a local array.  An empty input makes \<open>main\<close> wrap
  around and the code write outside the output: \<open>None\<close>.
\<close>

definition b64_tail :: "byte list \<Rightarrow> nat \<Rightarrow> byte list" where
  "b64_tail p remain =
     (let itail = [p ! 0, if remain = 2 \<or> remain = 3 then p ! 1 else 0, if remain = 3 then p ! 2 else 0, 0]
      in take (remain + 1) (base64_translate_3to4 itail) @ replicate (3 - remain) (of_char (CHR ''='')))"

definition Base64Encode :: "byte list \<Rightarrow> byte list option" where
  "Base64Encode inp =
     (if inp = [] then None
      else
        (let remain = (if length inp mod 3 = 0 then 3 else length inp mod 3);
             main = (if length inp mod 3 = 0 then length inp div 3 - 1 else length inp div 3);
             (out4, p, rem) = b64_loop4 inp (main * 3);
             (out1, q) = b64_loop1 p rem
         in Some (out4 @ out1 @ b64_tail q remain)))"

subsection \<open>Decoding\<close>

definition base64_index_map :: "nat list" where
  "base64_index_map =
     [62, 255, 255, 255, 63, 52, 53, 54, 55, 56, 57, 58, 59, 60, 61, 255, 255, 255, 255, 255, 255, 255,
      0, 1, 2, 3, 4, 5, 6, 7, 8, 9, 10, 11, 12, 13, 14, 15, 16, 17, 18, 19, 20, 21, 22, 23, 24, 25,
      255, 255, 255, 255, 255, 255,
      26, 27, 28, 29, 30, 31, 32, 33, 34, 35, 36, 37, 38, 39, 40, 41, 42, 43, 44, 45, 46, 47, 48, 49, 50, 51, 52]"

text \<open>The index of a character and whether it is one of the alphabet.\<close>

definition get_index_of :: "byte \<Rightarrow> nat \<times> bool" where
  "get_index_of val =
     (if unat val < 43 \<or> unat val > 122 then (0, False)
      else (let ret = base64_index_map ! (unat val - 43) in (ret, ret \<noteq> 255)))"

text \<open>The unused first byte of the local \<open>xlator\<close> is not initialised: \<open>junk\<close>.  Four bytes are written.\<close>

definition base64_translate_4to3 :: "byte \<Rightarrow> byte list \<Rightarrow> byte list \<times> bool" where
  "base64_translate_4to3 junk p =
     (let (a, f1) = get_index_of (p ! 3); (b, f2) = get_index_of (p ! 2);
          (c, f3) = get_index_of (p ! 1); (d, f4) = get_index_of (p ! 0);
          v = (ucast junk OR push_bit 8 (of_nat a AND 63) OR push_bit 14 (of_nat b AND 63) OR
               push_bit 20 (of_nat c AND 63) OR push_bit 26 (of_nat d AND 63) :: u32)
      in ([ucast (drop_bit 24 v), ucast (drop_bit 16 v), ucast (drop_bit 8 v), ucast v], f1 \<and> f2 \<and> f3 \<and> f4))"

text \<open>The fourth byte that a group writes is overwritten by the next group, the last one lies behind the output.\<close>

fun b64_decode_loop :: "byte \<Rightarrow> byte list \<Rightarrow> nat \<Rightarrow> byte list option" where
  "b64_decode_loop junk p rem =
     (if 4 \<le> rem then
        (let (bs, ok) = base64_translate_4to3 junk p
         in if \<not> ok then None else map_option (\<lambda>out. take 3 bs @ out) (b64_decode_loop junk (drop 4 p) (rem - 4)))
      else Some [])"

definition Base64Decode :: "byte \<Rightarrow> byte list \<Rightarrow> byte list option" where
  "Base64Decode junk inp =
     (let n = length inp; eq = of_char (CHR ''=''); ch_A = of_char (CHR ''A'')
      in if n = 0 \<or> n mod 4 \<noteq> 0 then None
         else
           (let pad = (if inp ! (n - 1) \<noteq> eq then 0 else if inp ! (n - 2) \<noteq> eq then 1 else 2);
                tail = drop (n - 4) inp;
                in_tail = [tail ! 0, tail ! 1, if pad = 2 then ch_A else tail ! 2, ch_A]
            in case b64_decode_loop junk inp (n - pad) of
                 None \<Rightarrow> None
               | Some out \<Rightarrow>
                   (if pad = 0 then Some out
                    else (let (bs, ok) = base64_translate_4to3 junk in_tail
                          in if \<not> ok then None else Some (take (n div 4 * 3 - pad) (out @ take 3 bs))))))"

declare b64_loop4.simps [simp del] b64_loop1.simps [simp del] b64_decode_loop.simps [simp del]

subsection \<open>One group\<close>

lemma tbl_index: "n < 64 \<Longrightarrow> get_index_of (b64_tbl ! n) = (n, True)"
proof -
  have "list_all (\<lambda>n. get_index_of (b64_tbl ! n) = (n, True)) [0..<64]" by code_simp
  then show "n < 64 \<Longrightarrow> get_index_of (b64_tbl ! n) = (n, True)" by (simp add: list_all_iff)
qed

lemma tbl_no_eq: "n < 64 \<Longrightarrow> b64_tbl ! n \<noteq> of_char (CHR ''='')"
proof -
  have "list_all (\<lambda>n. b64_tbl ! n \<noteq> of_char (CHR ''='')) [0..<64]" by code_simp
  then show "n < 64 \<Longrightarrow> b64_tbl ! n \<noteq> of_char (CHR ''='')" by (simp add: list_all_iff)
qed

lemma tbl_zero: "b64_tbl ! 0 = of_char (CHR ''A'')"
  by (simp add: b64_tbl_def)

lemma sextet_less: "xlator_a v < 64" "xlator_b v < 64" "xlator_c v < 64" "xlator_d v < 64"
proof -
  have "unat (w AND 63 :: u32) < 64" for w
  proof -
    have "w AND 63 = take_bit 6 w" by (simp add: take_bit_eq_mask mask_eq_exp_minus_1)
    then show ?thesis using take_bit_nat_less_exp [of 6 "unat w"] by (simp add: unsigned_take_bit_eq)
  qed
  then show "xlator_a v < 64" "xlator_b v < 64" "xlator_c v < 64" "xlator_d v < 64"
    by (simp_all add: xlator_a_def xlator_b_def xlator_c_def xlator_d_def)
qed

text \<open>Packing the four fields gives back the word, up to the unused byte.\<close>

definition repack :: "byte \<Rightarrow> u32 \<Rightarrow> u32" where
  "repack junk v = ucast junk OR push_bit 8 (drop_bit 8 v AND 63) OR push_bit 14 (drop_bit 14 v AND 63) OR
     push_bit 20 (drop_bit 20 v AND 63) OR push_bit 26 (drop_bit 26 v AND 63)"

lemma and_63: "(w :: u32) AND 63 = take_bit 6 w"
  by (simp add: take_bit_eq_mask mask_eq_exp_minus_1)

lemma bit_repack: "8 \<le> n \<Longrightarrow> bit (repack junk v) n \<longleftrightarrow> bit v n"
  unfolding repack_def and_63
  by (cases "n < 26"; cases "n < 20"; auto simp: bit_or_iff bit_push_bit_iff bit_take_bit_iff bit_drop_bit_eq bit_ucast_iff
      dest: bit_imp_le_length [of junk] bit_imp_le_length [of v])

lemma bit_load_net32:
  "m < 8 \<Longrightarrow> bit (load_net32 p) (24 + m) = bit (p ! 0) m" "m < 8 \<Longrightarrow> bit (load_net32 p) (16 + m) = bit (p ! 1) m"
  "m < 8 \<Longrightarrow> bit (load_net32 p) (8 + m) = bit (p ! 2) m"
  by (auto simp: load_net32_def bit_or_iff bit_push_bit_iff bit_ucast_iff dest: bit_imp_le_length)

lemma repack_bytes:
  "ucast (drop_bit 24 (repack junk (load_net32 p))) = p ! 0" "ucast (drop_bit 16 (repack junk (load_net32 p))) = p ! 1"
  "ucast (drop_bit 8 (repack junk (load_net32 p))) = p ! 2"
  by (rule bit_word_eqI; simp add: bit_ucast_iff bit_drop_bit_eq bit_repack bit_load_net32)+

lemma group_roundtrip:
  "base64_translate_4to3 junk (base64_translate_3to4 p) = ([p ! 0, p ! 1, p ! 2, ucast (repack junk (load_net32 p))], True)"
proof -
  let ?v = "load_net32 p"
  have f: "(of_nat (xlator_a ?v) AND 63 :: u32) = drop_bit 8 ?v AND 63" "(of_nat (xlator_b ?v) AND 63 :: u32) = drop_bit 14 ?v AND 63"
    "(of_nat (xlator_c ?v) AND 63 :: u32) = drop_bit 20 ?v AND 63" "(of_nat (xlator_d ?v) AND 63 :: u32) = drop_bit 26 ?v AND 63"
    by (simp_all add: xlator_a_def xlator_b_def xlator_c_def xlator_d_def and.assoc)
  have v: "(ucast junk OR push_bit 8 (of_nat (xlator_a ?v) AND 63) OR push_bit 14 (of_nat (xlator_b ?v) AND 63) OR
      push_bit 20 (of_nat (xlator_c ?v) AND 63) OR push_bit 26 (of_nat (xlator_d ?v) AND 63) :: u32) = repack junk ?v"
    unfolding f repack_def ..
  have i: "get_index_of (base64_translate_3to4 p ! 3) = (xlator_a ?v, True)" "get_index_of (base64_translate_3to4 p ! 2) = (xlator_b ?v, True)"
    "get_index_of (base64_translate_3to4 p ! 1) = (xlator_c ?v, True)" "get_index_of (base64_translate_3to4 p ! 0) = (xlator_d ?v, True)"
    by (simp_all add: base64_translate_3to4_def Let_def tbl_index sextet_less)
  show ?thesis unfolding base64_translate_4to3_def i Let_def prod.case v repack_bytes by simp
qed

lemma length_3to4 [simp]: "length (base64_translate_3to4 p) = 4"
  by (simp add: base64_translate_3to4_def Let_def)

subsection \<open>The loops\<close>

text \<open>Reference: the groups one after the other.\<close>

fun b64_groups :: "nat \<Rightarrow> byte list \<Rightarrow> byte list" where
  "b64_groups 0 p = []"
| "b64_groups (Suc m) p = base64_translate_3to4 p @ b64_groups m (drop 3 p)"

lemma b64_groups_add: "b64_groups (m + n) p = b64_groups m p @ b64_groups n (drop (3 * m) p)"
  by (induction m arbitrary: p) (auto simp: add_ac)

lemma length_b64_groups [simp]: "length (b64_groups m p) = 4 * m"
  by (induction m arbitrary: p) auto

lemma b64_loop1_groups: "b64_loop1 p (m * 3) = (b64_groups m p, drop (3 * m) p)"
proof (induction m arbitrary: p)
  case (Suc m)
  then show ?case by (subst b64_loop1.simps) (simp add: add_ac)
qed (subst b64_loop1.simps, simp)

lemma b64_loop4_groups:
  obtains j where "j \<le> m" "b64_loop4 p (m * 3) = (b64_groups j p, drop (3 * j) p, (m - j) * 3)"
proof -
  have "\<exists>j\<le>m. b64_loop4 p (m * 3) = (b64_groups j p, drop (3 * j) p, (m - j) * 3)"
  proof (induction m arbitrary: p rule: less_induct)
    case (less m)
    show ?case
    proof (cases "12 < m * 3")
      case True
      then have m: "m = 4 + (m - 4)" "m - 4 < m" by auto
      then obtain j where j: "j \<le> m - 4" "b64_loop4 (drop 12 p) ((m - 4) * 3) = (b64_groups j (drop 12 p), drop (3 * j) (drop 12 p), (m - 4 - j) * 3)"
        using less.IH by blast
      have "m * 3 - 12 = (m - 4) * 3" by simp
      moreover have "b64_groups (4 + j) p = base64_translate_3to4 p @ base64_translate_3to4 (drop 3 p) @
          base64_translate_3to4 (drop 6 p) @ base64_translate_3to4 (drop 9 p) @ b64_groups j (drop 12 p)"
        by (simp add: numeral_eq_Suc)
      ultimately have "b64_loop4 p (m * 3) = (b64_groups (4 + j) p, drop (3 * (4 + j)) p, (m - (4 + j)) * 3)"
        using True j(2) by (subst b64_loop4.simps) (simp add: add.commute)
      then show ?thesis using j(1) m(1) by (intro exI [of _ "4 + j"]) simp
    next
      case False
      then have "b64_loop4 p (m * 3) = ([], p, m * 3)" by (subst b64_loop4.simps) simp
      then show ?thesis by (intro exI [of _ 0]) simp
    qed
  qed
  then show thesis using that by blast
qed

lemma take3: "3 \<le> length p \<Longrightarrow> take 3 p = [p ! 0, p ! 1, p ! 2]"
  by (intro nth_equalityI) (auto simp: less_Suc_eq numeral_3_eq_3 numeral_2_eq_2)

lemma decode_groups:
  "3 * m \<le> length p \<Longrightarrow> b64_decode_loop junk (b64_groups m p @ rest) (4 * m + r) =
    map_option (\<lambda>out. take (3 * m) p @ out) (b64_decode_loop junk rest r)"
proof (induction m arbitrary: p)
  case (Suc m)
  have "b64_decode_loop junk (b64_groups m (drop 3 p) @ rest) (4 * m + r) =
      map_option (\<lambda>out. take (3 * m) (drop 3 p) @ out) (b64_decode_loop junk rest r)"
    using Suc by simp
  moreover have "take (3 * Suc m) p = [p ! 0, p ! 1, p ! 2] @ take (3 * m) (drop 3 p)"
    using take_add [of 3 "3 * m" p] take3 [of p] Suc.prems(1) by simp
  moreover have g: "base64_translate_4to3 junk (base64_translate_3to4 p @ ys) = base64_translate_4to3 junk (base64_translate_3to4 p)" for ys
    by (simp add: base64_translate_4to3_def base64_translate_3to4_def Let_def)
  ultimately show ?case
    by (subst b64_decode_loop.simps) (cases "b64_decode_loop junk rest r", simp_all add: g group_roundtrip)
qed (cases "b64_decode_loop junk rest r", simp_all)

lemma encode_groups:
  assumes "inp \<noteq> []"
  obtains m r where "length inp = 3 * m + r" "1 \<le> r" "r \<le> 3"
    "Base64Encode inp = Some (b64_groups m inp @ b64_tail (drop (3 * m) inp) r)"
proof -
  define r where "r = (if length inp mod 3 = 0 then 3 else length inp mod 3)"
  define m where "m = (if length inp mod 3 = 0 then length inp div 3 - 1 else length inp div 3)"
  have len: "length inp = 3 * m + r" "1 \<le> r" "r \<le> 3"
  proof -
    have "length inp = 3 * (length inp div 3) + length inp mod 3" "length inp mod 3 < 3" by simp_all
    moreover have "0 < length inp div 3" if "length inp mod 3 = 0" 
    proof -
      have "0 < length inp" using assms by simp
      then have "3 \<le> length inp" using that by presburger
      then show ?thesis by (simp add: div_greater_zero_iff)
    qed
    ultimately show "length inp = 3 * m + r" "1 \<le> r" "r \<le> 3" by (auto simp: r_def m_def simp del: mod_less_divisor)
  qed
  obtain j where j: "j \<le> m" "b64_loop4 inp (m * 3) = (b64_groups j inp, drop (3 * j) inp, (m - j) * 3)"
    using b64_loop4_groups .
  have "b64_groups j inp @ b64_groups (m - j) (drop (3 * j) inp) = b64_groups m inp"
    using b64_groups_add [of j "m - j" inp] j(1) by simp
  moreover have "drop (3 * (m - j)) (drop (3 * j) inp) = drop (3 * m) inp"
    unfolding drop_drop using j(1) by (simp add: add_mult_distrib2 [symmetric])
  ultimately have "Base64Encode inp = Some (b64_groups m inp @ b64_tail (drop (3 * m) inp) r)"
    using assms j(2) unfolding Base64Encode_def r_def [symmetric] m_def [symmetric]
    by (simp add: b64_loop1_groups Let_def)
  then show thesis using that len by blast
qed

text \<open>The array that the tail of the input is copied to, and what its encoding looks like.\<close>

definition tail_bytes :: "byte list \<Rightarrow> nat \<Rightarrow> byte list" where
  "tail_bytes p r = [p ! 0, if r = 2 \<or> r = 3 then p ! 1 else 0, if r = 3 then p ! 2 else 0, 0]"

lemma tail_A:
  "r = 1 \<or> r = 2 \<Longrightarrow> base64_translate_3to4 (tail_bytes p r) ! 3 = of_char (CHR ''A'')"
  "r = 1 \<Longrightarrow> base64_translate_3to4 (tail_bytes p r) ! 2 = of_char (CHR ''A'')"
proof -
  have a: "xlator_a (load_net32 (tail_bytes p r)) = 0" if "r = 1 \<or> r = 2"
  proof -
    have "drop_bit 8 (load_net32 (tail_bytes p r)) AND 63 = 0" unfolding and_63
      by (rule bit_word_eqI) (use that in \<open>auto simp: bit_take_bit_iff bit_drop_bit_eq bit_load_net32 tail_bytes_def\<close>)
    then show ?thesis by (simp add: xlator_a_def)
  qed
  have b: "xlator_b (load_net32 (tail_bytes p r)) = 0" if "r = 1"
  proof -
    have "\<not> bit (load_net32 (tail_bytes p r)) (14 + n)" if "n < 6" for n
    proof (cases "n < 2")
      case True
      then show ?thesis using bit_load_net32(3) [of "6 + n" "tail_bytes p r"] \<open>r = 1\<close> by (simp add: tail_bytes_def)
    next
      case False
      then show ?thesis using bit_load_net32(2) [of "n - 2" "tail_bytes p r"] \<open>r = 1\<close> that by (simp add: tail_bytes_def)
    qed
    then have "drop_bit 14 (load_net32 (tail_bytes p r)) AND 63 = 0" unfolding and_63
      by (intro bit_word_eqI) (auto simp: bit_take_bit_iff bit_drop_bit_eq)
    then show ?thesis by (simp add: xlator_b_def)
  qed
  show "r = 1 \<or> r = 2 \<Longrightarrow> base64_translate_3to4 (tail_bytes p r) ! 3 = of_char (CHR ''A'')"
    "r = 1 \<Longrightarrow> base64_translate_3to4 (tail_bytes p r) ! 2 = of_char (CHR ''A'')"
    using a b tbl_zero by (simp_all add: base64_translate_3to4_def Let_def)
qed

lemma b64_tail_eq: "b64_tail p r = take (r + 1) (base64_translate_3to4 (tail_bytes p r)) @ replicate (3 - r) (of_char (CHR ''=''))"
  by (simp add: b64_tail_def tail_bytes_def Let_def)

lemma group_chars: "i < 4 \<Longrightarrow> base64_translate_3to4 p ! i \<noteq> of_char (CHR ''='')"
proof -
  assume "i < 4"
  then consider "i = 0" | "i = 1" | "i = 2" | "i = 3" by linarith
  then show ?thesis by cases (simp_all add: base64_translate_3to4_def Let_def tbl_no_eq [simplified] sextet_less)
qed

lemma group_list: "base64_translate_3to4 p = [base64_translate_3to4 p ! 0, base64_translate_3to4 p ! 1, base64_translate_3to4 p ! 2, base64_translate_3to4 p ! 3]"
  by (simp add: base64_translate_3to4_def Let_def)

lemma Base64Decode_last:
  assumes "length g = 4 * m"
  shows "Base64Decode junk (g @ [x0, x1, x2, x3]) =
    (let pad = (if x3 \<noteq> of_char (CHR ''='') then 0 else if x2 \<noteq> of_char (CHR ''='') then 1 else 2)
     in case b64_decode_loop junk (g @ [x0, x1, x2, x3]) (4 * m + (4 - pad)) of
          None \<Rightarrow> None
        | Some out \<Rightarrow>
            (if pad = 0 then Some out
             else (let (bs, ok) = base64_translate_4to3 junk [x0, x1, if pad = 2 then of_char (CHR ''A'') else x2, of_char (CHR ''A'')]
                   in if \<not> ok then None else Some (take (3 * m + (3 - pad)) (out @ take 3 bs)))))"
proof -
  let ?inp = "g @ [x0, x1, x2, x3]"
  have n: "length ?inp = 4 * m + 4" using assms by simp
  have e: "?inp ! (4 * m + 4 - 1) = x3" "?inp ! (4 * m + 4 - 2) = x2" "drop (4 * m + 4 - 4) ?inp = [x0, x1, x2, x3]"
    using assms by (simp_all add: nth_append)
  have a: "4 * m + 4 - pad = 4 * m + (4 - pad)" "(4 * m + 4) div 4 * 3 - pad = 3 * m + (3 - pad)" if "pad \<le> 3" for pad :: nat
    using that by simp_all
  have nz: "\<not> (4 * m + 4 = 0 \<or> (4 * m + 4) mod 4 \<noteq> 0)" by simp
  have t: "[x0, x1, x2, x3] ! 0 = x0" "[x0, x1, x2, x3] ! 1 = x1" "[x0, x1, x2, x3] ! 2 = x2" by simp_all
  show ?thesis unfolding Base64Decode_def n Let_def e t if_not_P [OF nz]
    by (cases "x3 = of_char (CHR ''='')"; cases "x2 = of_char (CHR ''='')") (simp_all only: a if_True if_False not_True_eq_False not_False_eq_True order.refl one_le_numeral zero_le simp_thms a [of 0, simplified] a [of 1, simplified] a [of 2, simplified])
qed

lemma decode_tail:
  assumes "1 \<le> r" "r \<le> 3" "length p = r" "length g = 4 * m"
    and g: "\<And>rest k. b64_decode_loop junk (g @ rest) (4 * m + k) = map_option (\<lambda>out. front @ out) (b64_decode_loop junk rest k)"
    and "length front = 3 * m"
  shows "Base64Decode junk (g @ b64_tail p r) = Some (front @ p)"
proof -
  let ?G = "base64_translate_3to4 (tail_bytes p r)"
  obtain c0 c1 c2 c3 where G: "?G = [c0, c1, c2, c3]" using group_list by blast
  have ne: "c2 \<noteq> of_char (CHR ''='')" "c3 \<noteq> of_char (CHR ''='')" using group_chars [of 2 "tail_bytes p r"] group_chars [of 3 "tail_bytes p r"] G by simp_all
  have D: "base64_translate_4to3 junk [c0, c1, c2, c3] =
      ([tail_bytes p r ! 0, tail_bytes p r ! 1, tail_bytes p r ! 2, ucast (repack junk (load_net32 (tail_bytes p r)))], True)"
    using group_roundtrip [of junk "tail_bytes p r"] G by simp
  have short: "b64_decode_loop junk q k = Some []" if "k < 4" for q k using that by (subst b64_decode_loop.simps) simp
  consider "r = 1" | "r = 2" | "r = 3" using assms(1,2) by linarith
  then show ?thesis
  proof cases
    case 1
    then have T: "b64_tail p r = [c0, c1, of_char (CHR ''=''), of_char (CHR ''='')]" using G by (simp add: b64_tail_eq numeral_eq_Suc)
    have A: "c2 = of_char (CHR ''A'')" "c3 = of_char (CHR ''A'')" using tail_A [of r p] 1 G by simp_all
    obtain p0 where "p = [p0]" using assms(3) 1 by (cases p) auto
    then show ?thesis unfolding T Base64Decode_last [OF assms(4)] using 1 A D g [of _ 2] short [of 2] assms(4,6)
      by (simp add: tail_bytes_def)
  next
    case 2
    then have T: "b64_tail p r = [c0, c1, c2, of_char (CHR ''='')]" using G by (simp add: b64_tail_eq numeral_eq_Suc)
    have A: "c3 = of_char (CHR ''A'')" using tail_A [of r p] 2 G by simp
    obtain p0 p1 where "p = [p0, p1]" using assms(3) 2 by (cases p; cases "tl p") auto
    then show ?thesis unfolding T Base64Decode_last [OF assms(4)] using 2 A D g [of _ 3] short [of 3] assms(4,6) ne
      by (simp add: tail_bytes_def)
  next
    case 3
    then have T: "b64_tail p r = [c0, c1, c2, c3]" using G by (simp add: b64_tail_eq numeral_eq_Suc)
    have "b64_decode_loop junk [c0, c1, c2, c3] 4 = Some [tail_bytes p r ! 0, tail_bytes p r ! 1, tail_bytes p r ! 2]"
      using D short [of 0] by (subst b64_decode_loop.simps) simp
    moreover obtain p0 p1 p2 where "p = [p0, p1, p2]" using assms(3) 3 by (cases p; cases "tl p"; cases "tl (tl p)") auto
    ultimately show ?thesis unfolding T Base64Decode_last [OF assms(4)] using 3 g [of _ 4] assms(4,6) ne
      by (simp add: tail_bytes_def)
  qed
qed

subsection \<open>Properties\<close>

text \<open>
  C28: Decoding what \<open>Base64Encode\<close> makes of any non-empty input gives the input back, for every length
  modulo three and whatever the uninitialised byte of the decoder is; the unrolled loop of the
  encoder is the plain sequence of groups, and the encoding has four characters for every three
  bytes begun.
\<close>

theorem base64_roundtrip:
  assumes "inp \<noteq> []"
  shows "\<exists>out. Base64Encode inp = Some out \<and> length out = 4 * ((length inp + 2) div 3) \<and> Base64Decode junk out = Some inp"
proof -
  obtain m r where e: "length inp = 3 * m + r" "1 \<le> r" "r \<le> 3"
    "Base64Encode inp = Some (b64_groups m inp @ b64_tail (drop (3 * m) inp) r)"
    using encode_groups [OF assms] .
  have m: "3 * m \<le> length inp" using e(1) by simp
  have "Base64Decode junk (b64_groups m inp @ b64_tail (drop (3 * m) inp) r) = Some (take (3 * m) inp @ drop (3 * m) inp)"
    by (rule decode_tail [OF e(2,3)]) (use e(1) decode_groups [OF m] in auto)
  moreover have "length (b64_tail (drop (3 * m) inp) r) = 4" using e(2,3) by (simp add: b64_tail_eq)
  moreover have "(length inp + 2) div 3 = m + 1"
    by (rule div_nat_eqI) (use e(1-3) in simp_all)
  ultimately show ?thesis using e(4) by simp
qed

theorem base64_roundtrip_witness:
  "\<exists>out. Base64Encode [72, 101, 108, 108] = Some out \<and> length out = 8 \<and> Base64Decode 255 out = Some [72, 101, 108, 108]"
  using base64_roundtrip [of "[72, 101, 108, 108]" 255] by simp

end
