(* ===== verification/Case_Fold.thy ===== *)
theory Case_Fold
  imports Prelude
begin

text \<open>
  Case conversion and case-insensitive comparison of src/common/estring.h and estring.cpp.  The fast
  versions work on eight characters packed into a 64-bit word, the first character lowest.
\<close>

subsection \<open>One character\<close>

definition tolower_fast :: "byte \<Rightarrow> byte" where
  "tolower_fast c = c + 32 * of_bool (65 \<le> c \<and> c \<le> 90)"

definition toupper_fast :: "byte \<Rightarrow> byte" where
  "toupper_fast c = c - 32 * of_bool (97 \<le> c \<and> c \<le> 122)"

subsection \<open>Eight characters\<close>

definition check_cases :: "u64 \<Rightarrow> u64 \<Rightarrow> u64 \<Rightarrow> u64" where
  "check_cases x a z =
     (let all_bytes = 0x0101010101010101;
          heptets = x AND (0x7f * all_bytes);
          is_ascii = NOT x AND (0x80 * all_bytes);
          is_gt_Z = heptets + (0x7f - z) * all_bytes;
          is_ge_A = heptets + (0x80 - a) * all_bytes
      in (is_ge_A XOR is_gt_Z) AND is_ascii)"

text \<open>The characters are \<open>A\<close> (65) and \<open>X\<close> (88) in the first, \<open>a\<close> (97) and \<open>z\<close> (122) in the second function.\<close>

definition tolower_fast8 :: "u64 \<Rightarrow> u64" where
  "tolower_fast8 x = (let is_upper = check_cases x 65 88 in x OR drop_bit 2 is_upper)"

definition toupper_fast8 :: "u64 \<Rightarrow> u64" where
  "toupper_fast8 x = (let is_lower = check_cases x 97 122 in x XOR drop_bit 2 is_lower)"

text \<open>A character below the rest of the word, and a word from its characters.\<close>

definition cons8 :: "byte \<Rightarrow> u64 \<Rightarrow> u64" where
  "cons8 b x = ucast b OR push_bit 8 x"

fun load64 :: "byte list \<Rightarrow> u64" where
  "load64 [] = 0"
| "load64 (b # bs) = cons8 b (load64 bs)"

fun store64 :: "nat \<Rightarrow> u64 \<Rightarrow> byte list" where
  "store64 0 x = []"
| "store64 (Suc n) x = ucast x # store64 n (drop_bit 8 x)"

subsection \<open>Whole strings\<close>

text \<open>
  \<open>convert_case\<close>: short strings character by character; otherwise whole words, and one more word that
  ends with the string and overlaps the one before it.  The input is not the output here.  A length
  of zero is replaced by that of the C string at the pointer, whose characters \<open>behind\<close> the input are
  then converted too; the output has no room for them: \<open>None\<close>.
\<close>

definition convert_words :: "(u64 \<Rightarrow> u64) \<Rightarrow> byte list \<Rightarrow> byte list" where
  "convert_words f8 inp =
     concat (map (\<lambda>k. store64 8 (f8 (load64 (take 8 (drop (8 * k) inp))))) [0..<length inp div 8])"

definition convert_case :: "byte list \<Rightarrow> byte list \<Rightarrow> (byte \<Rightarrow> byte) \<Rightarrow> (u64 \<Rightarrow> u64) \<Rightarrow> byte list option" where
  "convert_case behind inp f1 f8 =
     (let len = (if length inp = 0 then length (takeWhile (\<lambda>c. c \<noteq> 0) behind) else length inp)
      in if len > length inp then None
         else if len < 8 then Some (map f1 inp)
         else Some (take (len - 8) (convert_words f8 inp) @ store64 8 (f8 (load64 (drop (len - 8) inp)))))"

definition tolower_str :: "byte list \<Rightarrow> byte list \<Rightarrow> byte list option" where
  "tolower_str behind inp = convert_case behind inp tolower_fast tolower_fast8"

definition toupper_str :: "byte list \<Rightarrow> byte list \<Rightarrow> byte list option" where
  "toupper_str behind inp = convert_case behind inp toupper_fast toupper_fast8"

text \<open>The methods of \<open>estring_view\<close>; both call the conversion to upper case.\<close>

definition view_tolower :: "byte list \<Rightarrow> byte list \<Rightarrow> byte list option" where
  "view_tolower behind inp = toupper_str behind inp"

definition view_toupper :: "byte list \<Rightarrow> byte list \<Rightarrow> byte list option" where
  "view_toupper behind inp = toupper_str behind inp"

subsection \<open>Comparison\<close>

definition bswap64 :: "u64 \<Rightarrow> u64" where
  "bswap64 x = load64 (rev (store64 8 x))"

definition icmp8 :: "byte list \<Rightarrow> byte list \<Rightarrow> u64" where
  "icmp8 a b = bswap64 (tolower_fast8 (load64 (take 8 a))) - bswap64 (tolower_fast8 (load64 (take 8 b)))"

definition spaceship :: "u64 \<Rightarrow> 32 word" where
  "spaceship x =
     (let high = (ucast (drop_bit 32 x) :: u32); low = (ucast x :: u32)
      in high OR drop_bit 1 low OR (low AND 1))"

text \<open>The comparison of the first \<open>len\<close> characters, one at a time: \<open>char\<close> is signed and the difference an int.\<close>

fun icmp_chars :: "nat \<Rightarrow> byte list \<Rightarrow> byte list \<Rightarrow> int option" where
  "icmp_chars (Suc n) (x # xs) (y # ys) =
     (let d = sint (tolower_fast x) - sint (tolower_fast y) in if d \<noteq> 0 then Some d else icmp_chars n xs ys)"
| "icmp_chars _ _ _ = None"

fun icmp_words :: "nat \<Rightarrow> byte list \<Rightarrow> byte list \<Rightarrow> u64 option" where
  "icmp_words 0 a b = None"
| "icmp_words (Suc n) a b = (let x = icmp8 a b in if x \<noteq> 0 then Some x else icmp_words n (drop 8 a) (drop 8 b))"

definition stricmp_fast :: "byte list \<Rightarrow> byte list \<Rightarrow> int" where
  "stricmp_fast a b =
     (let len = min (length a) (length b);
          sizes = sint (spaceship (of_nat (length a) - of_nat (length b)))
      in if len < 8 then (case icmp_chars len a b of Some x \<Rightarrow> x | None \<Rightarrow> sizes)
         else case icmp_words (len div 8) a b of
             Some x \<Rightarrow> sint (spaceship x)
           | None \<Rightarrow>
               (let x = icmp8 (drop (len - 8) a) (drop (len - 8) b)
                in if len div 8 * 8 < len \<and> x \<noteq> 0 then sint (spaceship x) else sizes))"

subsection \<open>Words as rows of characters\<close>

lemma bit_cons8: "bit (cons8 b x) n \<longleftrightarrow> (if n < 8 then bit b n else n < 64 \<and> bit x (n - 8))"
  by (auto simp: cons8_def bit_or_iff bit_push_bit_iff bit_ucast_iff dest: bit_imp_le_length)

lemma cons8_bitwise:
  "cons8 a x AND cons8 b y = cons8 (a AND b) (x AND y)" "cons8 a x OR cons8 b y = cons8 (a OR b) (x OR y)"
  "cons8 a x XOR cons8 b y = cons8 (a XOR b) (x XOR y)"
  by (rule bit_word_eqI; auto simp: bit_cons8 bit_and_iff bit_or_iff bit_xor_iff)+

lemma cons8_not: "NOT (cons8 a x) = cons8 (NOT a) (NOT x)"
  by (rule bit_word_eqI) (auto simp: bit_cons8 bit_not_iff)

lemma cons8_add_form: "cons8 b x = ucast b + 256 * x"
proof -
  have "ucast b + push_bit 8 x = ucast b OR push_bit 8 x"
    by (rule disjunctive_add) (auto simp: bit_ucast_iff bit_push_bit_iff dest: bit_imp_le_length)
  then show ?thesis by (simp add: cons8_def push_bit_eq_mult mult.commute)
qed

lemma cons8_add:
  assumes "unat a + unat b < 256"
  shows "cons8 a x + cons8 b y = cons8 (a + b) (x + y)"
proof -
  have "unat (a + b) = unat a + unat b" using assms by (simp add: unat_word_ariths)
  then have "(ucast (a + b) :: u64) = of_nat (unat a + unat b)" using of_nat_unat [of "a + b", where ?'a = "64 word"] by simp
  also have "\<dots> = ucast a + ucast b" by simp
  finally show ?thesis by (simp add: cons8_add_form algebra_simps)
qed

lemma bit_load64_bound: "bit (load64 bs) n \<Longrightarrow> n < 8 * length bs"
proof (induction bs arbitrary: n)
  case (Cons b bs)
  show ?case
  proof (cases "n < 8")
    case False
    then have "bit (load64 bs) (n - 8)" using Cons.prems by (simp add: bit_cons8)
    then show ?thesis using Cons.IH [of "n - 8"] False by simp
  qed simp
qed simp

lemma cons8_drop2:
  assumes "\<not> bit x 0" "\<not> bit x 1" "\<And>n. 56 \<le> n \<Longrightarrow> \<not> bit x n"
  shows "drop_bit 2 (cons8 b x) = cons8 (drop_bit 2 b) (drop_bit 2 x)"
proof (rule bit_word_eqI)
  fix n assume "n < LENGTH(64)"
  show "bit (drop_bit 2 (cons8 b x)) n = bit (cons8 (drop_bit 2 b) (drop_bit 2 x)) n"
  proof (cases "8 \<le> n")
    case True
    then have "2 + n - 8 = 2 + (n - 8)" by simp
    moreover have "n < 62" if "bit x (2 + (n - 8))"
      using assms(3) [of "2 + (n - 8)"] that True by linarith
    ultimately show ?thesis using True \<open>n < LENGTH(64)\<close> by (auto simp: bit_cons8 bit_drop_bit_eq)
  next
    case False
    consider "n < 6" | "n = 6" | "n = 7" using False by linarith
    then show ?thesis using assms(1,2) by cases (auto simp: bit_cons8 bit_drop_bit_eq dest: bit_imp_le_length)
  qed
qed

lemma load64_store: "length bs \<le> 8 \<Longrightarrow> store64 (length bs) (load64 bs) = bs"
proof (induction bs)
  case (Cons b bs)
  have "ucast (cons8 b (load64 bs)) = b" by (rule bit_word_eqI) (simp add: bit_ucast_iff bit_cons8)
  moreover have "drop_bit 8 (cons8 b (load64 bs)) = load64 bs"
  proof (rule bit_word_eqI)
    fix n
    have "n < 56" if "bit (load64 bs) n" using bit_load64_bound [OF that] Cons.prems by simp
    then show "bit (drop_bit 8 (cons8 b (load64 bs))) n = bit (load64 bs) n"
      by (auto simp: bit_drop_bit_eq bit_cons8)
  qed
  ultimately show ?case using Cons by simp
qed simp

text \<open>The operations of \<open>check_cases\<close> work on each character alone.\<close>

lemma load64_bitwise:
  assumes "length as = length bs"
  shows "load64 as AND load64 bs = load64 (map2 (AND) as bs)" "load64 as OR load64 bs = load64 (map2 (OR) as bs)"
    "load64 as XOR load64 bs = load64 (map2 (XOR) as bs)"
    "NOT (load64 as) AND load64 bs = load64 (map2 (\<lambda>a b. NOT a AND b) as bs)"
  using assms by (induction as bs rule: list_induct2) (simp_all add: cons8_bitwise cons8_not)

lemma load64_add:
  assumes "list_all2 (\<lambda>a b. unat a + unat b < 256) as bs"
  shows "load64 as + load64 bs = load64 (map2 (+) as bs)"
  using assms by (induction rule: list_all2_induct) (simp_all add: cons8_add)

lemma load64_drop2:
  assumes "length bs \<le> 8" "\<And>b. b \<in> set bs \<Longrightarrow> \<not> bit b 0 \<and> \<not> bit b 1"
  shows "drop_bit 2 (load64 bs) = load64 (map (drop_bit 2) bs)"
  using assms
proof (induction bs)
  case (Cons b bs)
  have "\<not> bit (load64 bs) 0" "\<not> bit (load64 bs) 1"
    using Cons.prems(2) by (cases bs; simp add: bit_cons8)+
  moreover have "\<not> bit (load64 bs) n" if "56 \<le> n" for n using bit_load64_bound [of bs n] Cons.prems(1) that by auto
  ultimately show ?case using Cons cons8_drop2 by simp
qed simp

definition check_char :: "byte \<Rightarrow> byte \<Rightarrow> byte \<Rightarrow> byte" where
  "check_char k1 k2 b = (((b AND 0x7f) + k1) XOR ((b AND 0x7f) + k2)) AND (NOT b AND 0x80)"

lemma all_bytes_mult: "ucast c * 0x0101010101010101 = load64 (replicate 8 c)"
  by (simp add: eval_nat_numeral cons8_add_form algebra_simps)

lemma check_cases_chars:
  assumes bs: "length bs = 8" and k: "0x80 - a = ucast k1" "0x7f - z = ucast k2" "unat k1 \<le> 128" "unat k2 \<le> 128"
  shows "check_cases (load64 bs) a z = load64 (map (check_char k1 k2) bs)"
proof -
  have c: "0x7f * 0x0101010101010101 = load64 (replicate 8 (0x7f :: byte))" "0x80 * 0x0101010101010101 = load64 (replicate 8 (0x80 :: byte))"
    using all_bytes_mult [where c = "0x7f"] all_bytes_mult [where c = "0x80"] by simp_all
  have m2: "map2 f bs (replicate 8 c) = map (\<lambda>b. f b c) bs" for f :: "byte \<Rightarrow> byte \<Rightarrow> byte" and c
    using bs by (intro nth_equalityI) simp_all
  have hept: "load64 bs AND 0x7f * 0x0101010101010101 = load64 (map (\<lambda>b. b AND 0x7f) bs)"
    unfolding c using bs by (simp add: load64_bitwise m2)
  have asc: "NOT (load64 bs) AND 0x80 * 0x0101010101010101 = load64 (map (\<lambda>b. NOT b AND 0x80) bs)"
    unfolding c using bs by (simp add: load64_bitwise m2)
  have hle: "unat (b AND 0x7f :: byte) \<le> 127" for b
  proof -
    have "b AND 0x7f = take_bit 7 b" by (simp add: take_bit_eq_mask mask_eq_exp_minus_1)
    then show ?thesis using take_bit_nat_less_exp [of 7 "unat b"] by (simp add: unsigned_take_bit_eq)
  qed
  have sum: "load64 (map (\<lambda>b. b AND 0x7f) bs) + ucast k * 0x0101010101010101 = load64 (map (\<lambda>b. (b AND 0x7f) + k) bs)"
    if "unat k \<le> 128" for k :: byte
  proof -
    have "unat (b AND 0x7f) + unat k < 256" for b :: byte using hle [of b] that by linarith
    then have "list_all2 (\<lambda>a b. unat a + unat b < 256) (map (\<lambda>b. b AND 0x7f) bs) (replicate 8 k)"
      using bs by (simp add: list_all2_conv_all_nth)
    moreover have "map2 (+) (map (\<lambda>b. b AND 0x7f) bs) (replicate 8 k) = map (\<lambda>b. (b AND 0x7f) + k) bs"
      using bs by (intro nth_equalityI) simp_all
    ultimately show ?thesis unfolding all_bytes_mult using load64_add by metis
  qed
  show ?thesis
    unfolding check_cases_def Let_def hept asc k sum [OF k(3)] sum [OF k(4)] using bs
    by (simp add: load64_bitwise check_char_def [abs_def] zip_map1 zip_map2 zip_same_conv_map comp_def)
qed

lemma byte_cases:
  assumes "list_all (\<lambda>n. P (of_nat n :: byte)) [0..<256]"
  shows "P b"
proof -
  have "unat b < 256" using unsigned_less [of b] by simp
  then have "P (of_nat (unat b))" using assms unfolding list_all_iff set_upt by (metis atLeastLessThan_iff zero_le)
  then show ?thesis by simp
qed

text \<open>The last two capital letters are not converted by the fast function.\<close>

definition tolower_but_yz :: "byte \<Rightarrow> byte" where
  "tolower_but_yz c = (if c = 89 \<or> c = 90 then c else tolower_fast c)"

lemma check_char_lower: "b OR drop_bit 2 (check_char 63 39 b) = tolower_but_yz b"
  by (rule byte_cases [of "\<lambda>b. b OR drop_bit 2 (check_char 63 39 b) = tolower_but_yz b"]) code_simp

lemma check_char_upper: "b XOR drop_bit 2 (check_char 31 5 b) = toupper_fast b"
  by (rule byte_cases [of "\<lambda>b. b XOR drop_bit 2 (check_char 31 5 b) = toupper_fast b"]) code_simp

lemma check_char_low_bits: "\<not> bit (check_char k1 k2 b) 0 \<and> \<not> bit (check_char k1 k2 b) 1"
  by (simp add: check_char_def bit_and_iff)

lemma check_cases_drop2:
  assumes "length bs = 8" "0x80 - a = ucast k1" "0x7f - z = ucast k2" "unat k1 \<le> 128" "unat k2 \<le> 128"
  shows "drop_bit 2 (check_cases (load64 bs) a z) = load64 (map (\<lambda>b. drop_bit 2 (check_char k1 k2 b)) bs)"
proof -
  have "\<not> bit b 0 \<and> \<not> bit b 1" if "b \<in> set (map (check_char k1 k2) bs)" for b
    using that check_char_low_bits by auto
  then show ?thesis using load64_drop2 [of "map (check_char k1 k2) bs"] assms(1)
    unfolding check_cases_chars [OF assms] by (simp add: comp_def)
qed

lemma tolower_fast8_chars: "length bs = 8 \<Longrightarrow> tolower_fast8 (load64 bs) = load64 (map tolower_but_yz bs)"
  by (simp add: tolower_fast8_def check_cases_drop2 [of bs 65 63 88 39] load64_bitwise zip_map2 zip_same_conv_map
      comp_def check_char_lower)

lemma toupper_fast8_chars: "length bs = 8 \<Longrightarrow> toupper_fast8 (load64 bs) = load64 (map toupper_fast bs)"
  by (simp add: toupper_fast8_def check_cases_drop2 [of bs 97 31 122 5] load64_bitwise zip_map2 zip_same_conv_map
      comp_def check_char_upper)

subsection \<open>Strings\<close>

lemma store_converted:
  assumes f: "\<And>bs. length bs = 8 \<Longrightarrow> f8 (load64 bs) = load64 (map g bs)" and "length bs = 8"
  shows "store64 8 (f8 (load64 bs)) = map g bs"
  using f [OF assms(2)] load64_store [of "map g bs"] assms(2) by simp

lemma convert_words_map:
  assumes f: "\<And>bs. length bs = 8 \<Longrightarrow> f8 (load64 bs) = load64 (map g bs)"
  shows "convert_words f8 inp = map g (take (8 * (length inp div 8)) inp)"
proof -
  have "concat (map (\<lambda>k. store64 8 (f8 (load64 (take 8 (drop (8 * k) inp))))) [0..<m]) = map g (take (8 * m) inp)"
    if "8 * m \<le> length inp" for m
    using that
  proof (induction m)
    case (Suc m)
    have "length (take 8 (drop (8 * m) inp)) = 8" using Suc.prems by simp
    then have "store64 8 (f8 (load64 (take 8 (drop (8 * m) inp)))) = map g (take 8 (drop (8 * m) inp))"
      using store_converted [OF f] by blast
    then show ?case using Suc take_add [of "8 * m" 8 inp] by (simp add: add.commute)
  qed simp
  then show ?thesis by (simp add: convert_words_def)
qed

lemma convert_case_map:
  assumes f: "\<And>bs. length bs = 8 \<Longrightarrow> f8 (load64 bs) = load64 (map g bs)" and "inp \<noteq> []"
  shows "convert_case behind inp f1 f8 = Some (map (if length inp < 8 then f1 else g) inp)"
proof (cases "length inp < 8")
  case False
  let ?n = "length inp"
  have "store64 8 (f8 (load64 (drop (?n - 8) inp))) = map g (drop (?n - 8) inp)"
    using store_converted [OF f, of "drop (?n - 8) inp"] False by simp
  moreover have "?n - 8 \<le> 8 * (?n div 8)" by linarith
  then have "take (?n - 8) (convert_words f8 inp) = map g (take (?n - 8) inp)"
    by (simp add: convert_words_map [OF f] take_map min_def)
  ultimately have "take (?n - 8) (convert_words f8 inp) @ store64 8 (f8 (load64 (drop (?n - 8) inp))) = map g inp"
    by (simp only: map_append [symmetric] append_take_drop_id)
  then show ?thesis using False assms(2) by (simp add: convert_case_def Let_def)
qed (use assms(2) in \<open>simp add: convert_case_def\<close>)

lemma spaceship_zero: "spaceship x = 0 \<longleftrightarrow> x = 0"
proof
  assume "spaceship x = 0"
  then have z: "\<not> bit (ucast (drop_bit 32 x) :: u32) n \<and> \<not> bit (drop_bit 1 (ucast x :: u32)) n \<and> \<not> bit ((ucast x :: u32) AND 1) n" for n
    unfolding spaceship_def Let_def by (metis bit_0_eq bit_or_iff bot_apply bot_bool_def)
  show "x = 0"
  proof (rule bit_word_eqI)
    fix n assume n: "n < LENGTH(64)"
    consider "32 \<le> n" | "n = 0" | "0 < n" "n < 32" by linarith
    then show "bit x n = bit 0 n"
    proof cases
      case 1
      then show ?thesis using z [of "n - 32"] n by (simp add: bit_ucast_iff bit_drop_bit_eq)
    next
      case 2
      then show ?thesis using z [of 0] by (simp add: bit_ucast_iff bit_and_iff bit_1_iff)
    next
      case 3
      then show ?thesis using z [of "n - 1"] by (simp add: bit_ucast_iff bit_drop_bit_eq)
    qed
  qed
qed (simp add: spaceship_def)

lemma sint_inj: "sint (x :: byte) = sint y \<longleftrightarrow> x = y"
  by (metis signed_word_eqI)

lemma icmp_chars_None:
  "n \<le> length a \<Longrightarrow> n \<le> length b \<Longrightarrow> icmp_chars n a b = None \<longleftrightarrow> map tolower_fast (take n a) = map tolower_fast (take n b)"
  by (induction n a b rule: icmp_chars.induct) (auto simp: Let_def sint_inj)

lemma icmp_chars_nonzero: "icmp_chars n a b \<noteq> Some 0"
  by (induction n a b rule: icmp_chars.induct) (auto simp: Let_def)

lemma stricmp_short:
  assumes "min (length a) (length b) < 8" "length a < 2 ^ 64" "length b < 2 ^ 64"
  shows "stricmp_fast a b = 0 \<longleftrightarrow> map tolower_fast a = map tolower_fast b"
proof -
  have sizes: "sint (spaceship (of_nat (length a) - of_nat (length b))) = 0 \<longleftrightarrow> length a = length b"
  proof -
    have "of_nat (length a) - of_nat (length b) = (0 :: u64) \<longleftrightarrow> length a = length b"
      using assms(2,3) by (simp add: word_eq_iff_unat [of "of_nat (length a)"] unat_of_nat_u64)
    then show ?thesis by (simp add: signed_eq_0_iff spaceship_zero)
  qed
  let ?n = "min (length a) (length b)"
  have n: "?n \<le> length a" "?n \<le> length b" by simp_all
  show ?thesis
  proof (cases "icmp_chars ?n a b")
    case None
    then have "map tolower_fast (take ?n a) = map tolower_fast (take ?n b)" using icmp_chars_None [OF n] by simp
    then have "length a = length b \<longleftrightarrow> map tolower_fast a = map tolower_fast b" by (auto dest: map_eq_imp_length_eq)
    then show ?thesis using None assms(1) sizes by (simp add: stricmp_fast_def Let_def)
  next
    case (Some x)
    then have "map tolower_fast a \<noteq> map tolower_fast b"
      using icmp_chars_None [OF n] by (metis map_eq_imp_length_eq min.idem option.distinct(1) take_all order.refl)
    then show ?thesis using Some assms(1) icmp_chars_nonzero [of ?n a b] by (auto simp: stricmp_fast_def Let_def)
  qed
qed

subsection \<open>Properties\<close>

text \<open>
  C29: The conversion of a non-empty string to upper case, which works on eight characters at a time with
  one overlapping word at the end, is the conversion of every character.  The conversion to lower
  case is so for strings shorter than eight characters; from eight characters on it leaves \<open>Y\<close> and
  \<open>Z\<close> as they are.  The method \<open>tolower_fast\<close> of \<open>estring_view\<close> converts to upper case.
\<close>

theorem case_conversion:
  assumes "inp \<noteq> []"
  shows "toupper_str behind inp = Some (map toupper_fast inp) \<and>
    tolower_str behind inp = Some (map (if length inp < 8 then tolower_fast else tolower_but_yz) inp) \<and>
    view_tolower behind inp = Some (map toupper_fast inp)"
  using convert_case_map [OF toupper_fast8_chars assms] convert_case_map [OF tolower_fast8_chars assms]
  by (simp add: toupper_str_def tolower_str_def view_tolower_def)

theorem case_conversion_witness:
  "tolower_str [] [66, 97, 98, 121, 32, 89, 90, 65, 66] = Some [98, 97, 98, 121, 32, 89, 90, 97, 98]"
  using case_conversion [of "[66, 97, 98, 121, 32, 89, 90, 65, 66]" "[]"]
  by (simp add: tolower_but_yz_def tolower_fast_def)

end
