(* ===== verification/Url.thy ===== *)
theory Url
  imports Case_Fold "HOL-Library.Char_ord"
begin

text \<open>
  Numbers in strings (src/common/estring.cpp) and the URL functions of src/net/http/url.cpp: percent
  escapes and the parser of \<open>URL\<close>.  A character is its byte, \<open>chars\<close> reads a literal.
\<close>

definition chars :: "string \<Rightarrow> byte list" where
  "chars s = map of_char s"

subsection \<open>Searching\<close>

definition find_first_of :: "(byte \<Rightarrow> bool) \<Rightarrow> byte list \<Rightarrow> nat option" where
  "find_first_of cset s = (let i = length (takeWhile (\<lambda>c. \<not> cset c) s) in if i < length s then Some i else None)"

definition find_first_not_of :: "(byte \<Rightarrow> bool) \<Rightarrow> byte list \<Rightarrow> nat option" where
  "find_first_not_of cset s = find_first_of (\<lambda>c. \<not> cset c) s"

definition find_last_of :: "(byte \<Rightarrow> bool) \<Rightarrow> byte list \<Rightarrow> nat option" where
  "find_last_of cset s = map_option (\<lambda>i. length s - 1 - i) (find_first_of cset (rev s))"

definition find_last_not_of :: "(byte \<Rightarrow> bool) \<Rightarrow> byte list \<Rightarrow> nat option" where
  "find_last_not_of cset s = map_option (\<lambda>i. length s - 1 - i) (find_first_of (\<lambda>c. \<not> cset c) (rev s))"

definition trim :: "(byte \<Rightarrow> bool) \<Rightarrow> byte list \<Rightarrow> byte list" where
  "trim spaces s =
     (case find_first_not_of spaces s of
        None \<Rightarrow> []
      | Some start \<Rightarrow>
          (case find_last_not_of spaces s of None \<Rightarrow> [] | Some fin \<Rightarrow> take (fin - start + 1) (drop start s)))"

subsection \<open>Numbers\<close>

text \<open>\<open>_to_uint64_check\<close>: the number of digits and the value, which wraps around.\<close>

fun to_uint64_loop :: "nat \<Rightarrow> (byte \<Rightarrow> byte) \<Rightarrow> byte list \<Rightarrow> nat \<Rightarrow> u64 \<Rightarrow> nat \<times> u64" where
  "to_uint64_loop base parse_digit [] i val = (i, val)"
| "to_uint64_loop base parse_digit (s # ss) i val =
     (let c = parse_digit s
      in if unat c \<ge> base then (i, val)
         else to_uint64_loop base parse_digit ss (Suc i) (val * of_nat base + ucast c))"

definition to_uint64_check :: "byte list \<Rightarrow> nat \<times> u64" where
  "to_uint64_check s = to_uint64_loop 10 (\<lambda>c. c - 48) s 0 0"

definition hex_char_to_digit :: "byte \<Rightarrow> byte" where
  "hex_char_to_digit c =
     (let cc = c - 48
      in if cc < 10 then cc
         else (let cc' = (c OR 32) - 97 in if cc' < 6 then cc' + 10 else -1))"

definition hex_to_uint64_check :: "byte list \<Rightarrow> nat \<times> u64" where
  "hex_to_uint64_check s = to_uint64_loop 16 hex_char_to_digit s 0 0"

definition hex_to_uint64 :: "byte list \<Rightarrow> u64" where
  "hex_to_uint64 s = (let (n, val) = hex_to_uint64_check s in if n \<noteq> 0 then val else 0)"

definition all_digits :: "byte list \<Rightarrow> bool" where
  "all_digits s \<longleftrightarrow> fst (to_uint64_check s) \<noteq> 0"

definition to_uint64 :: "u64 \<Rightarrow> byte list \<Rightarrow> u64" where
  "to_uint64 default_val s = (let (n, val) = to_uint64_check s in if n \<noteq> 0 then val else default_val)"

definition to_int64_check :: "byte list \<Rightarrow> nat \<times> u64" where
  "to_int64_check s =
     (if s = [] then (0, 0)
      else if hd s \<noteq> 45 then to_uint64_check s
      else (let (ret, v) = to_uint64_check (tl s) in if ret = 0 then (0, v) else (ret + 1, - v)))"

text \<open>\<open>estring::append(uint64_t)\<close>: the digits from the last on, reversed at the end.\<close>

function dec_digits :: "u64 \<Rightarrow> byte list" where
  "dec_digits x = (48 + ucast (x mod 10)) # (if x div 10 = 0 then [] else dec_digits (x div 10))"
  by auto
termination
proof (relation "measure unat")
  fix x :: u64
  assume "x div 10 \<noteq> 0"
  then have "x \<noteq> 0" by auto
  then have "0 < unat x" by (simp add: unat_eq_0 [symmetric] del: unat_eq_0)
  then show "(x div 10, x) \<in> measure unat" by (simp add: unat_div)
qed simp

declare dec_digits.simps [simp del]

definition append_uint64 :: "byte list \<Rightarrow> u64 \<Rightarrow> byte list" where
  "append_uint64 s x = s @ rev (dec_digits x)"

subsection \<open>Percent escapes\<close>

definition isunreserved :: "byte \<Rightarrow> bool" where
  "isunreserved c \<longleftrightarrow> 48 \<le> c \<and> c \<le> 57 \<or> 65 \<le> c \<and> c \<le> 90 \<or> 97 \<le> c \<and> c \<le> 122 \<or> c = 45 \<or> c = 46 \<or> c = 95 \<or> c = 126"

definition hex_digits :: "byte list" where
  "hex_digits = chars ''0123456789ABCDEF''"

definition escape_char :: "bool \<Rightarrow> byte \<Rightarrow> byte list" where
  "escape_char escape_slash c =
     (if isunreserved c then [c]
      else if \<not> escape_slash \<and> c = 47 then [c]
      else [37, hex_digits ! unat (drop_bit 4 c), hex_digits ! unat (c AND 15)])"

definition url_escape :: "bool \<Rightarrow> byte list \<Rightarrow> byte list" where
  "url_escape escape_slash url = concat (map (escape_char escape_slash) url)"

text \<open>The loop index is the rest of the string.\<close>

fun url_unescape :: "byte list \<Rightarrow> byte list" where
  "url_unescape [] = []"
| "url_unescape (c # cs) =
     (if c = 37 \<and> 2 \<le> length cs then ucast (hex_to_uint64 (take 2 cs)) # url_unescape (drop 2 cs)
      else if c = 43 then 32 # url_unescape cs
      else c # url_unescape cs)"

subsection \<open>Digits\<close>

lemma dec_digit:
  assumes "c = 48 + ucast (x mod 10 :: u64)"
  shows "unat (c - 48 :: byte) < 10" and "(ucast (c - 48) :: u64) = x mod 10"
proof -
  have m: "unat (x mod 10) < 10" by (simp add: unat_mod)
  have "c - 48 = ucast (x mod 10)" using assms by simp
  moreover have u: "unat (ucast (x mod 10) :: byte) = unat (x mod 10)"
    using m by (simp add: unsigned_ucast_eq take_bit_nat_eq_self_iff)
  ultimately show "unat (c - 48) < 10" using m by simp
  show "(ucast (c - 48) :: u64) = x mod 10"
    using \<open>c - 48 = ucast (x mod 10)\<close> u of_nat_unat [of "c - 48", where ?'a = "64 word"] by simp
qed

lemma to_uint64_digits:
  "to_uint64_loop 10 (\<lambda>c. c - 48) (rev (dec_digits x) @ rest) i 0 =
    to_uint64_loop 10 (\<lambda>c. c - 48) rest (i + length (dec_digits x)) x"
proof (induction x arbitrary: rest rule: dec_digits.induct)
  case (1 x)
  let ?c = "48 + ucast (x mod 10) :: byte"
  note d = dec_digit [OF refl, of x]
  have step: "to_uint64_loop 10 (\<lambda>c. c - 48) (?c # rest) j v = to_uint64_loop 10 (\<lambda>c. c - 48) rest (Suc j) (v * 10 + x mod 10)" for j v
    using d by (simp add: Let_def not_le)
  have x: "x div 10 * 10 + x mod 10 = x" by (rule div_mult_mod_eq)
  show ?case
  proof (cases "x div 10 = 0")
    case True
    then have "dec_digits x = [?c]" by (subst dec_digits.simps) simp
    then show ?thesis using step [of i 0] x True by simp
  next
    case False
    then have "dec_digits x = ?c # dec_digits (x div 10)" by (subst dec_digits.simps) simp
    then show ?thesis using 1 [OF False, of "?c # rest"] step [of "i + length (dec_digits (x div 10))" "x div 10"] x by simp
  qed
qed

lemma decimal_roundtrip: "to_uint64_check (append_uint64 [] x) = (length (dec_digits x), x)"
  using to_uint64_digits [of x "[]" 0] by (simp add: to_uint64_check_def append_uint64_def)

subsection \<open>Escapes\<close>

lemma unescape_escaped_char:
  assumes "\<not> isunreserved c"
  shows "ucast (hex_to_uint64 [hex_digits ! unat (drop_bit 4 c), hex_digits ! unat (c AND 15)]) = c"
  by (rule byte_cases [of "\<lambda>c. ucast (hex_to_uint64 [hex_digits ! unat (drop_bit 4 c), hex_digits ! unat (c AND 15)]) = c"]) code_simp

lemma unescape_char: "url_unescape (escape_char b c @ cs) = c # url_unescape cs"
proof -
  have plain: "url_unescape ([c] @ cs) = c # url_unescape cs" if "c \<noteq> 37" "c \<noteq> 43" using that by simp
  have coded: "url_unescape ([37, x, y] @ cs) = ucast (hex_to_uint64 [x, y]) # url_unescape cs" for x y
    by (simp add: take_Suc)
  consider "isunreserved c" | "\<not> isunreserved c" "\<not> b" "c = 47" | "\<not> isunreserved c" "b \<or> c \<noteq> 47" by blast
  then show ?thesis
  proof cases
    case 1
    then have "c \<noteq> 37" "c \<noteq> 43" by (auto simp: isunreserved_def)
    then show ?thesis using 1 plain by (simp add: escape_char_def)
  next
    case 2
    then show ?thesis using plain by (simp add: escape_char_def)
  next
    case 3
    then have "escape_char b c = [37, hex_digits ! unat (drop_bit 4 c), hex_digits ! unat (c AND 15)]"
      by (auto simp: escape_char_def)
    then show ?thesis using coded unescape_escaped_char [OF 3(1)] by simp
  qed
qed


end
