(* ===== verification/Url_Parse.thy ===== *)
theory Url_Parse
  imports Url
begin

text \<open>
  \<open>URL::from_string\<close> of src/net/http/url.cpp.  The parts are views with 16-bit offset and length into the
  string; their constructor asserts the range.  Positions in the string are \<open>size_t\<close>, so that adding
  to \<open>npos\<close> wraps around.  \<open>None\<close> is a failed assertion or a prefix longer than the string.
\<close>

subsection \<open>Views\<close>

type_synonym view = "nat \<times> nat"

definition mk_view :: "nat \<Rightarrow> nat \<Rightarrow> view option" where
  "mk_view off len = (if off \<le> 65535 \<and> len \<le> 65535 then Some (off, len) else None)"

text \<open>The view of a string, empty where it does not fit.\<close>

definition view_of :: "byte list \<Rightarrow> view \<Rightarrow> byte list" where
  "view_of s v = (if length s < fst v + snd v then [] else take (snd v) (drop (fst v) s))"

record url =
  u_host :: view
  u_host_port :: view
  u_path :: view
  u_query :: view
  u_target :: view
  u_port :: u16
  u_secure :: bool
  u_tmp :: "byte list option"

definition url_new :: url where
  "url_new = \<lparr>u_host = (0, 0), u_host_port = (0, 0), u_path = (0, 0), u_query = (0, 0), u_target = (0, 0),
     u_port = 0, u_secure = False, u_tmp = None\<rparr>"

definition url_host :: "byte list \<Rightarrow> url \<Rightarrow> byte list" where
  "url_host s u = view_of s (u_host u)"

definition url_query :: "byte list \<Rightarrow> url \<Rightarrow> byte list" where
  "url_query s u = view_of s (u_query u)"

definition url_path :: "byte list \<Rightarrow> url \<Rightarrow> byte list" where
  "url_path s u = (case u_tmp u of Some t \<Rightarrow> view_of t (u_path u) | None \<Rightarrow> view_of s (u_path u))"

definition url_target :: "byte list \<Rightarrow> url \<Rightarrow> byte list" where
  "url_target s u = (case u_tmp u of Some t \<Rightarrow> view_of t (u_target u) | None \<Rightarrow> view_of s (u_target u))"

definition need_optional_port :: "url \<Rightarrow> bool" where
  "need_optional_port u \<longleftrightarrow> (if u_secure u then u_port u \<noteq> 443 else u_port u \<noteq> 80)"

subsection \<open>The parser\<close>

fun find_sub :: "byte list \<Rightarrow> byte list \<Rightarrow> nat option" where
  "find_sub pat [] = (if pat = [] then Some 0 else None)"
| "find_sub pat (c # cs) =
     (if take (length pat) (c # cs) = pat then Some 0 else map_option Suc (find_sub pat cs))"

definition npos :: u64 where "npos = -1"

text \<open>The scheme before the separator; an unknown one is an error.\<close>

definition parse_scheme :: "byte list \<Rightarrow> nat option \<Rightarrow> url \<Rightarrow> url option" where
  "parse_scheme s p u =
     (case p of
        None \<Rightarrow> Some u
      | Some p \<Rightarrow>
          (if stricmp_fast (take p s) (chars ''http'') = 0 then Some u
           else if stricmp_fast (take p s) (chars ''https'') = 0 then Some (u\<lparr>u_port := 443, u_secure := True\<rparr>)
           else None))"

definition parse_target :: "nat \<Rightarrow> byte list \<Rightarrow> url \<Rightarrow> (bool \<times> url) option" where
  "parse_target off s u =
     (if s = [] then Some (True, u)
      else Option.bind (mk_view off (length s)) (\<lambda>v.
        (case find_first_of (\<lambda>c. c = 63) s of
           None \<Rightarrow> Some (True, u\<lparr>u_target := v, u_path := v\<rparr>)
         | Some p \<Rightarrow>
             Option.bind (mk_view off p) (\<lambda>w. Option.bind (mk_view (off + p + 1) (length s - (p + 1)))
               (\<lambda>q. Some (True, u\<lparr>u_target := v, u_path := w, u_query := q\<rparr>))))))"

definition parse_port :: "nat \<Rightarrow> byte list \<Rightarrow> url \<Rightarrow> (bool \<times> url) option" where
  "parse_port off s u =
     (let (port_len, port_val) = to_uint64_check s
      in if port_len = 0 \<or> port_val \<ge> 65536 then Some (False, u)
         else
           (let u1 = u\<lparr>u_port := ucast port_val\<rparr>;
                u2 = (if need_optional_port u1
                      then u1\<lparr>u_host_port := (fst (u_host_port u1), (snd (u_host_port u1) + 1 + port_len) mod 65536)\<rparr>
                      else u1)
            in parse_target (off + port_len) (drop port_len s) u2))"

definition parse_host :: "nat \<Rightarrow> byte list \<Rightarrow> url \<Rightarrow> (bool \<times> url) option" where
  "parse_host off s u =
     (case find_first_of (\<lambda>c. c = 58 \<or> c = 47 \<or> c = 63) s of
        None \<Rightarrow> Option.bind (mk_view off (length s)) (\<lambda>v. Some (True, u\<lparr>u_host := v, u_host_port := v\<rparr>))
      | Some p \<Rightarrow>
          Option.bind (mk_view off p) (\<lambda>v.
            (let u1 = u\<lparr>u_host := v, u_host_port := v\<rparr>; s1 = drop p s
             in if s1 = [] then Some (True, u1)
                else if hd s1 = 58 then parse_port (off + p + 1) (tl s1) u1
                else parse_target (off + p) s1 u1)))"

text \<open>On every return: a target that does not start with a slash is copied behind one.\<close>

definition fix_target :: "byte list \<Rightarrow> url \<Rightarrow> url option" where
  "fix_target s u =
     (let t = view_of s (u_target u)
      in if t = [] \<or> hd t \<noteq> 47 then
           Option.bind (mk_view 0 (length t + 1)) (\<lambda>v. Option.bind (mk_view 0 (snd (u_path u) + 1))
             (\<lambda>w. Some (u\<lparr>u_tmp := Some (47 # t), u_target := v, u_path := w\<rparr>)))
         else Some u)"

definition from_string :: "byte list \<Rightarrow> url \<Rightarrow> (bool \<times> url) option" where
  "from_string s u =
     (let u1 = u\<lparr>u_tmp := None, u_port := 80, u_secure := False\<rparr>;
          f = find_sub (chars ''://'') s;
          p = (case f of None \<Rightarrow> npos | Some i \<Rightarrow> of_nat i)
      in Option.bind
           (case parse_scheme s f u1 of
              None \<Rightarrow> Some (False, u1)
            | Some u2 \<Rightarrow>
                (let n = unat (p + 3)
                 in if n > length s then None
                    else parse_host n (takeWhile (\<lambda>c. c \<noteq> 35) (drop n s)) (u2\<lparr>u_path := (0, 0), u_query := (0, 0), u_target := (0, 0)\<rparr>)))
           (\<lambda>(ok, u3). map_option (\<lambda>u4. (ok, u4)) (fix_target s u3)))"

subsection \<open>Parsing the parts\<close>

lemma find_first_of_hit: "\<forall>c\<in>set xs. \<not> P c \<Longrightarrow> P c \<Longrightarrow> find_first_of P (xs @ c # ys) = Some (length xs)"
  by (simp add: find_first_of_def takeWhile_append)

lemma find_first_of_miss: "\<forall>c\<in>set xs. \<not> P c \<Longrightarrow> find_first_of P xs = None"
  by (simp add: find_first_of_def takeWhile_eq_all_conv [THEN iffD2])

lemma find_sub_at: "58 \<notin> set scheme \<Longrightarrow> find_sub (chars ''://'') (scheme @ chars ''://'' @ rest) = Some (length scheme)"
  by (induction scheme) (simp_all add: chars_def)

lemma find_sub_none: "58 \<notin> set s \<Longrightarrow> find_sub (chars ''://'') s = None"
  by (induction s) (auto simp: chars_def)

definition is_scheme :: "byte list \<Rightarrow> bool \<Rightarrow> bool" where
  "is_scheme scheme secure \<longleftrightarrow> map tolower_fast scheme = (if secure then chars ''https'' else chars ''http'')"

lemma is_scheme_no_colon: "is_scheme scheme secure \<Longrightarrow> 58 \<notin> set scheme"
proof -
  assume "is_scheme scheme secure"
  then have "map tolower_fast scheme = (if secure then chars ''https'' else chars ''http'')" by (simp only: is_scheme_def)
  from arg_cong [OF this, of set]
  have e: "tolower_fast ` set scheme = set (if secure then chars ''https'' else chars ''http'')" by (simp only: set_map)
  have n: "58 \<notin> set (if secure then chars ''https'' else chars ''http'')" by (simp add: chars_def)
  have "tolower_fast 58 = 58" by (simp add: tolower_fast_def)
  then have "58 \<in> set scheme \<Longrightarrow> 58 \<in> tolower_fast ` set scheme" by force
  then show ?thesis using n unfolding e by blast
qed

lemma is_scheme_length: "is_scheme scheme secure \<Longrightarrow> length scheme = (if secure then 5 else 4)"
  unfolding is_scheme_def by (drule arg_cong [of _ _ length]) (auto simp: chars_def)

lemma parse_scheme_ok:
  assumes "is_scheme scheme secure"
  shows "parse_scheme (scheme @ rest) (Some (length scheme)) u =
    Some (if secure then u\<lparr>u_port := 443, u_secure := True\<rparr> else u)"
proof -
  have low: "map tolower_fast (chars ''http'') = chars ''http''" "map tolower_fast (chars ''https'') = chars ''https''"
    by (simp_all add: chars_def tolower_fast_def)
  have "length scheme < 8" using is_scheme_length [OF assms] by simp
  then have cmp: "stricmp_fast scheme (chars ''http'') = 0 \<longleftrightarrow> \<not> secure" "secure \<Longrightarrow> stricmp_fast scheme (chars ''https'') = 0"
    using assms stricmp_short [of scheme "chars ''http''"] stricmp_short [of scheme "chars ''https''"] low
    by (auto simp: is_scheme_def) (auto simp: chars_def split: if_splits)
  then show ?thesis by (simp add: parse_scheme_def)
qed

lemma view_of_middle: "s = a @ b @ c \<Longrightarrow> off = length a \<Longrightarrow> len = length b \<Longrightarrow> view_of s (off, len) = b"
  by (simp add: view_of_def)

lemma takeWhile_none: "\<forall>c\<in>set s. P c \<Longrightarrow> takeWhile P s = s"
  by (simp add: takeWhile_eq_all_conv)

lemma parse_target_query:
  assumes "\<forall>c\<in>set path. c \<noteq> 63" "off + length path + length query + 2 \<le> 65535"
  shows "parse_target off (47 # path @ 63 # query) u =
    Some (True, u\<lparr>u_target := (off, length path + length query + 2), u_path := (off, length path + 1),
      u_query := (off + length path + 2, length query)\<rparr>)"
proof -
  have "find_first_of (\<lambda>c. c = 63) ((47 # path) @ 63 # query) = Some (length (47 # path))"
    by (rule find_first_of_hit) (use assms(1) in auto)
  then show ?thesis using assms(2) by (simp add: parse_target_def mk_view_def)
qed

lemma from_string_scheme:
  assumes sc: "is_scheme scheme secure" and len: "length s \<le> 65535" and s: "s = scheme @ chars ''://'' @ rest"
    and clean: "\<forall>c\<in>set rest. c \<noteq> 35"
  shows "from_string s url_new = Option.bind (parse_host (length scheme + 3) rest
      (url_new\<lparr>u_port := (if secure then 443 else 80), u_secure := secure\<rparr>))
      (\<lambda>(ok, u). map_option (\<lambda>u'. (ok, u')) (fix_target s u))"
proof -
  have f: "find_sub (chars ''://'') s = Some (length scheme)" unfolding s by (rule find_sub_at [OF is_scheme_no_colon [OF sc]])
  have p: "parse_scheme s (Some (length scheme)) u = Some (if secure then u\<lparr>u_port := 443, u_secure := True\<rparr> else u)" for u
    unfolding s by (rule parse_scheme_ok [OF sc])
  have n: "unat (of_nat (length scheme) + 3 :: u64) = length scheme + 3"
    using unat_of_nat_u64 [of "length scheme + 3"] is_scheme_length [OF sc] by simp
  have d: "drop (length scheme + 3) s = rest" "\<not> length scheme + 3 > length s" unfolding s by (simp_all add: chars_def)
  show ?thesis unfolding from_string_def Let_def f p option.case n d(1) if_not_P [OF d(2)] takeWhile_none [OF clean]
    by (cases secure) (simp_all add: url_new_def)
qed

subsection \<open>Properties\<close>

text \<open>
  C31: A URL with the scheme http or https in any case, a host, a path and a query is split into exactly these
  parts, with the default port of the scheme, as long as it fits the 16-bit views.
\<close>

theorem url_parts:
  assumes "is_scheme scheme secure" "\<forall>c\<in>set host. c \<notin> {58, 47, 63, 35}" "\<forall>c\<in>set path. c \<notin> {63, 35}"
    "\<forall>c\<in>set query. c \<noteq> 35" "s = scheme @ chars ''://'' @ host @ 47 # path @ 63 # query" "length s \<le> 65535"
  shows "\<exists>u. from_string s url_new = Some (True, u) \<and> url_host s u = host \<and> url_path s u = 47 # path \<and>
    url_query s u = query \<and> url_target s u = 47 # path @ 63 # query \<and> u_port u = (if secure then 443 else 80)"
proof -
  let ?rest = "host @ 47 # path @ 63 # query" and ?off = "length scheme + 3"
  let ?fresh = "url_new\<lparr>u_port := (if secure then 443 else 80), u_secure := secure\<rparr>"
  have len: "?off + length host + length path + length query + 2 \<le> 65535" using assms(5,6) by (simp add: chars_def)
  have h: "find_first_of (\<lambda>c. c = 58 \<or> c = 47 \<or> c = 63) ?rest = Some (length host)"
    by (rule find_first_of_hit) (use assms(2) in auto)
  let ?u = "?fresh\<lparr>u_host := (?off, length host), u_host_port := (?off, length host),
    u_target := (?off + length host, length path + length query + 2), u_path := (?off + length host, length path + 1),
    u_query := (?off + length host + length path + 2, length query)\<rparr>"
  have ph: "parse_host ?off ?rest ?fresh = Some (True, ?u)"
    using h len parse_target_query [of path "?off + length host" query] assms(3) by (simp add: parse_host_def mk_view_def)
  have v1: "view_of s (?off, length host) = host"
    by (rule view_of_middle [of _ "scheme @ chars ''://''" _ "47 # path @ 63 # query"]) (simp_all add: assms(5) chars_def)
  have v2: "view_of s (?off + length host, length path + 1) = 47 # path"
    by (rule view_of_middle [of _ "scheme @ chars ''://'' @ host" _ "63 # query"]) (simp_all add: assms(5) chars_def)
  have v3: "view_of s (?off + length host, length path + length query + 2) = 47 # path @ 63 # query"
    by (rule view_of_middle [of _ "scheme @ chars ''://'' @ host" _ "[]"]) (simp_all add: assms(5) chars_def)
  have v4: "view_of s (?off + length host + length path + 2, length query) = query"
    by (rule view_of_middle [of _ "scheme @ chars ''://'' @ host @ 47 # path @ [63]" _ "[]"]) (simp_all add: assms(5) chars_def)
  have "\<forall>c\<in>set ?rest. c \<noteq> 35" using assms(2,3,4) by auto
  note fs = from_string_scheme [OF assms(1,6,5) this, unfolded ph]
  have "fix_target s ?u = Some ?u" using v3 by (simp add: fix_target_def)
  then have "from_string s url_new = Some (True, ?u)" unfolding fs by simp
  then show ?thesis using v1 v2 v3 v4 by (auto simp: url_host_def url_path_def url_query_def url_target_def url_new_def)
qed

theorem url_parts_witness:
  "\<exists>u. from_string (chars ''HTTPS://a.b/x?q'') url_new = Some (True, u) \<and> url_host (chars ''HTTPS://a.b/x?q'') u = chars ''a.b'' \<and>
    u_port u = 443"
proof -
  have "is_scheme (chars ''HTTPS'') True" by (simp add: is_scheme_def chars_def tolower_fast_def)
  from url_parts [OF this, of "chars ''a.b''" "chars ''x''" "chars ''q''" "chars ''HTTPS://a.b/x?q''"]
  show ?thesis by (auto simp: chars_def)
qed

text \<open>
  C40: The scheme is optional in the format that \<open>from_string\<close> documents, but without one the position of the
  separator is \<open>npos\<close>, and skipping three characters from there wraps around to skip the first two
  characters of the host.
\<close>

theorem url_without_scheme_loses_two:
  assumes "\<forall>c\<in>set s. c \<notin> {58, 47, 63, 35}" "2 \<le> length s" "length s \<le> 65535"
  shows "\<exists>u. from_string s url_new = Some (True, u) \<and> url_host s u = drop 2 s \<and> url_path s u = [47]"
proof -
  have f: "find_sub (chars ''://'') s = None" by (rule find_sub_none) (use assms(1) in auto)
  have n: "unat (npos + 3) = 2" by (simp add: npos_def)
  have tw: "takeWhile (\<lambda>c. c \<noteq> 35) (drop 2 s) = drop 2 s" by (rule takeWhile_none) (use assms(1) in \<open>auto dest: in_set_dropD\<close>)
  have ff: "find_first_of (\<lambda>c. c = 58 \<or> c = 47 \<or> c = 63) (drop 2 s) = None"
    by (rule find_first_of_miss) (use assms(1) in \<open>auto dest: in_set_dropD\<close>)
  have ph: "parse_host 2 (drop 2 s) w = Some (True, w\<lparr>u_host := (2, length s - 2), u_host_port := (2, length s - 2)\<rparr>)" for w
    unfolding parse_host_def ff using assms(3) by (simp add: mk_view_def)
  let ?w = "url_new\<lparr>u_port := 80, u_host := (2, length s - 2), u_host_port := (2, length s - 2)\<rparr>"
  have "from_string s url_new = Some (True, ?w\<lparr>u_tmp := Some [47], u_target := (0, 1), u_path := (0, 1)\<rparr>)"
    unfolding from_string_def Let_def f option.case n tw using assms(2)
    by (simp add: parse_scheme_def ph fix_target_def view_of_def mk_view_def url_new_def)
  then show ?thesis using assms(2) by (simp add: url_host_def url_path_def view_of_def)
qed

theorem url_without_scheme_loses_two_witness:
  "\<exists>u. from_string (chars ''example.com'') url_new = Some (True, u) \<and> url_host (chars ''example.com'') u = chars ''ample.com''"
  using url_without_scheme_loses_two [of "chars ''example.com''"] by (auto simp: chars_def)

end
