(* ===== verification/Path.thy ===== *)
theory Path
  imports Url
begin

text \<open>
  Paths of src/fs/path.h and path.cpp: the iterator over the components, base and directory names, the
  check of the levels and the recursive creation of directories.  A path is the bytes of the view.
\<close>

subsection \<open>Components\<close>

text \<open>\<open>Path::iterator::set\<close>: the view of the next component and what follows it.\<close>

definition iter_set :: "byte list \<Rightarrow> byte list \<times> byte list" where
  "iter_set p =
     (if p = [] \<or> hd p = 0 then ([], [])
      else
        (let q = dropWhile (\<lambda>c. c \<noteq> 0 \<and> c = 47) p; v = takeWhile (\<lambda>c. c \<noteq> 0 \<and> c \<noteq> 47) q
         in (v, drop (length v) q)))"

lemma iter_set_shorter: "iter_set p = (v, rest) \<Longrightarrow> v \<noteq> [] \<Longrightarrow> length rest < length p"
proof -
  assume a: "iter_set p = (v, rest)" "v \<noteq> []"
  let ?q = "dropWhile (\<lambda>c. c \<noteq> 0 \<and> c = 47) p"
  have r: "rest = drop (length v) ?q" and v: "v = takeWhile (\<lambda>c. c \<noteq> 0 \<and> c \<noteq> 47) ?q"
    using a by (auto simp: iter_set_def Let_def split: if_splits)
  have "length ?q \<le> length p" by (rule length_dropWhile_le)
  moreover have "length v \<le> length ?q" unfolding v by (rule length_takeWhile_le)
  moreover have "0 < length v" using a(2) by simp
  moreover have "length rest = length ?q - length v" unfolding r by (rule length_drop)
  ultimately show ?thesis by linarith
qed

text \<open>The range loop over a path: it ends at the first empty view.\<close>

function components :: "byte list \<Rightarrow> byte list list" where
  "components p = (let (v, rest) = iter_set p in if v = [] then [] else v # components rest)"
  by auto
termination by (relation "measure length") (auto intro: iter_set_shorter [OF sym])

declare components.simps [simp del]

definition is_dots :: "byte list \<Rightarrow> nat" where
  "is_dots name =
     (if name ! 0 = 46 then (if length name = 1 then 1 else if length name = 2 \<and> name ! 1 = 46 then 2 else 0) else 0)"

subsection \<open>Levels\<close>

fun level_loop :: "int \<Rightarrow> byte list list \<Rightarrow> bool" where
  "level_loop level [] = True"
| "level_loop level (name # names) =
     (if length name > 0 \<and> name ! 0 = 46 then
        (if length name = 1 then level_loop level names
         else if length name = 2 then
           (if name ! 1 = 46 then (if level - 1 < 0 then False else level_loop (level - 1) names)
            else level_loop level names)
         else level_loop (level + 1) names)
      else level_loop level names)"

definition level_valid :: "byte list \<Rightarrow> bool" where
  "level_valid p = level_loop 0 (components p)"

subsection \<open>Names\<close>

text \<open>The position after the last slash at or before \<open>fin\<close>.\<close>

definition basename_range :: "byte list \<Rightarrow> (nat \<times> nat) option" where
  "basename_range p =
     (case find_last_not_of (\<lambda>c. c = 47) p of
        None \<Rightarrow> None
      | Some fin \<Rightarrow>
          (let start = (case find_last_of (\<lambda>c. c = 47) (take (fin + 1) p) of None \<Rightarrow> 0 | Some i \<Rightarrow> i + 1)
           in Some (start, fin - start + 1)))"

definition basename :: "byte list \<Rightarrow> byte list" where
  "basename p = (case basename_range p of None \<Rightarrow> [] | Some (start, n) \<Rightarrow> take n (drop start p))"

text \<open>
  \<open>dir_base_name\<close> subtracts the pointers of the two views; an empty base name has a null pointer, and the
  length of the directory is then arbitrary: \<open>None\<close>.
\<close>

definition dir_base_name :: "byte list \<Rightarrow> (byte list \<times> byte list) option" where
  "dir_base_name p =
     (case basename_range p of None \<Rightarrow> None | Some (start, n) \<Rightarrow> Some (take start p, take n (drop start p)))"

definition directory :: "byte list \<Rightarrow> byte list" where
  "directory p = (case find_last_of (\<lambda>c. c = 47) p of None \<Rightarrow> [] | Some pos \<Rightarrow> take pos p)"

subsection \<open>Creating directories\<close>

text \<open>
  \<open>mkdir_recursive\<close> on a file system whose \<open>mkdir\<close> returns an error number or none.  The buffer holds
  \<open>PATH_MAX\<close> bytes and its size is not checked: \<open>None\<close>.  17 is \<open>EEXIST\<close>.
\<close>

definition PATH_MAX :: nat where "PATH_MAX = 4096"

fun mkdir_loop :: "('s \<Rightarrow> byte list \<Rightarrow> nat option \<times> 's) \<Rightarrow> byte list \<Rightarrow> nat list \<Rightarrow> 's \<Rightarrow> int \<times> 's" where
  "mkdir_loop mk path [] s = (0, s)"
| "mkdir_loop mk path (i # is) s =
     (if path ! i = 47 then
        (case mk s (take i path) of
           (None, s') \<Rightarrow> mkdir_loop mk path is s'
         | (Some e, s') \<Rightarrow> (if e \<noteq> 17 then (-1, s') else mkdir_loop mk path is s'))
      else mkdir_loop mk path is s)"

definition mkdir_recursive :: "('s \<Rightarrow> byte list \<Rightarrow> nat option \<times> 's) \<Rightarrow> byte list \<Rightarrow> 's \<Rightarrow> (int \<times> 's) option" where
  "mkdir_recursive mk pathname s =
     (if pathname = [] then Some (0, s)
      else
        (let path = (if hd pathname \<noteq> 47 then 47 # pathname else pathname)
         in if length path + 1 > PATH_MAX then None
            else Some (mkdir_loop mk path [1..<length path] s)))"

subsection \<open>Levels of a path\<close>

text \<open>Walking the components from a directory: the depth below it after each of them.\<close>

fun depth_change :: "byte list \<Rightarrow> int" where
  "depth_change name = (if name = [46] then 0 else if name = [46, 46] then -1 else 1)"

fun stays_inside :: "int \<Rightarrow> byte list list \<Rightarrow> bool" where
  "stays_inside d [] = True"
| "stays_inside d (name # names) \<longleftrightarrow> 0 \<le> d + depth_change name \<and> stays_inside (d + depth_change name) names"

lemma level_loop_sound: "level_loop lv names \<Longrightarrow> lv \<le> d \<Longrightarrow> 0 \<le> lv \<Longrightarrow> stays_inside d names"
proof (induction names arbitrary: lv d)
  case (Cons name names)
  consider "name = [46]" | "name = [46, 46]" | "name \<noteq> [46]" "name \<noteq> [46, 46]" by blast
  then show ?case
  proof cases
    case 1
    then show ?thesis using Cons by simp
  next
    case 2
    then have "0 \<le> lv - 1" "level_loop (lv - 1) names" using Cons.prems by (auto split: if_splits)
    then have "stays_inside (d - 1) names" using Cons.IH [of "lv - 1" "d - 1"] Cons.prems by simp
    then show ?thesis using 2 \<open>0 \<le> lv - 1\<close> Cons.prems by simp
  next
    case 3
    have "level_loop lv names \<or> level_loop (lv + 1) names"
    proof (cases "length name = 2 \<and> name ! 0 = 46 \<and> name ! 1 = 46")
      case True
      then have "name = [46, 46]" by (cases name; cases "tl name") auto
      then show ?thesis using 3 by simp
    next
      case False
      then show ?thesis using Cons.prems(1) by (auto split: if_splits)
    qed
    then have "stays_inside (d + 1) names" using Cons.IH [of lv "d + 1"] Cons.IH [of "lv + 1" "d + 1"] Cons.prems by auto
    then show ?thesis using 3 Cons.prems by simp
  qed
qed simp

text \<open>
  C34: A path that \<open>level_valid\<close> accepts never climbs above the directory it starts in, at no component.  The
  converse does not hold: only components that begin with a dot and have three or more characters
  are counted as a level down, so that a harmless path such as \<open>a/..\<close> is rejected.
\<close>

theorem level_valid_safe:
  "(level_valid p \<longrightarrow> stays_inside 0 (components p)) \<and>
    \<not> level_valid (chars ''a/..'') \<and> stays_inside 0 (components (chars ''a/..''))"
proof -
  have "components (chars ''a/..'') = [chars ''a'', chars ''..'']"
    by (simp add: components.simps iter_set_def chars_def)
  then show ?thesis using level_loop_sound [of 0 "components p" 0] by (simp add: level_valid_def chars_def)
qed

theorem level_valid_safe_witness:
  "components (chars ''/...x/../.'') = [chars ''...x'', chars ''..'', chars ''.''] \<and> stays_inside 0 (components (chars ''/...x/../.''))"
proof -
  have c: "components (chars ''/...x/../.'') = [chars ''...x'', chars ''..'', chars ''.'']"
    by (simp add: components.simps iter_set_def chars_def)
  then have "level_valid (chars ''/...x/../.'')" by (simp add: level_valid_def chars_def)
  then have "stays_inside 0 (components (chars ''/...x/../.''))" using level_valid_safe by blast
  then show ?thesis using c by blast
qed

end
