(* ===== verification/Path_Tree.thy ===== *)
theory Path_Tree
  imports Path
begin

text \<open>
  The in-memory directory tree \<open>Tree::Node\<close> of src/fs/path.h and path.cpp.  A node is the list of its
  entries (the order stands for the one of the hash map, which no operation observes); a value is a
  pointer of the user or a sub-directory, told apart by the top bit of the pointer.  A user pointer
  that has this bit is taken for a node: following or deleting it is \<open>Wild\<close>, as is the arbitrary
  directory name of a path without a base name.
\<close>

subsection \<open>Nodes\<close>

datatype tvalue = File u64 | Dir "(byte list \<times> tvalue) list"

type_synonym node = "(byte list \<times> tvalue) list"

text \<open>
  What an operation returns: 0, -1 and -2 with the error number, undefined behaviour, the value that
  \<open>read\<close> stores, the kind that \<open>stat\<close> returns, the node of \<open>chdir\<close>.
\<close>

datatype tree_ret = Done | Err nat | Err2 nat | Wild | Found u64 | Stat nat | Reached node

abbreviation "ENOENT \<equiv> 2 :: nat"
abbreviation "EEXIST \<equiv> 17 :: nat"
abbreviation "ENOTDIR \<equiv> 20 :: nat"
abbreviation "EISDIR \<equiv> 21 :: nat"
abbreviation "EINVAL \<equiv> 22 :: nat"
abbreviation "ENOTEMPTY \<equiv> 39 :: nat"

fun is_node :: "tvalue \<Rightarrow> bool" where
  "is_node (Dir _) \<longleftrightarrow> True"
| "is_node (File v) \<longleftrightarrow> bit v 63"

definition set_entry :: "byte list \<Rightarrow> tvalue \<Rightarrow> node \<Rightarrow> node" where
  "set_entry name v es = map (\<lambda>(k, w). (k, if k = name then v else w)) es"

definition erase_entry :: "byte list \<Rightarrow> node \<Rightarrow> node" where
  "erase_entry name es = filter (\<lambda>(k, _). k \<noteq> name) es"

text \<open>
  \<open>seek2node\<close> followed by the work of a caller on the node that it reaches; the nodes that it creates stay
  in the tree also when a later component is an error.
\<close>

fun at_node :: "byte list list \<Rightarrow> bool \<Rightarrow> (node \<Rightarrow> tree_ret \<times> node) \<Rightarrow> node \<Rightarrow> tree_ret \<times> node" where
  "at_node [] create_path f es = f es"
| "at_node (p # ps) create_path f es =
     (if is_dots p \<noteq> 0 then (Err EINVAL, es)
      else case map_of es p of
          None \<Rightarrow>
            (if \<not> create_path then (Err ENOENT, es)
             else (let (r, sub) = at_node ps create_path f [] in (r, es @ [(p, Dir sub)])))
        | Some (File v) \<Rightarrow> (if bit v 63 then (Wild, es) else (Err EEXIST, es))
        | Some (Dir sub) \<Rightarrow> (let (r, sub') = at_node ps create_path f sub in (r, set_entry p (Dir sub') es)))"

text \<open>\<open>SEEK2NODE\<close> and \<open>SEEK2ENT\<close>: the node of the directory part, and there the entry of the base name.\<close>

definition seek2node :: "byte list \<Rightarrow> bool \<Rightarrow> (byte list \<Rightarrow> node \<Rightarrow> tree_ret \<times> node) \<Rightarrow> node \<Rightarrow> tree_ret \<times> node" where
  "seek2node path create_path f es =
     (case dir_base_name path of None \<Rightarrow> (Wild, es) | Some (dir, fn) \<Rightarrow> at_node (components dir) create_path (f fn) es)"

definition seek2ent :: "byte list \<Rightarrow> (byte list \<Rightarrow> tvalue \<Rightarrow> node \<Rightarrow> tree_ret \<times> node) \<Rightarrow> node \<Rightarrow> tree_ret \<times> node" where
  "seek2ent path f es =
     seek2node path False (\<lambda>fn n. case map_of n fn of None \<Rightarrow> (Err ENOENT, n) | Some v \<Rightarrow> f fn v n) es"

subsection \<open>Operations\<close>

definition no_file_path :: "byte list \<Rightarrow> bool" where
  "no_file_path path \<longleftrightarrow> path = [] \<or> last path = 47"

definition creat_entry :: "u64 \<Rightarrow> byte list \<Rightarrow> node \<Rightarrow> tree_ret \<times> node" where
  "creat_entry v fn n = 
     (if map_of n fn \<noteq> None then (if bit v 63 then (Wild, n) else (Err EEXIST, n))
      else (Done, n @ [(fn, File v)]))"

definition tree_creat :: "byte list \<Rightarrow> u64 \<Rightarrow> bool \<Rightarrow> node \<Rightarrow> tree_ret \<times> node" where
  "tree_creat path v create_path es =
     (if no_file_path path then (Err EINVAL, es) else seek2node path create_path (creat_entry v) es)"

definition tree_read :: "byte list \<Rightarrow> node \<Rightarrow> tree_ret \<times> node" where
  "tree_read path es =
     (if no_file_path path then (Err EINVAL, es)
      else seek2ent path (\<lambda>fn w n. if is_node w then (Err EISDIR, n) else (case w of File v \<Rightarrow> (Found v, n) | Dir _ \<Rightarrow> (Err EISDIR, n))) es)"

definition tree_write :: "byte list \<Rightarrow> u64 \<Rightarrow> node \<Rightarrow> tree_ret \<times> node" where
  "tree_write path v es =
     (if no_file_path path then (Err EINVAL, es)
      else seek2ent path (\<lambda>fn w n. if is_node w then (Err EISDIR, n) else (Done, set_entry fn (File v) n)) es)"

definition tree_unlink :: "byte list \<Rightarrow> node \<Rightarrow> tree_ret \<times> node" where
  "tree_unlink path es =
     (if no_file_path path then (Err EINVAL, es)
      else seek2ent path (\<lambda>fn w n. if is_node w then (Err EISDIR, n) else (Done, erase_entry fn n)) es)"

definition mkdir_entry :: "byte list \<Rightarrow> node \<Rightarrow> tree_ret \<times> node" where
  "mkdir_entry fn n = (if map_of n fn \<noteq> None then (Err EEXIST, n) else (Done, n @ [(fn, Dir [])]))"

definition tree_mkdir :: "byte list \<Rightarrow> bool \<Rightarrow> node \<Rightarrow> tree_ret \<times> node" where
  "tree_mkdir path create_path es = (if path = [] then (Err EINVAL, es) else seek2node path create_path mkdir_entry es)"

definition tree_rmdir :: "byte list \<Rightarrow> node \<Rightarrow> tree_ret \<times> node" where
  "tree_rmdir path es =
     (if path = [] then (Err EINVAL, es)
      else seek2ent path (\<lambda>fn w n.
        if \<not> is_node w then (Err ENOTDIR, n)
        else (case w of File _ \<Rightarrow> (Wild, n) | Dir sub \<Rightarrow> (if sub \<noteq> [] then (Err ENOTEMPTY, n) else (Done, erase_entry fn n)))) es)"

definition tree_stat :: "byte list \<Rightarrow> node \<Rightarrow> tree_ret \<times> node" where
  "tree_stat path es =
     (if path = [] then (Err2 EINVAL, es) else seek2ent path (\<lambda>fn w n. (Stat (if is_node w then 2 else 1), n)) es)"

definition tree_chdir :: "byte list \<Rightarrow> node \<Rightarrow> tree_ret \<times> node" where
  "tree_chdir path es =
     (if path = [] then (Err EINVAL, es) else at_node (components path) False (\<lambda>n. (Reached n, n)) es)"

datatype tree_op =
    Creat "byte list" u64 bool | Read "byte list" | Write "byte list" u64 | Unlink "byte list"
  | Mkdir "byte list" bool | Rmdir "byte list" | StatOf "byte list" | Chdir "byte list"

fun run_op :: "tree_op \<Rightarrow> node \<Rightarrow> tree_ret \<times> node" where
  "run_op (Creat path v c) = tree_creat path v c"
| "run_op (Read path) = tree_read path"
| "run_op (Write path v) = tree_write path v"
| "run_op (Unlink path) = tree_unlink path"
| "run_op (Mkdir path c) = tree_mkdir path c"
| "run_op (Rmdir path) = tree_rmdir path"
| "run_op (StatOf path) = tree_stat path"
| "run_op (Chdir path) = tree_chdir path"

text \<open>The operations that may create the directories on the way.\<close>

fun creates_path :: "tree_op \<Rightarrow> bool" where
  "creates_path (Creat _ _ c) = c"
| "creates_path (Mkdir _ c) = c"
| "creates_path _ = False"

subsection \<open>Reaching a node\<close>

lemma set_entry_same: "map_of es p = Some v \<Longrightarrow> distinct (map fst es) \<Longrightarrow> set_entry p v es = es"
proof (induction es)
  case (Cons e es)
  then show ?case
  proof (cases "fst e = p")
    case True
    then have "p \<notin> fst ` set es" "snd e = v" using Cons.prems by (auto split: if_splits)
    moreover have "set_entry p v es = es" using calculation(1) by (force simp: set_entry_def intro: map_idI)
    ultimately show ?thesis using True by (cases e) (simp add: set_entry_def)
  qed (cases e, auto simp: set_entry_def)
qed (simp add: set_entry_def)

lemma set_entry_twice: "set_entry p v (set_entry p w es) = set_entry p v es"
  by (induction es) (auto simp: set_entry_def)

lemma map_of_set_entry: "map_of (set_entry p v es) q = (if q = p \<and> map_of es p \<noteq> None then Some v else map_of es q)"
  by (induction es) (auto simp: set_entry_def)

lemma set_entry_append: "map_of es p = None \<Longrightarrow> set_entry p v (es @ [(p, w)]) = es @ [(p, v)]"
  by (induction es) (auto simp: set_entry_def split: if_splits)

text \<open>
  The walk either fails whatever the work is, or reaches a node and puts the result of the work in its
  place, where a later walk finds it.
\<close>

lemma at_node_form:
  "(\<exists>e es'. e \<noteq> Done \<and> (\<forall>f. at_node ps c f es = (e, es'))) \<or>
   (\<exists>n ctx. (\<forall>f. at_node ps c f es = (fst (f n), ctx (snd (f n)))) \<and>
      (\<forall>n' f. at_node ps False f (ctx n') = (fst (f n'), ctx (snd (f n')))))"
proof (induction ps arbitrary: es)
  case Nil
  show ?case by (rule disjI2, rule exI [of _ es], rule exI [of _ "\<lambda>n. n"]) simp
next
  case (Cons p ps)
  show ?case
  proof (cases "is_dots p = 0")
    case False
    then show ?thesis by (intro disjI1 exI [of _ "Err EINVAL"] exI [of _ es]) simp
  next
    case True
    have lift: ?thesis
      if walk: "\<And>f. at_node (p # ps) c f es = (fst (at_node ps c f sub), put (snd (at_node ps c f sub)))"
        and again: "\<And>sub' f. at_node (p # ps) False f (put sub') = (fst (at_node ps False f sub'), put (snd (at_node ps False f sub')))"
      for sub put
      using Cons [of sub]
    proof (elim disjE exE conjE)
      fix e es' assume "e \<noteq> Done" "\<forall>f. at_node ps c f sub = (e, es')"
      then show ?thesis using walk by (intro disjI1 exI [of _ e] exI [of _ "put es'"]) simp
    next
      fix n ctx
      assume "\<forall>f. at_node ps c f sub = (fst (f n), ctx (snd (f n)))"
        "\<forall>n' f. at_node ps False f (ctx n') = (fst (f n'), ctx (snd (f n')))"
      then show ?thesis using walk again by (intro disjI2 exI [of _ n] exI [of _ "\<lambda>x. put (ctx x)"]) simp
    qed
    show ?thesis
    proof (cases "map_of es p")
      case None
      show ?thesis
      proof (cases c)
        case c: True
        show ?thesis
        proof (rule lift [of "[]" "\<lambda>sub. es @ [(p, Dir sub)]"])
          show "at_node (p # ps) c f es = (fst (at_node ps c f []), es @ [(p, Dir (snd (at_node ps c f [])))])" for f
            using True None c by (simp add: split_beta)
          show "at_node (p # ps) False f (es @ [(p, Dir sub')]) =
              (fst (at_node ps False f sub'), es @ [(p, Dir (snd (at_node ps False f sub')))])" for sub' f
            using True None by (simp add: map_add_def split_beta set_entry_append)
        qed
      next
        case False
        then show ?thesis using True None by (intro disjI1 exI [of _ "Err ENOENT"] exI [of _ es]) simp
      qed
    next
      case (Some w)
      show ?thesis
      proof (cases w)
        case (File v)
        then show ?thesis using True Some
          by (intro disjI1 exI [of _ "if bit v 63 then Wild else Err EEXIST"] exI [of _ es]) simp
      next
        case (Dir sub)
        show ?thesis
        proof (rule lift [of sub "\<lambda>sub'. set_entry p (Dir sub') es"])
          show "at_node (p # ps) c f es = (fst (at_node ps c f sub), set_entry p (Dir (snd (at_node ps c f sub))) es)" for f
            using True Some Dir by (simp add: split_beta)
          show "at_node (p # ps) False f (set_entry p (Dir sub') es) =
              (fst (at_node ps False f sub'), set_entry p (Dir (snd (at_node ps False f sub'))) es)" for sub' f
            using True Some by (simp add: map_of_set_entry split_beta set_entry_twice)
        qed
      qed
    qed
  qed
qed


lemma seek2node_then:
  assumes "seek2node path c f es = (Done, es')"
  obtains n fn ctx where "fst (f fn n) = Done" "es' = ctx (snd (f fn n))"
    "\<And>n' g. seek2node path False g (ctx n') = (fst (g fn n'), ctx (snd (g fn n')))"
proof -
  obtain dir fn where d: "dir_base_name path = Some (dir, fn)" "at_node (components dir) c (f fn) es = (Done, es')"
    using assms by (auto simp: seek2node_def split: option.splits)
  from at_node_form [of "components dir" c es] show ?thesis
  proof (elim disjE exE conjE)
    fix e es'' assume "e \<noteq> Done" "\<forall>f. at_node (components dir) c f es = (e, es'')"
    then show ?thesis using d(2) by simp
  next
    fix n ctx
    assume a: "\<forall>f. at_node (components dir) c f es = (fst (f n), ctx (snd (f n)))"
      "\<forall>n' f. at_node (components dir) False f (ctx n') = (fst (f n'), ctx (snd (f n')))"
    have "fst (f fn n) = Done" "es' = ctx (snd (f fn n))" using d(2) spec [OF a(1), of "f fn"] by simp_all
    moreover have "seek2node path False g (ctx n') = (fst (g fn n'), ctx (snd (g fn n')))" for n' g
      using a(2) d(1) by (simp add: seek2node_def)
    ultimately show ?thesis by (rule that)
  qed
qed

lemma map_of_erase_entry: "map_of (erase_entry p es) p = None"
  by (induction es) (auto simp: erase_entry_def)

text \<open>
  C33: What \<open>creat\<close> has stored under a path \<open>read\<close> returns, and \<open>write\<close> replaces; a directory of \<open>mkdir\<close> has the
  kind 2 and \<open>rmdir\<close> removes it; after \<open>unlink\<close> and \<open>rmdir\<close> the path is unknown.  The stored pointers must
  not have the top bit, which marks a node.
\<close>

theorem tree_roundtrip:
  assumes "\<not> bit v 63" and "\<not> bit v' 63"
  shows "(tree_creat path v c es = (Done, es1) \<longrightarrow>
      tree_read path es1 = (Found v, es1) \<and> tree_stat path es1 = (Stat 1, es1) \<and>
      (\<exists>es2. tree_write path v' es1 = (Done, es2) \<and> tree_read path es2 = (Found v', es2)) \<and>
      (\<exists>es3. tree_unlink path es1 = (Done, es3) \<and> tree_read path es3 = (Err ENOENT, es3))) \<and>
    (tree_mkdir path c es = (Done, es1) \<longrightarrow>
      tree_stat path es1 = (Stat 2, es1) \<and>
      (\<exists>es3. tree_rmdir path es1 = (Done, es3) \<and> tree_stat path es3 = (Err ENOENT, es3)))"
proof (intro conjI impI)
  assume a: "tree_creat path v c es = (Done, es1)"
  then have p: "\<not> no_file_path path" "path \<noteq> []" and s: "seek2node path c (creat_entry v) es = (Done, es1)"
    by (auto simp: tree_creat_def no_file_path_def split: if_splits)
  from s obtain n fn ctx where n: "fst (creat_entry v fn n) = Done" "es1 = ctx (snd (creat_entry v fn n))"
    and again: "\<And>n' g. seek2node path False g (ctx n') = (fst (g fn n'), ctx (snd (g fn n')))"
    by (rule seek2node_then) (rule that)
  have new: "map_of n fn = None" "es1 = ctx (n @ [(fn, File v)])"
    using n by (auto simp: creat_entry_def split: if_splits)
  note ops = tree_read_def tree_write_def tree_unlink_def tree_stat_def seek2ent_def again new p assms map_add_def
    set_entry_append map_of_erase_entry
  show "tree_read path es1 = (Found v, es1)" "tree_stat path es1 = (Stat 1, es1)" by (simp_all add: ops)
  show "\<exists>es2. tree_write path v' es1 = (Done, es2) \<and> tree_read path es2 = (Found v', es2)"
    "\<exists>es3. tree_unlink path es1 = (Done, es3) \<and> tree_read path es3 = (Err ENOENT, es3)"
    by (simp_all add: ops)
next
  assume a: "tree_mkdir path c es = (Done, es1)"
  then have p: "path \<noteq> []" and s: "seek2node path c mkdir_entry es = (Done, es1)"
    by (auto simp: tree_mkdir_def split: if_splits)
  from s obtain n fn ctx where n: "fst (mkdir_entry fn n) = Done" "es1 = ctx (snd (mkdir_entry fn n))"
    and again: "\<And>n' g. seek2node path False g (ctx n') = (fst (g fn n'), ctx (snd (g fn n')))"
    by (rule seek2node_then) (rule that)
  have new: "map_of n fn = None" "es1 = ctx (n @ [(fn, Dir [])])"
    using n by (auto simp: mkdir_entry_def split: if_splits)
  note ops = tree_rmdir_def tree_stat_def seek2ent_def again new p map_add_def map_of_erase_entry
  show "tree_stat path es1 = (Stat 2, es1)" by (simp add: ops)
  show "\<exists>es3. tree_rmdir path es1 = (Done, es3) \<and> tree_stat path es3 = (Err ENOENT, es3)" by (simp add: ops)
qed

subsection \<open>Well-formed trees\<close>

text \<open>No directory of the tree has two entries of one name, as the keys of the hash map.\<close>

fun wf_value :: "tvalue \<Rightarrow> bool" where
  "wf_value (File v) = True"
| "wf_value (Dir es) \<longleftrightarrow> distinct (map fst es) \<and> (\<forall>e \<in> set es. wf_value (snd e))"

abbreviation "wf_node es \<equiv> wf_value (Dir es)"

lemma wf_set_entry: "wf_node es \<Longrightarrow> wf_value v \<Longrightarrow> wf_node (set_entry p v es)"
  by (auto simp: set_entry_def o_def split_beta)

lemma wf_append: "wf_node es \<Longrightarrow> wf_value v \<Longrightarrow> map_of es p = None \<Longrightarrow> wf_node (es @ [(p, v)])"
  by (auto simp: map_of_eq_None_iff)

lemma wf_erase_entry: "wf_node es \<Longrightarrow> wf_node (erase_entry p es)"
  by (auto simp: erase_entry_def distinct_map_filter)

lemma wf_sub: "wf_node es \<Longrightarrow> map_of es p = Some v \<Longrightarrow> wf_value v"
  by (auto dest!: map_of_SomeD)

text \<open>The work on a node is fair when it keeps well-formedness and changes nothing unless it succeeds.\<close>

definition fair :: "(node \<Rightarrow> tree_ret \<times> node) \<Rightarrow> bool" where
  "fair f \<longleftrightarrow> (\<forall>n. wf_node n \<longrightarrow> wf_node (snd (f n)) \<and> (fst (f n) \<noteq> Done \<longrightarrow> snd (f n) = n))"

lemma at_node_fair:
  assumes "fair f"
  shows "wf_node es \<Longrightarrow> wf_node (snd (at_node ps c f es)) \<and>
    (\<not> c \<longrightarrow> fst (at_node ps c f es) \<noteq> Done \<longrightarrow> snd (at_node ps c f es) = es)"
proof (induction ps arbitrary: es)
  case Nil
  then show ?case using assms unfolding fair_def at_node.simps by blast
next
  case (Cons p ps)
  show ?case
  proof (cases "map_of es p")
    case None
    show ?thesis
      using Cons.IH [of "[]"] wf_append [of es "Dir (snd (at_node ps c f []))" p] Cons.prems None
      by (cases c) (simp_all add: split_beta)
  next
    case (Some w)
    show ?thesis
    proof (cases w)
      case (Dir sub)
      then have "wf_node sub" using wf_sub [OF Cons.prems Some] by simp
      note sub = Cons.IH [OF this]
      have "wf_node (set_entry p (Dir (snd (at_node ps c f sub))) es)" using sub wf_set_entry [OF Cons.prems] by blast
      moreover have "set_entry p (Dir sub) es = es" using set_entry_same Some Dir Cons.prems by simp
      ultimately show ?thesis using sub Some Dir Cons.prems by (simp add: split_beta)
    qed (use Cons.prems Some in simp)
  qed
qed

lemma seek2node_fair:
  assumes "\<And>fn. fair (f fn)"
  shows "wf_node es \<Longrightarrow> wf_node (snd (seek2node path c f es)) \<and>
    (\<not> c \<longrightarrow> fst (seek2node path c f es) \<noteq> Done \<longrightarrow> snd (seek2node path c f es) = es)"
  using at_node_fair [OF assms] unfolding seek2node_def by (simp split: option.splits prod.splits)


lemma seek2ent_fair:
  assumes "\<And>fn w n. wf_node n \<Longrightarrow> wf_node (snd (f fn w n)) \<and> (fst (f fn w n) \<noteq> Done \<longrightarrow> snd (f fn w n) = n)"
  shows "wf_node es \<Longrightarrow> wf_node (snd (seek2ent path f es)) \<and>
    (fst (seek2ent path f es) \<noteq> Done \<longrightarrow> snd (seek2ent path f es) = es)"
proof -
  assume "wf_node es"
  moreover have "fair (\<lambda>n. case map_of n fn of None \<Rightarrow> (Err ENOENT, n) | Some v \<Rightarrow> f fn v n)" for fn
    unfolding fair_def using assms by (simp del: wf_value.simps split: option.splits)
  ultimately show ?thesis unfolding seek2ent_def by (metis (no_types, lifting) seek2node_fair)
qed

lemma guarded_fair:
  assumes "wf_node es"
    and "\<And>fn w n. wf_node n \<Longrightarrow> wf_node (snd (f fn w n)) \<and> (fst (f fn w n) \<noteq> Done \<longrightarrow> snd (f fn w n) = n)"
  shows "wf_node (snd (if b then (e, es) else seek2ent path f es)) \<and>
    (fst (if b then (e, es) else seek2ent path f es) \<noteq> Done \<longrightarrow> snd (if b then (e, es) else seek2ent path f es) = es)"
  using seek2ent_fair [of f, OF assms(2) assms(1)] assms(1) by (cases b) (simp_all del: wf_value.simps)

lemmas work_simps = wf_set_entry wf_erase_entry is_node.simps

lemma tree_entry_ops_fair:
  assumes "wf_node es"
    and "op = Read path \<or> op = Write path v \<or> op = Unlink path \<or> op = Rmdir path \<or> op = StatOf path"
  shows "wf_node (snd (run_op op es)) \<and> (fst (run_op op es) \<noteq> Done \<longrightarrow> snd (run_op op es) = es)"
  using assms(2)
proof (elim disjE)
  assume *: "op = Read path"
  show ?thesis unfolding * run_op.simps tree_read_def
    by (rule guarded_fair [OF assms(1)]) (simp del: wf_value.simps add: work_simps split: tvalue.splits)
next
  assume *: "op = Write path v"
  show ?thesis unfolding * run_op.simps tree_write_def
    by (rule guarded_fair [OF assms(1)]) (simp del: wf_value.simps(2) add: work_simps split: tvalue.splits)
next
  assume *: "op = Unlink path"
  show ?thesis unfolding * run_op.simps tree_unlink_def
    by (rule guarded_fair [OF assms(1)]) (simp del: wf_value.simps add: work_simps split: tvalue.splits)
next
  assume *: "op = Rmdir path"
  show ?thesis unfolding * run_op.simps tree_rmdir_def
    by (rule guarded_fair [OF assms(1)]) (simp del: wf_value.simps add: work_simps split: tvalue.splits)
next
  assume *: "op = StatOf path"
  show ?thesis unfolding * run_op.simps tree_stat_def
    by (rule guarded_fair [OF assms(1)]) (simp del: wf_value.simps)
qed

lemma entry_work_fair: "fair (creat_entry v fn)" "fair (mkdir_entry fn)"
  by (auto simp: fair_def creat_entry_def mkdir_entry_def map_of_eq_None_iff)


lemma tree_example:
  "tree_creat (chars ''a/b'') 8 True [] = (Done, [(chars ''a'', Dir [(chars ''b'', File 8)])])"
  "tree_mkdir (chars ''a'') False [] = (Done, [(chars ''a'', Dir [])])"
  "tree_creat (chars ''a/../b'') 8 True [] = (Err EINVAL, [(chars ''a'', Dir [])])"
  by code_simp+

theorem tree_roundtrip_witness:
  "tree_creat (chars ''a/b'') 8 True [] = (Done, [(chars ''a'', Dir [(chars ''b'', File 8)])]) \<and>
   tree_read (chars ''a/b'') [(chars ''a'', Dir [(chars ''b'', File 8)])] =
     (Found 8, [(chars ''a'', Dir [(chars ''b'', File 8)])])"
proof -
  have b: "\<not> bit (8 :: u64) 63" by code_simp
  show ?thesis using tree_roundtrip [OF b b, of "chars ''a/b''" True "[]"] tree_example(1) by blast
qed


end
