(* ===== verification/Aligned_File.thy ===== *)
theory Aligned_File
  imports Range_Split
begin

text \<open>
  The file adaptor of src/fs/aligned-file.cpp, which serves reads and writes of any offset and length by
  aligned reads and writes of an underlying file.  The underlying file (interface \<open>IFile\<close>) and the
  allocator are parameters.  A read yields the bytes read, or nothing when it returns -1; the contents
  of a fresh allocation are arbitrary.  \<open>None\<close> is a failed assertion or a write past the allocation.
\<close>

subsection \<open>Definitions\<close>

record 's ifile =
  f_pread :: "'s \<Rightarrow> u64 \<Rightarrow> u64 \<Rightarrow> byte list option"
  f_pwrite :: "'s \<Rightarrow> byte list \<Rightarrow> u64 \<Rightarrow> u64 \<times> 's"
  f_size :: "'s \<Rightarrow> u64"
  f_ftruncate :: "'s \<Rightarrow> u64 \<Rightarrow> 's"

record aligned_file =
  m_alignment :: u64
  m_align_memory :: bool
  m_allocator :: "int \<Rightarrow> byte list option"

text \<open>\<open>mem_alloc\<close> passes the size on as an \<open>int\<close>.\<close>

definition mem_alloc :: "aligned_file \<Rightarrow> u64 \<Rightarrow> byte list option" where
  "mem_alloc f sz = m_allocator f (sint (ucast sz :: u32))"

definition patch :: "byte list \<Rightarrow> nat \<Rightarrow> byte list \<Rightarrow> byte list" where
  "patch m i bs = take i m @ bs @ drop (i + length bs) m"

definition direct_io :: "aligned_file \<Rightarrow> basic_range_split \<Rightarrow> u64 \<Rightarrow> bool" where
  "direct_io f rs buf \<longleftrightarrow>
     is_aligned rs \<and> (\<not> m_align_memory f \<or> is_aligned_at (power2_ops (m_alignment f)) buf)"

text \<open>The result of \<open>pread\<close>: the bytes it stores at \<open>buf\<close>, as many as it returns, or nothing for -1.\<close>

definition aligned_pread :: "aligned_file \<Rightarrow> 's ifile \<Rightarrow> u64 \<Rightarrow> u64 \<Rightarrow> u64 \<Rightarrow> 's \<Rightarrow> byte list option option" where
  "aligned_pread f file buf count offset s =
     (if count = 0 then Some (Some [])
      else case range_split_power2 offset count (m_alignment f) of
        None \<Rightarrow> None
      | Some rs \<Rightarrow>
          (let ops = power2_ops (m_alignment f); len = aligned_length ops rs
           in if direct_io f rs buf then Some (f_pread file s count offset)
              else case mem_alloc f len of
                None \<Rightarrow> Some None
              | Some mem \<Rightarrow>
                  (if length mem < unat len then None
                   else case f_pread file s len (aligned_begin_offset ops rs) of
                     None \<Rightarrow> Some None
                   | Some bs \<Rightarrow>
                       (if length bs < unat (begin_remainder rs) then Some None
                        else
                          (let actual_read = min (length bs - unat (begin_remainder rs)) (unat count)
                           in Some (Some (take actual_read (drop (unat (begin_remainder rs)) (patch mem 0 bs)))))))))"

text \<open>The first block, when the range does not start at its beginning: \<open>None\<close> is an error return.\<close>

definition patch_first :: "aligned_file \<Rightarrow> 's ifile \<Rightarrow> basic_range_split \<Rightarrow> u64 \<Rightarrow> 's \<Rightarrow> byte list \<Rightarrow> byte list option" where
  "patch_first f file rs filesize s mem =
     (if begin_remainder rs > 0 then
        (let off = aligned_begin_offset (power2_ops (m_alignment f)) rs
         in case f_pread file s (m_alignment f) off of
              None \<Rightarrow> None
            | Some bs \<Rightarrow>
                (if sint off + int (length bs) < sint filesize \<and> length bs < unat (m_alignment f) then None
                 else
                   (let mem1 = patch mem 0 bs
                    in Some (if length bs < unat (m_alignment f)
                             then patch mem1 (length bs) (replicate (unat (m_alignment f) - length bs) 0) else mem1))))
      else Some mem)"

text \<open>The last block, when the file goes on behind the end of the range.\<close>

definition patch_last :: "aligned_file \<Rightarrow> 's ifile \<Rightarrow> basic_range_split \<Rightarrow> u64 \<Rightarrow> 's \<Rightarrow> byte list \<Rightarrow> byte list option" where
  "patch_last f file rs filesize s mem =
     (if \<not> sr_bool (small_note rs) \<and> end_remainder rs > 0 then
        (let ops = power2_ops (m_alignment f); off = aligned_end_offset ops rs - m_alignment f
         in if sint (end_remainder rs) < sint (filesize - off) then
              (case f_pread file s (m_alignment f) off of
                 None \<Rightarrow> None
               | Some bs \<Rightarrow>
                   (if int (length bs) + sint off < sint filesize \<and> length bs < unat (m_alignment f) then None
                    else Some (patch mem (unat (off - aligned_begin_offset ops rs)) bs)))
            else Some mem)
      else Some mem)"

text \<open>The result of \<open>pwrite\<close>: the number of bytes, or nothing for -1, and the new state of the file.\<close>

definition aligned_pwrite ::
    "aligned_file \<Rightarrow> 's ifile \<Rightarrow> u64 \<Rightarrow> byte list \<Rightarrow> u64 \<Rightarrow> 's \<Rightarrow> (u64 option \<times> 's) option" where
  "aligned_pwrite f file buf bytes offset s =
     (let count = of_nat (length bytes) :: u64
      in if count = 0 then Some (Some 0, s)
      else case range_split_power2 offset count (m_alignment f) of
        None \<Rightarrow> None
      | Some rs \<Rightarrow>
          (let ops = power2_ops (m_alignment f); len = aligned_length ops rs; begin = aligned_begin_offset ops rs
           in if direct_io f rs buf
              then (case f_pwrite file s bytes offset of (n, s') \<Rightarrow> Some (if n = -1 then None else Some n, s'))
              else
                (let filesize = f_size file s;
                     suppose_filesize = (if sint filesize < sint (offset + count) then offset + count else filesize)
                 in case mem_alloc f len of
                      None \<Rightarrow> Some (None, s)
                    | Some mem \<Rightarrow>
                        (if length mem < unat len then None
                         else case patch_first f file rs filesize s mem of
                           None \<Rightarrow> Some (None, s)
                         | Some mem1 \<Rightarrow>
                             (case patch_last f file rs filesize s mem1 of
                                None \<Rightarrow> Some (None, s)
                              | Some mem2 \<Rightarrow>
                                  (let mem3 = patch mem2 (unat (begin_remainder rs)) bytes;
                                       (n, s1) = f_pwrite file s (take (unat len) mem3) begin;
                                       current_tail = begin + n
                                   in if current_tail <s offset then Some (None, s1)
                                      else
                                        (let count_write = (if count \<le> current_tail - offset then count else current_tail - offset);
                                             s2 = (if suppose_filesize < current_tail then f_ftruncate file s1 suppose_filesize else s1)
                                         in Some (Some count_write, s2))))))))"

subsection \<open>Files that honour aligned requests\<close>

definition file_read :: "byte list \<Rightarrow> nat \<Rightarrow> nat \<Rightarrow> byte list" where
  "file_read c n off = take n (drop off c)"

definition file_write :: "byte list \<Rightarrow> byte list \<Rightarrow> nat \<Rightarrow> byte list" where
  "file_write c bs off = take off c @ replicate (off - length c) 0 @ bs @ drop (off + length bs) c"

definition file_truncate :: "byte list \<Rightarrow> nat \<Rightarrow> byte list" where
  "file_truncate c n = take n c @ replicate (n - length c) 0"

text \<open>
  What \<open>pread\<close>, \<open>pwrite\<close>, \<open>fstat\<close> and \<open>ftruncate\<close> of POSIX do to the contents of a regular file, for requests
  whose offset and length are multiples of the alignment.
\<close>

definition aligned_requests_ok :: "u64 \<Rightarrow> 's ifile \<Rightarrow> ('s \<Rightarrow> byte list) \<Rightarrow> bool" where
  "aligned_requests_ok a file content \<longleftrightarrow>
     (\<forall>s n off. unat a dvd unat n \<and> unat a dvd unat off \<longrightarrow>
        f_pread file s n off = Some (file_read (content s) (unat n) (unat off))) \<and>
     (\<forall>s bs off. unat a dvd length bs \<and> unat a dvd unat off \<and> unat off + length bs \<le> 2 ^ 63 \<longrightarrow>
        (\<exists>s'. f_pwrite file s bs off = (of_nat (length bs), s') \<and> content s' = file_write (content s) bs (unat off))) \<and>
     (\<forall>s. length (content s) < 2 ^ 63 \<longrightarrow> unat (f_size file s) = length (content s)) \<and>
     (\<forall>s n. content (f_ftruncate file s n) = file_truncate (content s) (unat n))"

subsection \<open>Patches and writes by position\<close>

definition at :: "byte list \<Rightarrow> nat \<Rightarrow> byte" where
  "at c i = (if i < length c then c ! i else 0)"

lemma length_patch: "i + length bs \<le> length m \<Longrightarrow> length (patch m i bs) = length m"
  by (simp add: patch_def)

lemma nth_patch:
  "i + length bs \<le> length m \<Longrightarrow> j < length m \<Longrightarrow>
    patch m i bs ! j = (if i \<le> j \<and> j < i + length bs then bs ! (j - i) else m ! j)"
  by (auto simp: patch_def nth_append)

lemma length_file_write: "length (file_write c bs off) = max (length c) (off + length bs)"
  by (auto simp: file_write_def)

lemma nth_file_write:
  "i < max (length c) (off + length bs) \<Longrightarrow>
    file_write c bs off ! i = (if off \<le> i \<and> i < off + length bs then bs ! (i - off) else at c i)"
  by (auto simp: file_write_def at_def nth_append min_def)

lemma length_file_read: "length (file_read c n off) = min n (length c - off)"
  by (simp add: file_read_def)

lemma nth_file_read: "i < length (file_read c n off) \<Longrightarrow> file_read c n off ! i = c ! (off + i)"
  by (auto simp: file_read_def)

text \<open>A write of whole blocks whose other bytes are those of the file, cut to the right size, is the write of the range.\<close>

lemma write_whole_blocks:
  assumes "lo \<le> off" "off + length bs \<le> lo + length m"
    and mid: "\<And>j. off \<le> lo + j \<Longrightarrow> lo + j < off + length bs \<Longrightarrow> m ! j = bs ! (lo + j - off)"
    and pre: "\<And>j. lo + j < off \<Longrightarrow> m ! j = at c (lo + j)"
    and post: "\<And>j. off + length bs \<le> lo + j \<Longrightarrow> lo + j < length c \<Longrightarrow> j < length m \<Longrightarrow> m ! j = c ! (lo + j)"
  shows "take (max (length c) (off + length bs)) (file_write c m lo) = file_write c bs off"
proof (rule nth_equalityI)
  show "length (take (max (length c) (off + length bs)) (file_write c m lo)) = length (file_write c bs off)"
    using assms(1,2) by (simp add: length_file_write)
next
  fix i
  assume "i < length (take (max (length c) (off + length bs)) (file_write c m lo))"
  then have i: "i < max (length c) (off + length bs)" "i < max (length c) (lo + length m)"
    by (simp_all add: length_file_write)
  have "file_write c m lo ! i = file_write c bs off ! i"
  proof (cases "lo \<le> i \<and> i < lo + length m")
    case True
    then obtain j where j: "i = lo + j" "j < length m" using le_Suc_ex [of lo i] by auto
    consider "i < off" | "off \<le> i" "i < off + length bs" | "off + length bs \<le> i" by linarith
    then have "m ! j = (if off \<le> i \<and> i < off + length bs then bs ! (i - off) else at c i)"
    proof cases
      case 3
      then have "i < length c" using i(1) by simp
      then show ?thesis using 3 post [of j] j by (simp add: at_def)
    qed (use pre [of j] mid [of j] j(1) in simp_all)
    then show ?thesis using True j i by (simp add: nth_file_write)
  next
    case False
    then have "\<not> (off \<le> i \<and> i < off + length bs)" using assms(1,2) by linarith
    then show ?thesis unfolding nth_file_write [OF i(1)] nth_file_write [OF i(2)] using False by auto
  qed
  then show "take (max (length c) (off + length bs)) (file_write c m lo) ! i = file_write c bs off ! i"
    using i(1) by simp
qed

subsection \<open>The blocks of a range\<close>

definition blk_begin :: "nat \<Rightarrow> nat \<Rightarrow> nat" where
  "blk_begin a off = off div a * a"

definition blk_end :: "nat \<Rightarrow> nat \<Rightarrow> nat" where
  "blk_end a e = (e + (a - 1)) div a * a"

lemma blk_begin_facts: "blk_begin a off + off mod a = off"
  by (simp add: blk_begin_def)

lemma blk_end_facts:
  assumes "0 < a"
  shows "blk_end a e = (if e mod a = 0 then e else e - e mod a + a)"
proof -
  have "e div a * a = e - e mod a" by (simp add: minus_mod_eq_div_mult)
  then show ?thesis using div_round_up [OF assms, of e] by (auto simp: blk_end_def)
qed

lemma blk_dvd: "a dvd blk_begin a off" "a dvd blk_end a e"
  by (simp_all add: blk_begin_def blk_end_def)

lemma blk_end_ge: "0 < a \<Longrightarrow> e \<le> blk_end a e \<and> blk_end a e < e + a"
  using mod_less_divisor [of a e] mod_less_eq_dividend [of e a] by (auto simp: blk_end_facts simp del: mod_less_divisor)

lemma power2_splitter:
  assumes "0 < a" "a AND (a - 1) = 0"
  shows "power2_ops a = fixed_ops a" "range_split_power2 off n a = Some (rs_init (fixed_ops a) off n)"
proof -
  obtain k where "k < 64" "a = 2 ^ k" by (rule word_power2_test [OF assms])
  then show "power2_ops a = fixed_ops a" by (simp add: power2_ops_fixed)
  then show "range_split_power2 off n a = Some (rs_init (fixed_ops a) off n)"
    using assms by (simp add: range_split_power2_def)
qed

text \<open>The fields of the split of a non-empty range, as natural numbers.\<close>

lemma rs_init_fields:
  "abegin (rs_init (fixed_ops a) off n) = off div a" "aend (rs_init (fixed_ops a) off n) = (off + n + a - 1) div a"
  "begin_remainder (rs_init (fixed_ops a) off n) = off mod a" "end_remainder (rs_init (fixed_ops a) off n) = (off + n) mod a"
  "sr_bool (small_note (rs_init (fixed_ops a) off n)) \<longleftrightarrow> 0 < n \<and> off div a + 1 = (off + n + a - 1) div a \<and>
     off div a \<noteq> (off + a - 1) div a \<and> (off + n + a - 1) div a \<noteq> (off + n) div a"
  by (simp_all add: rs_init_def fixed_ops_def Let_def sr_assign_def sr_clear_def sr_bool_def)

lemma fixed_offsets:
  "aligned_begin_offset (fixed_ops a) rs = abegin rs * a" "aligned_end_offset (fixed_ops a) rs = aend rs * a"
  "aligned_length (fixed_ops a) rs = (aend rs - abegin rs) * a"
  by (simp_all add: aligned_begin_offset_def aligned_end_offset_def aligned_length_def fixed_ops_def)

definition range_ok :: "u64 \<Rightarrow> u64 \<Rightarrow> u64 \<Rightarrow> bool" where
  "range_ok a off n \<longleftrightarrow> 0 < a \<and> a AND (a - 1) = 0 \<and> 0 < n \<and> unat off + unat n + unat a \<le> 2 ^ 63"

lemma round_up_word:
  assumes "0 < a" "unat e + unat a \<le> 2 ^ 63"
  shows "unat ((e + a - 1) div a :: u64) = (unat e + (unat a - 1)) div unat a"
proof -
  have "unat (a - 1) = unat a - 1" using assms(1) by (intro unat_minus_one) auto
  then have "unat (e + (a - 1)) = unat e + (unat a - 1)"
    using assms unat_add_u64 [of e "a - 1"] by simp
  then show ?thesis by (simp add: unat_div_distrib algebra_simps)
qed

lemma blocks:
  fixes a off n :: u64
  defines "A \<equiv> unat a" and "P \<equiv> unat off" and "E \<equiv> unat off + unat n"
  assumes ok: "range_ok a off n"
  shows "0 < A" "unat (off + n) = E" "unat (off div a) = P div A" "unat ((off + n + a - 1) div a) = (E + (A - 1)) div A"
    "unat ((off + a - 1) div a) = (P + (A - 1)) div A" "blk_begin A P \<le> P" "blk_end A E < 2 ^ 63" "E \<le> blk_end A E"
proof -
  have a: "0 < a" and b: "P + unat n + A \<le> 2 ^ 63" using ok by (simp_all add: range_ok_def A_def P_def)
  show A: "0 < A" using a by (simp add: A_def unat_gt_0)
  show e: "unat (off + n) = E" using b by (simp add: P_def E_def unat_add_u64)
  show "unat (off div a) = P div A" by (simp add: P_def A_def unat_div_distrib)
  show "unat ((off + n + a - 1) div a) = (E + (A - 1)) div A"
    using round_up_word [OF a, of "off + n"] b e by (simp add: A_def E_def P_def)
  show "unat ((off + a - 1) div a) = (P + (A - 1)) div A"
    using round_up_word [OF a, of off] b by (simp add: A_def P_def)
  show "blk_begin A P \<le> P" using blk_begin_facts [of A P] by linarith
  show "blk_end A E < 2 ^ 63" "E \<le> blk_end A E" using blk_end_ge [OF A, of E] b by (simp_all add: E_def P_def)
qed

lemma block_fields:
  fixes a off n :: u64
  defines "A \<equiv> unat a" and "P \<equiv> unat off" and "E \<equiv> unat off + unat n" and "rs \<equiv> rs_init (fixed_ops a) off n"
  assumes ok: "range_ok a off n"
  shows "unat (aligned_begin_offset (fixed_ops a) rs) = blk_begin A P"
    "unat (aligned_end_offset (fixed_ops a) rs) = blk_end A E"
    "unat (aligned_length (fixed_ops a) rs) = blk_end A E - blk_begin A P"
    "unat (begin_remainder rs) = P mod A" "unat (end_remainder rs) = E mod A"
    "sr_bool (small_note rs) \<longleftrightarrow> P mod A \<noteq> 0 \<and> E mod A \<noteq> 0 \<and> blk_end A E = blk_begin A P + A"
proof -
  note f = blocks [OF ok, folded A_def P_def E_def]
  have lt: "blk_begin A P < 2 ^ 64" "blk_end A E < 2 ^ 64" "blk_begin A P \<le> blk_end A E"
    using f(6,7,8) unat_u64_less [of off] by (auto simp: P_def E_def)
  have le: "off div a \<le> (off + n + a - 1) div a"
    unfolding word_le_nat_alt f(3,4) by (rule div_le_mono) (simp add: P_def E_def)
  have mult: "unat (i * a) = unat i * A" if "unat i * A < 2 ^ 64" for i :: u64
    using that unat_mult_u64 [of i a] by (simp add: A_def)
  show "unat (aligned_begin_offset (fixed_ops a) rs) = blk_begin A P"
    using mult [of "off div a"] lt(1) f(3) by (simp add: fixed_offsets rs_def rs_init_fields blk_begin_def)
  show "unat (aligned_end_offset (fixed_ops a) rs) = blk_end A E"
    using mult [of "(off + n + a - 1) div a"] lt(2) f(4)
    by (simp add: fixed_offsets rs_def rs_init_fields blk_end_def)
  have d: "unat ((off + n + a - 1) div a - off div a) = (E + (A - 1)) div A - P div A"
    using unat_sub_u64 [OF le] f(3,4) by simp
  show "unat (aligned_length (fixed_ops a) rs) = blk_end A E - blk_begin A P"
    using mult [of "(off + n + a - 1) div a - off div a"] lt d
    by (simp add: fixed_offsets rs_def rs_init_fields blk_end_def blk_begin_def diff_mult_distrib)
  show "unat (begin_remainder rs) = P mod A" "unat (end_remainder rs) = E mod A"
    using f(2) by (simp_all add: rs_def rs_init_fields unat_mod_distrib A_def P_def)
  show "sr_bool (small_note rs) \<longleftrightarrow> P mod A \<noteq> 0 \<and> E mod A \<noteq> 0 \<and> blk_end A E = blk_begin A P + A"
  proof -
    have "P \<le> 9223372036854775808" using ok by (simp add: P_def range_ok_def)
    then have "P div A + 1 < 18446744073709551616" using div_le_dividend [of P A] by linarith
    then have "unat (off div a + 1) = P div A + 1" using f(3) unat_add_u64 [of "off div a" 1] by simp
    then have 1: "off div a + 1 = (off + n + a - 1) div a \<longleftrightarrow> blk_end A E = blk_begin A P + A"
      using f(1,4) unfolding word_eq_iff_unat blk_end_def blk_begin_def
      by (metis add.commute mult_Suc mult_right_cancel neq0_conv plus_1_eq_Suc)
    have 2: "off div a \<noteq> (off + a - 1) div a \<longleftrightarrow> P mod A \<noteq> 0"
      using f(1,3,5) div_round_up [of A P] unfolding word_eq_iff_unat by simp
    have "unat ((off + n) div a) = E div A" using f(2) by (simp add: A_def unat_div_distrib)
    then have 3: "(off + n + a - 1) div a \<noteq> (off + n) div a \<longleftrightarrow> E mod A \<noteq> 0"
      using f(1,4) div_round_up [of A E] unfolding word_eq_iff_unat by simp
    show ?thesis using 1 2 3 ok by (auto simp: rs_def rs_init_fields range_ok_def)
  qed
qed


subsection \<open>Reading\<close>

definition alloc_ok :: "aligned_file \<Rightarrow> bool" where
  "alloc_ok f \<longleftrightarrow> (\<forall>k > 0. \<exists>mem. m_allocator f k = Some mem \<and> nat k \<le> length mem)"

lemma uint_less_unat: "unat (x :: 'a::len word) < n \<Longrightarrow> uint x < int n"
proof -
  assume "unat x < n"
  then have "int (unat x) < int n" by (simp only: of_nat_less_iff)
  then show ?thesis by simp
qed

lemma mem_alloc_ok:
  assumes "alloc_ok f" "0 < len" "unat len < 2 ^ 31"
  shows "\<exists>mem. mem_alloc f len = Some mem \<and> unat len \<le> length mem"
proof -
  have "uint len < 2 ^ 31" using uint_less_unat [OF assms(3)] by simp
  then have "signed_take_bit 31 (uint len) = uint len"
    using uint_ge_0 [of len] by (intro signed_take_bit_int_eq_self) linarith+
  then have "sint (ucast len :: u32) = uint len" by (simp add: signed_ucast_eq)
  moreover have "0 < uint len" using assms(2) by (simp add: word_less_def)
  ultimately show ?thesis using assms(1) unfolding alloc_ok_def mem_alloc_def unat_eq_nat_uint by metis
qed

lemma file_read_part:
  assumes "lo \<le> off" "off + n \<le> lo + m"
  shows "take (min (length (file_read c m lo) - (off - lo)) n) (drop (off - lo) (file_read c m lo @ rest)) = file_read c n off"
proof -
  let ?r = "file_read c m lo"
  have d: "drop (off - lo) ?r = take (m - (off - lo)) (drop off c)"
    using assms(1) by (simp add: file_read_def drop_take)
  have "take (min (length ?r - (off - lo)) n) (drop (off - lo) (?r @ rest)) = take (min (length ?r - (off - lo)) n) (drop (off - lo) ?r)"
    by simp
  also have "\<dots> = take n (drop (off - lo) ?r)" by (simp add: min_def)
  also have "\<dots> = take n (take (m - (off - lo)) (drop off c))" unfolding d ..
  also have "\<dots> = file_read c n off" using assms by (simp add: file_read_def min_def)
  finally show ?thesis .
qed

lemma is_aligned_range:
  assumes "range_ok a off n"
  shows "is_aligned (rs_init (fixed_ops a) off n) \<longleftrightarrow> unat a dvd unat off \<and> unat a dvd unat n"
proof -
  note f = block_fields(4,5) [OF assms]
  have "unat a dvd unat off + unat n \<longleftrightarrow> unat a dvd unat n" if "unat a dvd unat off"
    using that by (simp add: dvd_add_right_iff)
  then show ?thesis using f unfolding is_aligned_def by (auto simp: word_eq_iff_unat mod_eq_0_iff_dvd)
qed

lemma aligned_length_positive:
  assumes "range_ok a off n"
  shows "0 < aligned_length (fixed_ops a) (rs_init (fixed_ops a) off n)"
proof -
  have "0 < unat n" using assms by (auto simp: range_ok_def unat_gt_0)
  then have "blk_begin (unat a) (unat off) < blk_end (unat a) (unat off + unat n)"
    using blocks(6,8) [OF assms] by linarith
  then show ?thesis using block_fields(3) [OF assms] unfolding word_less_nat_alt by simp
qed



subsection \<open>Writing\<close>

lemma sint_small: "unat x < 2 ^ 63 \<Longrightarrow> sint (x :: u64) = int (unat x)"
proof -
  assume "unat x < 2 ^ 63"
  then have "uint x < 2 ^ 63" using uint_less_unat [of x "2 ^ 63"] by simp
  then have "signed_take_bit 63 (uint x) = uint x"
    using uint_ge_0 [of x] by (intro signed_take_bit_int_eq_self) linarith+
  then show ?thesis by (simp add: sint_uint)
qed

lemma sint_diff_small: "unat x < 2 ^ 63 \<Longrightarrow> unat y < 2 ^ 63 \<Longrightarrow> sint (x - y :: u64) = int (unat x) - int (unat y)"
proof -
  assume a: "unat x < 2 ^ 63" "unat y < 2 ^ 63"
  then have "uint x < 2 ^ 63" "uint y < 2 ^ 63" using uint_less_unat [of x "2 ^ 63"] uint_less_unat [of y "2 ^ 63"] by simp_all
  then have "signed_take_bit 63 (uint x - uint y) = uint x - uint y"
    using uint_ge_0 [of x] uint_ge_0 [of y] by (intro signed_take_bit_int_eq_self) linarith+
  then show ?thesis using a by (simp add: sint_word_ariths sint_small)
qed

text \<open>The hypotheses of a write, in one place: the underlying file, its contents and the range.\<close>

definition write_ok :: "aligned_file \<Rightarrow> 's ifile \<Rightarrow> ('s \<Rightarrow> byte list) \<Rightarrow> 's \<Rightarrow> u64 \<Rightarrow> u64 \<Rightarrow> bool" where
  "write_ok f file content s offset count \<longleftrightarrow>
     aligned_requests_ok (m_alignment f) file content \<and> length (content s) < 2 ^ 63 \<and> range_ok (m_alignment f) offset count"

lemma patch_first_ok:
  fixes f :: aligned_file and offset count :: u64
  defines "A \<equiv> unat (m_alignment f)" and "lo \<equiv> blk_begin (unat (m_alignment f)) (unat offset)"
    and "rs \<equiv> rs_init (fixed_ops (m_alignment f)) offset count"
  assumes "write_ok f file content s offset count" "A \<le> length mem"
  shows "\<exists>m. patch_first f file rs (f_size file s) s mem = Some m \<and> length m = length mem \<and>
    (\<forall>j < unat offset mod A. m ! j = at (content s) (lo + j)) \<and>
    (unat offset mod A \<noteq> 0 \<longrightarrow> (\<forall>j < A. m ! j = at (content s) (lo + j)))"
proof -
  let ?c = "content s" and ?a = "m_alignment f"
  have F: "aligned_requests_ok ?a file content" "length ?c < 2 ^ 63" and ok: "range_ok ?a offset count"
    using assms(4) by (simp_all add: write_ok_def)
  note f = block_fields [OF ok, folded rs_def A_def lo_def] and b = blocks [OF ok, folded A_def lo_def]
  have P: "power2_ops ?a = fixed_ops ?a" using ok by (intro power2_splitter) (simp_all add: range_ok_def)
  have sz: "unat (f_size file s) = length ?c" using F unfolding aligned_requests_ok_def by blast
  let ?bs = "file_read ?c A lo" and ?off = "aligned_begin_offset (fixed_ops ?a) rs"
  have r: "f_pread file s ?a ?off = Some ?bs"
    using F(1) f(1) blk_dvd(1) [of A "unat offset"] unfolding aligned_requests_ok_def by (simp add: A_def lo_def)
  have so: "sint ?off = int lo" "sint (f_size file s) = int (length ?c)"
    using f(1) b(6,7,8) sz F(2) sint_small [of ?off] sint_small [of "f_size file s"] by simp_all
  have full: "\<not> (sint ?off + int (length ?bs) < sint (f_size file s) \<and> length ?bs < A)"
    unfolding so length_file_read by auto
  have bs: "length ?bs \<le> A" by (simp add: length_file_read)
  let ?z = "replicate (A - length ?bs) 0"
  have m: "patch_first f file rs (f_size file s) s mem = Some (if 0 < begin_remainder rs
      then if length ?bs < A then patch (patch mem 0 ?bs) (length ?bs) ?z else patch mem 0 ?bs else mem)"
    using full r P by (auto simp: patch_first_def Let_def A_def)
  let ?m = "if length ?bs < A then patch (patch mem 0 ?bs) (length ?bs) ?z else patch mem 0 ?bs"
  have len: "length ?m = length mem" using bs assms(5) by (simp add: length_patch)
  have nth: "?m ! j = at ?c (lo + j)" if "j < A" for j
    using that bs assms(5) by (auto simp: nth_patch length_patch nth_file_read at_def length_file_read)
  have br: "0 < begin_remainder rs \<longleftrightarrow> unat offset mod A \<noteq> 0" using f(4) by (simp add: word_less_nat_alt)
  show ?thesis
  proof (cases "unat offset mod A = 0")
    case True
    then show ?thesis unfolding m br by simp
  next
    case False
    have "j < A" if "j < unat offset mod A" for j using that mod_less_divisor [OF b(1), of "unat offset"] by linarith
    then show ?thesis unfolding m br using False len nth by auto
  qed
qed

lemma last_block:
  assumes "0 < a" "e mod a \<noteq> 0" "off \<le> e"
  shows "blk_end a e - a + e mod a = e" "a \<le> blk_end a e" "blk_begin a off \<le> blk_end a e - a"
proof -
  have h: "blk_end a e = e - e mod a + a" using assms blk_end_facts [of a e] by simp
  show "a \<le> blk_end a e" "blk_end a e - a + e mod a = e" unfolding h using mod_less_eq_dividend [of e a] by linarith+
  have "off div a * a \<le> e div a * a" using assms(3) by (intro mult_right_mono div_le_mono) simp_all
  then show "blk_begin a off \<le> blk_end a e - a" unfolding h blk_begin_def by (simp add: minus_mod_eq_div_mult)
qed

lemma patch_last_ok:
  fixes f :: aligned_file and offset count :: u64
  defines "A \<equiv> unat (m_alignment f)" and "E \<equiv> unat offset + unat count"
    and "rs \<equiv> rs_init (fixed_ops (m_alignment f)) offset count"
  defines "lo \<equiv> blk_begin A (unat offset)" and "hi \<equiv> blk_end A E"
  assumes "write_ok f file content s offset count" "hi - lo \<le> length mem"
  shows "\<exists>m. patch_last f file rs (f_size file s) s mem = Some m \<and> length m = length mem \<and>
    (\<forall>j < length mem. m ! j =
       (if \<not> sr_bool (small_note rs) \<and> E mod A \<noteq> 0 \<and> E < length (content s) \<and> hi - A \<le> lo + j \<and> lo + j < min hi (length (content s))
        then content s ! (lo + j) else mem ! j))"
proof -
  let ?c = "content s" and ?a = "m_alignment f"
  have F: "aligned_requests_ok ?a file content" "length ?c < 2 ^ 63" and ok: "range_ok ?a offset count"
    using assms(6) by (simp_all add: write_ok_def)
  note f = block_fields [OF ok, folded rs_def A_def E_def lo_def hi_def]
    and b = blocks [OF ok, folded A_def E_def lo_def hi_def]
  have P: "power2_ops ?a = fixed_ops ?a" using ok by (intro power2_splitter) (simp_all add: range_ok_def)
  have sz: "unat (f_size file s) = length ?c" using F unfolding aligned_requests_ok_def by blast
  have er: "0 < end_remainder rs \<longleftrightarrow> E mod A \<noteq> 0" using f(5) by (simp add: word_less_nat_alt)
  show ?thesis
  proof (cases "\<not> sr_bool (small_note rs) \<and> E mod A \<noteq> 0")
    case False
    then have "patch_last f file rs (f_size file s) s mem = Some mem" using er by (auto simp: patch_last_def)
    then show ?thesis using False by (intro exI [of _ mem]) auto
  next
    case True
    have "unat offset \<le> E" by (simp add: E_def)
    note l = last_block [OF b(1) conjunct2 [OF True] this, folded hi_def lo_def]
    let ?off = "aligned_end_offset (fixed_ops ?a) rs - ?a" and ?bs = "file_read ?c A (hi - A)"
    have off: "unat ?off = hi - A" using f(2) l(2) by (simp add: unat_sub_u64 word_le_nat_alt A_def)
    have so: "sint ?off = int (hi - A)" "sint (f_size file s) = int (length ?c)" "sint (end_remainder rs) = int (E mod A)"
      "sint (f_size file s - ?off) = int (length ?c) - int (hi - A)"
      using off b(7,8) sz f(5) F(2) l(1) sint_small [of ?off] sint_small [of "f_size file s"] sint_small [of "end_remainder rs"]
        sint_diff_small [of "f_size file s" ?off] by simp_all
    have "A dvd hi - A" using blk_dvd(2) [of A E] by (simp add: hi_def dvd_diff_nat)
    then have r: "f_pread file s ?a ?off = Some ?bs"
      using F(1) off unfolding aligned_requests_ok_def by (simp add: A_def)
    have full: "\<not> (int (length ?bs) + sint ?off < sint (f_size file s) \<and> length ?bs < A)"
      unfolding so length_file_read by auto
    have c: "sint (end_remainder rs) < sint (f_size file s - ?off) \<longleftrightarrow> E < length ?c" unfolding so using l(1) by linarith
    have i: "unat (?off - aligned_begin_offset (fixed_ops ?a) rs) = hi - A - lo"
      using off f(1) l(3) by (simp add: unat_sub_u64 word_le_nat_alt)
    have m: "patch_last f file rs (f_size file s) s mem = Some (if E < length ?c then patch mem (hi - A - lo) ?bs else mem)"
      using True er full r P c i by (auto simp: patch_last_def Let_def A_def)
    have fit: "hi - A - lo + length ?bs \<le> length mem" using l(2,3) assms(7) by (auto simp: length_file_read)
    have nth: "patch mem (hi - A - lo) ?bs ! j = (if hi - A \<le> lo + j \<and> lo + j < min hi (length ?c) then ?c ! (lo + j) else mem ! j)"
      if "j < length mem" for j
    proof -
      have iff: "hi - A - lo \<le> j \<and> j < hi - A - lo + length ?bs \<longleftrightarrow> hi - A \<le> lo + j \<and> lo + j < min hi (length ?c)"
        using l(2,3) by (auto simp: length_file_read)
      have val: "?bs ! (j - (hi - A - lo)) = ?c ! (lo + j)" if "hi - A \<le> lo + j \<and> lo + j < min hi (length ?c)"
      proof -
        have "hi - A + (j - (hi - A - lo)) = lo + j" using that l(3) by linarith
        moreover have "j - (hi - A - lo) < length ?bs" using iff that by linarith
        ultimately show ?thesis using nth_file_read [of "j - (hi - A - lo)" ?c A "hi - A"] by simp
      qed
      show ?thesis unfolding nth_patch [OF fit that] by (rule if_cong [OF iff val refl])
    qed
    show ?thesis unfolding m using True nth fit by (auto simp: length_patch)
  qed
qed

text \<open>The bytes that are written: the range, surrounded by what the file has there.\<close>

lemma patched_blocks:
  fixes f :: aligned_file and offset :: u64 and bytes :: "byte list"
  defines "A \<equiv> unat (m_alignment f)" and "count \<equiv> of_nat (length bytes)" and "E \<equiv> unat offset + length bytes"
  defines "rs \<equiv> rs_init (fixed_ops (m_alignment f)) offset count" and "lo \<equiv> blk_begin A (unat offset)" and "hi \<equiv> blk_end A E"
  assumes ok: "write_ok f file content s offset count" and "length bytes < 2 ^ 63" "hi - lo \<le> length mem"
  shows "\<exists>m1 m2. patch_first f file rs (f_size file s) s mem = Some m1 \<and> patch_last f file rs (f_size file s) s m1 = Some m2 \<and>
    length m2 = length mem \<and>
    take (max (length (content s)) E) (file_write (content s) (take (hi - lo) (patch m2 (unat offset mod A) bytes)) lo) =
      file_write (content s) bytes (unat offset)"
proof -
  let ?c = "content s"
  have ok': "range_ok (m_alignment f) offset count" using ok by (simp add: write_ok_def)
  have n: "unat count = length bytes" using assms(8) unfolding count_def by (simp add: unat_of_nat_u64)
  note fl = block_fields [OF ok', folded rs_def A_def lo_def, unfolded n, folded E_def hi_def]
    and b = blocks [OF ok', folded A_def lo_def, unfolded n, folded E_def hi_def]
  have P: "lo + unat offset mod A = unat offset" using blk_begin_facts [of A "unat offset"] by (simp add: lo_def)
  have E: "lo + unat offset mod A + length bytes = E" using P by (simp add: E_def)
  have "0 < length bytes" using ok' n by (simp add: range_ok_def word_less_nat_alt)
  then have lh: "lo < hi" using P E b(8) by linarith
  then have AE: "A \<le> hi - lo" using blk_dvd [of A] by (intro dvd_imp_le) (simp_all add: lo_def hi_def dvd_diff_nat)
  obtain m1 where m1: "patch_first f file rs (f_size file s) s mem = Some m1" "length m1 = length mem"
    "\<forall>j < unat offset mod A. m1 ! j = at ?c (lo + j)" "unat offset mod A \<noteq> 0 \<longrightarrow> (\<forall>j < A. m1 ! j = at ?c (lo + j))"
    using patch_first_ok [OF ok, folded A_def rs_def lo_def, of mem] AE assms(9) by auto
  obtain m2 where m2: "patch_last f file rs (f_size file s) s m1 = Some m2" "length m2 = length m1"
    "\<forall>j < length m1. m2 ! j =
       (if \<not> sr_bool (small_note rs) \<and> E mod A \<noteq> 0 \<and> E < length ?c \<and> hi - A \<le> lo + j \<and> lo + j < min hi (length ?c)
        then ?c ! (lo + j) else m1 ! j)"
    using patch_last_ok [OF ok, folded A_def rs_def, unfolded n, folded E_def lo_def hi_def, of m1] assms(9) m1(2) by auto
  let ?m = "patch m2 (unat offset mod A) bytes"
  have fit: "unat offset mod A + length bytes \<le> length m2" using E b(8) m1(2) m2(2) assms(9) by linarith
  have len: "length m2 = length m1" "hi - lo \<le> length m2" using m1(2) m2(2) assms(9) by simp_all
  have nth: "take (hi - lo) ?m ! j = (if unat offset mod A \<le> j \<and> j < unat offset mod A + length bytes then bytes ! (j - unat offset mod A) else m2 ! j)"
    if "j < hi - lo" for j
    using that len nth_patch [OF fit, of j] by simp
  have "take (max (length ?c) (unat offset + length bytes)) (file_write ?c (take (hi - lo) ?m) lo) = file_write ?c bytes (unat offset)"
  proof (rule write_whole_blocks)
    show "lo \<le> unat offset" by (rule b(6))
    show "unat offset + length bytes \<le> lo + length (take (hi - lo) ?m)"
      using b(8) lh len length_patch [OF fit] by (simp add: E_def)
  next
    fix j
    assume "unat offset \<le> lo + j" "lo + j < unat offset + length bytes"
    then have j: "unat offset mod A \<le> j" "j < unat offset mod A + length bytes" "j < hi - lo" "lo + j - unat offset = j - unat offset mod A"
      using P E b(8) by linarith+
    then show "take (hi - lo) ?m ! j = bytes ! (lo + j - unat offset)" using nth [OF j(3)] by simp
  next
    fix j
    assume "lo + j < unat offset"
    then have j: "j < unat offset mod A" "j < hi - lo" using P E b(8) by linarith+
    then show "take (hi - lo) ?m ! j = at ?c (lo + j)" using nth [OF j(2)] m1(3) m2(3) len by (auto simp: at_def)
  next
    fix j
    assume a: "unat offset + length bytes \<le> lo + j" "lo + j < length ?c" "j < length (take (hi - lo) ?m)"
    then have "j < hi - lo" by simp
    with a(1,2) have j: "unat offset mod A + length bytes \<le> j" "j < hi - lo" "E \<le> lo + j" "lo + j < hi" "E < length ?c"
      using P E by linarith+
    have er: "E mod A \<noteq> 0"
    proof
      assume "E mod A = 0"
      then have "hi = E" using blk_end_facts [OF b(1), of E] by (simp add: hi_def)
      then show False using j(3,4) by simp
    qed
    have "hi - A \<le> lo + j" using last_block(1) [OF b(1) er, of 0] j(3) by (simp add: hi_def)
    moreover have "m1 ! j = ?c ! (lo + j)" if "sr_bool (small_note rs)"
      using that fl(6) m1(4) j(2) a(2) by (simp add: at_def)
    ultimately show "take (hi - lo) ?m ! j = ?c ! (lo + j)"
      using nth [OF j(2)] m2(3) len j a(2) er by auto
  qed
  then show ?thesis using m1(1,2) m2(1,2) by (auto simp: E_def)
qed

text \<open>The blocks that the adaptor reads, patches and writes when the request is not aligned.\<close>

lemma blocks_written:
  fixes f :: aligned_file and offset :: u64 and bytes :: "byte list"
  defines "A \<equiv> unat (m_alignment f)" and "E \<equiv> unat offset + length bytes"
    and "rs \<equiv> rs_init (fixed_ops (m_alignment f)) offset (of_nat (length bytes))"
  defines "lo \<equiv> blk_begin A (unat offset)" and "hi \<equiv> blk_end A E"
    and "len \<equiv> aligned_length (fixed_ops (m_alignment f)) rs" and "w \<equiv> \<lambda>m2. take (blk_end A E - blk_begin A (unat offset)) (patch m2 (unat offset mod A) bytes)"
  assumes "write_ok f file content s offset (of_nat (length bytes))" "alloc_ok f" "length bytes < 2 ^ 63" "unat len < 2 ^ 31"
  shows "\<exists>mem m1 m2 s1. mem_alloc f len = Some mem \<and> unat len \<le> length mem \<and>
    patch_first f file rs (f_size file s) s mem = Some m1 \<and> patch_last f file rs (f_size file s) s m1 = Some m2 \<and>
    length (w m2) = hi - lo \<and>
    f_pwrite file s (w m2) (aligned_begin_offset (fixed_ops (m_alignment f)) rs) = (of_nat (hi - lo), s1) \<and>
    content s1 = file_write (content s) (w m2) lo \<and>
    take (max (length (content s)) E) (file_write (content s) (w m2) lo) = file_write (content s) bytes (unat offset)"
proof -
  have F: "aligned_requests_ok (m_alignment f) file content" and ok: "range_ok (m_alignment f) offset (of_nat (length bytes))"
    using assms(8) by (simp_all add: write_ok_def)
  have n: "unat (of_nat (length bytes) :: u64) = length bytes" using assms(10) by (simp add: unat_of_nat_u64)
  note fl = block_fields [OF ok, unfolded n, folded A_def E_def rs_def, folded lo_def hi_def len_def]
    and b = blocks [OF ok, unfolded n, folded A_def E_def, folded lo_def hi_def]
  obtain mem where mem: "mem_alloc f len = Some mem" "unat len \<le> length mem"
    using mem_alloc_ok [OF assms(9) aligned_length_positive [OF ok], folded rs_def len_def] assms(11) by auto
  obtain m1 m2 where m: "patch_first f file rs (f_size file s) s mem = Some m1" "patch_last f file rs (f_size file s) s m1 = Some m2"
    "length m2 = length mem" "take (max (length (content s)) E) (file_write (content s) (w m2) lo) = file_write (content s) bytes (unat offset)"
    using patched_blocks [OF assms(8,10), folded A_def E_def rs_def, folded lo_def hi_def, of mem] mem(2) fl(3) by (auto simp: w_def lo_def hi_def)
  have lh: "lo \<le> hi" using b(6,8) by (simp add: E_def)
  have "unat offset mod A + length bytes \<le> length m2"
    using blk_begin_facts [of A "unat offset"] b(8) fl(3) m(3) mem(2) by (simp add: lo_def E_def)
  then have lw: "length (w m2) = hi - lo" using fl(3) m(3) mem(2) by (simp add: w_def length_patch lo_def hi_def)
  have d: "A dvd hi - lo" "A dvd lo" "lo + (hi - lo) \<le> 2 ^ 63"
    using blk_dvd [of A] lh b(7) by (simp_all add: lo_def hi_def dvd_diff_nat)
  obtain s1 where s1: "f_pwrite file s (w m2) (aligned_begin_offset (fixed_ops (m_alignment f)) rs) = (of_nat (hi - lo), s1)"
    "content s1 = file_write (content s) (w m2) lo"
    using F d lw fl(1) unfolding aligned_requests_ok_def A_def by metis
  then show ?thesis using mem m lw by blast
qed

lemma sint_less_small: "unat x < 2 ^ 63 \<Longrightarrow> unat y < 2 ^ 63 \<Longrightarrow> sint (x :: u64) < sint (y :: u64) \<longleftrightarrow> unat x < unat y"
  by (simp only: sint_small of_nat_less_iff)

lemma unat_add_of_nat: "unat x + d < 18446744073709551616 \<Longrightarrow> unat (x + of_nat d :: u64) = unat x + d"
  by (simp add: unat_add_u64 unat_of_nat_u64)

lemma cut_to_size:
  assumes "lo + length w = hi" "e \<le> hi"
  shows "(if max (length c) e < hi then file_truncate (file_write c w lo) (max (length c) e) else file_write c w lo) =
    take (max (length c) e) (file_write c w lo)"
  using assms by (auto simp: file_truncate_def length_file_write)


subsection \<open>A file that accepts aligned requests only\<close>

definition direct_file :: "u64 \<Rightarrow> byte list ifile" where
  "direct_file a =
     \<lparr>f_pread = (\<lambda>s n off. if unat a dvd unat n \<and> unat a dvd unat off then Some (file_read s (unat n) (unat off)) else None),
      f_pwrite = (\<lambda>s bs off. if unat a dvd length bs \<and> unat a dvd unat off
        then (of_nat (length bs), file_write s bs (unat off)) else (-1, s)),
      f_size = (\<lambda>s. of_nat (length s)), f_ftruncate = (\<lambda>s n. file_truncate s (unat n))\<rparr>"

lemma direct_file_ok: "aligned_requests_ok a (direct_file a) (\<lambda>s. s)"
  by (auto simp: aligned_requests_ok_def direct_file_def unat_of_nat_u64)

definition demo_file :: aligned_file where
  "demo_file = \<lparr>m_alignment = 4, m_align_memory = True, m_allocator = (\<lambda>k. Some (replicate (nat k) 0xff))\<rparr>"

lemma demo_file_ok: "alloc_ok demo_file" "m_alignment demo_file = 4"
  by (simp_all add: alloc_ok_def demo_file_def)

lemma demo_range: "range_ok 4 3 2" "unat (aligned_length (power2_ops 4) (rs_init (power2_ops 4) 3 2)) = 8"
proof -
  show ok: "range_ok 4 3 2" by (simp add: range_ok_def)
  have "power2_ops 4 = fixed_ops 4" by (rule power2_splitter) simp_all
  then show "unat (aligned_length (power2_ops 4) (rs_init (power2_ops 4) 3 2)) = 8"
    using block_fields(3) [OF ok] by (simp add: blk_end_def blk_begin_def)
qed



end
