(* ===== verification/Http_Body.thy ===== *)
theory Http_Body
  imports Url
begin

text \<open>
  The bodies of HTTP messages of src/net/http/body.cpp: of a given length, and in chunks.  The socket is a
  parameter: a read returns bytes or nothing for an error, and so does a write with the number of
  bytes.  The buffer of the chunked reader is the list of its \<open>m_line_size\<close> bytes.
\<close>

subsection \<open>Streams\<close>

record 'st socket_stream =
  st_read :: "'st \<Rightarrow> nat \<Rightarrow> byte list option \<times> 'st"
  st_recv :: "'st \<Rightarrow> nat \<Rightarrow> byte list option \<times> 'st"
  st_write :: "'st \<Rightarrow> byte list \<Rightarrow> nat option \<times> 'st"
  st_close :: "'st \<Rightarrow> 'st"

subsection \<open>Bodies of a given length\<close>

record body_reader =
  m_partial_body :: "byte list"
  m_body_remain :: nat

definition body_read ::
    "'st socket_stream \<Rightarrow> nat \<Rightarrow> body_reader \<Rightarrow> 'st \<Rightarrow> byte list option \<times> body_reader \<times> 'st" where
  "body_read S count r st =
     (let count0 = min count (m_body_remain r);
          read_from_remain = min count0 (length (m_partial_body r));
          out = take read_from_remain (m_partial_body r);
          r1 = r\<lparr>m_partial_body := drop read_from_remain (m_partial_body r), m_body_remain := m_body_remain r - read_from_remain\<rparr>;
          count1 = count0 - read_from_remain
      in if count1 > 0 then
           (case st_read S st count1 of
              (None, st') \<Rightarrow> (None, r1, st')
            | (Some d, st') \<Rightarrow> (Some (out @ d), r1\<lparr>m_body_remain := m_body_remain r1 - length d\<rparr>, st'))
         else (Some out, r1, st))"

record body_writer =
  m_size :: nat
  m_cnt :: nat

definition body_write ::
    "'st socket_stream \<Rightarrow> byte list \<Rightarrow> body_writer \<Rightarrow> 'st \<Rightarrow> nat option \<times> body_writer \<times> 'st" where
  "body_write S buf w st =
     (let wc = min (length buf) (m_size w - m_cnt w)
      in case st_write S st (take wc buf) of
           (ret, st') \<Rightarrow> if ret \<noteq> Some wc then (None, w, st') else (Some wc, w\<lparr>m_cnt := m_cnt w + wc\<rparr>, st'))"

subsection \<open>Writing chunks\<close>

definition hex_digit :: "nat \<Rightarrow> byte" where
  "hex_digit d = (if d < 10 then 48 + of_nat d else 87 + of_nat d)"

fun hex_str :: "nat \<Rightarrow> byte list" where
  "hex_str n = (if n < 16 then [hex_digit n] else hex_str (n div 16) @ [hex_digit (n mod 16)])"

declare hex_str.simps [simp del]

abbreviation crlf :: "byte list" where
  "crlf \<equiv> [13, 10]"

text \<open>
  \<open>write\<close>: the size is printed into an array of 10 characters, of which \<open>snprintf\<close> keeps the last one for the
  terminating zero, and the two last characters of the printed length serve as the end of the chunk.
\<close>

definition chunk_header :: "nat \<Rightarrow> byte list \<times> nat" where
  "chunk_header count =
     (let s = hex_str (count mod 2 ^ 32) @ crlf
      in (take 9 s @ [0], length s))"

definition chunk_bytes :: "byte list \<Rightarrow> byte list" where
  "chunk_bytes buf =
     (let (chunk_size, n) = chunk_header (length buf)
      in take n chunk_size @ buf @ take 2 (drop (n - 2) chunk_size))"

definition chunked_write :: "'st socket_stream \<Rightarrow> byte list \<Rightarrow> 'st \<Rightarrow> nat option \<times> 'st" where
  "chunked_write S buf st =
     (case st_write S st (chunk_bytes buf) of
        (ret, st') \<Rightarrow> (if ret \<noteq> Some (length (chunk_bytes buf)) then None else Some (length buf), st'))"

definition chunked_close :: "'st socket_stream \<Rightarrow> bool \<times> 'st \<Rightarrow> bool \<times> bool \<times> 'st" where
  "chunked_close S w =
     (case w of (m_finish, st) \<Rightarrow>
        if m_finish then (True, m_finish, st)
        else (case chunked_write S [] st of (ret, st') \<Rightarrow> if ret = Some 0 then (True, True, st') else (False, m_finish, st')))"

subsection \<open>Reading chunks\<close>

record chunk_reader =
  m_get_line_buf :: "byte list"
  m_chunked_remain :: u64
  m_cursor :: nat
  m_finish :: bool

definition new_chunk_reader :: "byte list \<Rightarrow> chunk_reader" where
  "new_chunk_reader body = \<lparr>m_get_line_buf = body, m_chunked_remain = 0, m_cursor = 0, m_finish = False\<rparr>"

definition LINE_BUFFER_SIZE :: nat where "LINE_BUFFER_SIZE = 4 * 1024"

fun find_crlf :: "byte list \<Rightarrow> nat option" where
  "find_crlf [] = None"
| "find_crlf (c # cs) = (if c = 13 \<and> cs \<noteq> [] \<and> hd cs = 10 then Some 0 else map_option Suc (find_crlf cs))"

text \<open>
  \<open>pos_next_chunk\<close>: a line with a size, or the empty line behind a chunk.  A size of zero ends the body, and
  what is missing of the two line ends is read from the socket.
\<close>

definition pos_next_chunk ::
    "'st socket_stream \<Rightarrow> nat \<Rightarrow> chunk_reader \<Rightarrow> 'st \<Rightarrow> bool \<times> chunk_reader \<times> 'st" where
  "pos_next_chunk S pos r st =
     (let line = drop pos (m_get_line_buf r)
      in case find_crlf line of
           None \<Rightarrow> (False, r, st)
         | Some p \<Rightarrow>
             (let r1 = r\<lparr>m_chunked_remain := hex_to_uint64 (take p line)\<rparr>
              in if m_chunked_remain r1 \<noteq> 0 \<or> p = 0 then (True, r1\<lparr>m_cursor := m_cursor r1 + p + 2\<rparr>, st)
                 else
                   (let r2 = r1\<lparr>m_finish := True\<rparr>;
                        body_remain = of_nat (pos + p + 4) - of_nat (length (m_get_line_buf r)) :: u64
                    in if body_remain > 2 then (True, r2, st)
                       else if body_remain > 0 then
                         (case st_read S st (unat body_remain) of
                            (d, st') \<Rightarrow> (True, r2, if map_option length d \<noteq> Some (unat body_remain) then st_close S st' else st'))
                       else (True, r2, st))))"

partial_function (option) read_from_line_buf ::
    "'st socket_stream \<Rightarrow> nat \<Rightarrow> byte list \<Rightarrow> chunk_reader \<Rightarrow> 'st \<Rightarrow> (byte list \<times> nat \<times> chunk_reader \<times> 'st) option" where
  "read_from_line_buf S count out r st =
     (if 0 < count \<and> m_cursor r < length (m_get_line_buf r) \<and> \<not> m_finish r then
        (let n = min count (min (unat (m_chunked_remain r)) (length (m_get_line_buf r) - m_cursor r));
             out1 = out @ take n (drop (m_cursor r) (m_get_line_buf r));
             r1 = r\<lparr>m_cursor := m_cursor r + n, m_chunked_remain := m_chunked_remain r - of_nat n\<rparr>;
             (found, r2, st2) = (if m_chunked_remain r1 = 0 then pos_next_chunk S (m_cursor r1) r1 st else (True, r1, st))
         in if \<not> found
            then Some (out1, count - n, r2\<lparr>m_get_line_buf := drop (m_cursor r2) (m_get_line_buf r2), m_cursor := 0\<rparr>, st2)
            else read_from_line_buf S (count - n) out1
              (if m_cursor r2 = length (m_get_line_buf r2) then r2\<lparr>m_get_line_buf := [], m_cursor := 0\<rparr> else r2) st2)
      else Some (out, count, r, st))"

text \<open>\<open>get_new_chunk\<close>: \<open>False\<close> is a negative result.\<close>

partial_function (option) get_line ::
    "'st socket_stream \<Rightarrow> chunk_reader \<Rightarrow> 'st \<Rightarrow> (bool \<times> chunk_reader \<times> 'st) option" where
  "get_line S r st =
     (if m_finish r then Some (True, r, st)
      else if length (m_get_line_buf r) = LINE_BUFFER_SIZE then None
      else case st_recv S st (LINE_BUFFER_SIZE - length (m_get_line_buf r)) of
        (None, st1) \<Rightarrow> Some (False, r, st1)
      | (Some d, st1) \<Rightarrow>
          (if d = [] then Some (False, r, st1)
           else
             (let r1 = r\<lparr>m_get_line_buf := m_get_line_buf r @ d\<rparr>
              in if length (m_get_line_buf r1) \<le> 2 then get_line S r1 st1
                 else case pos_next_chunk S 0 r1 st1 of
                   (found, r2, st2) \<Rightarrow> if found then Some (True, r2, st2) else get_line S r2 st2)))"

definition get_new_chunk ::
    "'st socket_stream \<Rightarrow> chunk_reader \<Rightarrow> 'st \<Rightarrow> (bool \<times> chunk_reader \<times> 'st) option" where
  "get_new_chunk S r st =
     (if m_cursor r < length (m_get_line_buf r) then
        (case pos_next_chunk S (m_cursor r) r st of
           (found, r1, st1) \<Rightarrow>
             if found then Some (True, r1, st1)
             else get_line S (r1\<lparr>m_get_line_buf := drop (m_cursor r1) (m_get_line_buf r1), m_cursor := 0\<rparr>) st1)
      else get_line S r st)"

text \<open>\<open>read\<close>: the bytes stored, or nothing for a negative result.\<close>

partial_function (option) chunked_read ::
    "'st socket_stream \<Rightarrow> nat \<Rightarrow> byte list \<Rightarrow> chunk_reader \<Rightarrow> 'st \<Rightarrow> (byte list option \<times> chunk_reader \<times> 'st) option" where
  "chunked_read S count out r st =
     (if 0 < count \<and> \<not> m_finish r then
        Option.bind (read_from_line_buf S count out r st) (\<lambda>(out1, count1, r1, st1).
          (let (d, st2) = (if 0 < m_chunked_remain r1 \<and> 0 < count1
                           then st_read S st1 (min count1 (unat (m_chunked_remain r1))) else (Some [], st1))
           in case d of
                None \<Rightarrow> Some (None, r1, st2)
              | Some bs \<Rightarrow>
                  (let r2 = r1\<lparr>m_chunked_remain := m_chunked_remain r1 - of_nat (length bs)\<rparr>; count2 = count1 - length bs
                   in if 0 < m_chunked_remain r1 \<and> 0 < count1 \<and> 0 < m_chunked_remain r2 \<and> bs = []
                      then Some (Some (out1 @ bs), r2, st2)
                      else if m_chunked_remain r2 = 0
                      then Option.bind (get_new_chunk S r2 st2) (\<lambda>(ok, r3, st3).
                             if ok then chunked_read S count2 (out1 @ bs) r3 st3 else Some (None, r3, st3))
                      else chunked_read S count2 (out1 @ bs) r2 st2)))
      else Some (Some out, r, st))"

subsection \<open>Sizes\<close>

lemma hex_digit_ok: "d < 16 \<Longrightarrow> unat (hex_char_to_digit (hex_digit d)) = d \<and> hex_digit d \<noteq> 13"
proof -
  assume "d < 16"
  have "list_all (\<lambda>d. unat (hex_char_to_digit (hex_digit d)) = d \<and> hex_digit d \<noteq> 13) [0..<16]" by code_simp
  then show ?thesis using \<open>d < 16\<close> by (simp add: list_all_iff)
qed

lemma hex_str_digits: "c \<in> set (hex_str n) \<Longrightarrow> \<exists>d<16. c = hex_digit d"
proof (induction n rule: hex_str.induct)
  case (1 n)
  have "\<exists>d<16. hex_digit (n mod 16) = hex_digit d" by (rule exI [of _ "n mod 16"]) simp
  then show ?case using 1 hex_str.simps [of n] by (auto split: if_splits)
qed

lemma to_uint64_loop_append:
  "\<forall>c \<in> set xs. unat (parse c) < base \<Longrightarrow>
    to_uint64_loop base parse (xs @ ys) i v = (case to_uint64_loop base parse xs i v of (i', v') \<Rightarrow> to_uint64_loop base parse ys i' v')"
  by (induction xs arbitrary: i v) (auto simp: Let_def)

lemma hex_value: "to_uint64_loop 16 hex_char_to_digit (hex_str n) i 0 = (i + length (hex_str n), of_nat n)"
proof (induction n rule: hex_str.induct)
  case (1 n)
  have one: "to_uint64_loop 16 hex_char_to_digit [hex_digit d] j v = (Suc j, v * 16 + of_nat d)" if "d < 16" for d j v
    using hex_digit_ok [OF that] that by (simp add: Let_def) (metis of_nat_unat ucast_id word_of_nat_eq_0_iff)
  show ?case
  proof (cases "n < 16")
    case True
    then show ?thesis using one [of n i 0] by (simp add: hex_str.simps [of n])
  next
    case False
    have "\<forall>c \<in> set (hex_str (n div 16)). unat (hex_char_to_digit c) < 16"
      using hex_str_digits [of _ "n div 16"] hex_digit_ok by metis
    moreover have "of_nat (n div 16) * 16 + of_nat (n mod 16) = (of_nat n :: u64)"
      by (metis mod_div_mult_eq add.commute of_nat_add of_nat_mult of_nat_numeral)
    ultimately show ?thesis using False 1 one [of "n mod 16"]
      by (simp add: hex_str.simps [of n] to_uint64_loop_append del: to_uint64_loop.simps)
  qed
qed

lemma hex_str_ne [simp]: "hex_str n \<noteq> []"
  by (subst hex_str.simps) simp

lemma hex_to_uint64_str: "n < 2 ^ 64 \<Longrightarrow> hex_to_uint64 (hex_str n) = of_nat n"
  by (simp add: hex_to_uint64_def hex_to_uint64_check_def hex_value)

lemma length_hex_str: "n < 16 ^ k \<Longrightarrow> 0 < k \<Longrightarrow> length (hex_str n) \<le> k"
proof (induction k arbitrary: n)
  case (Suc k)
  show ?case
  proof (cases "n < 16")
    case False
    then have "0 < k" using Suc.prems by (cases k) auto
    moreover have "n div 16 < 16 ^ k" using Suc.prems by (simp add: less_mult_imp_div_less mult.commute)
    ultimately show ?thesis using Suc.IH [of "n div 16"] False by (subst hex_str.simps) simp
  qed (subst hex_str.simps, simp)
qed simp

lemma find_crlf_line: "13 \<notin> set xs \<Longrightarrow> find_crlf (xs @ crlf @ ys) = Some (length xs)"
  by (induction xs) auto

lemma chunk_bytes_form:
  assumes "length b < 2 ^ 28"
  shows "chunk_bytes b = hex_str (length b) @ crlf @ b @ crlf"
proof -
  have "length (hex_str (length b)) \<le> 7" using assms by (intro length_hex_str) simp_all
  then show ?thesis using assms by (simp add: chunk_bytes_def chunk_header_def Let_def)
qed

lemma chunk_end: "chunk_bytes [] = [48, 13, 10, 13, 10]"
  using chunk_bytes_form [of "[]"] by (simp add: hex_str.simps hex_digit_def)

lemma hex_str_no_cr: "13 \<notin> set (hex_str n)"
  using hex_str_digits [of 13 n] hex_digit_ok by metis

subsection \<open>The positions in the buffer\<close>

lemma pos_size_line:
  assumes "buf = pre @ hex_str n @ crlf @ rest" "0 < n" "n < 2 ^ 28"
  shows "pos_next_chunk S (length pre) \<lparr>m_get_line_buf = buf, m_chunked_remain = v, m_cursor = length pre, m_finish = False\<rparr> st =
    (True, \<lparr>m_get_line_buf = buf, m_chunked_remain = of_nat n, m_cursor = length pre + length (hex_str n) + 2, m_finish = False\<rparr>, st)"
proof -
  have "drop (length pre) buf = hex_str n @ crlf @ rest" using assms(1) by simp
  moreover have "(of_nat n :: u64) \<noteq> 0" using assms(2,3) by (simp add: word_eq_iff_unat unat_of_nat_u64)
  ultimately show ?thesis using find_crlf_line [OF hex_str_no_cr, of n rest] hex_to_uint64_str [of n] assms(3)
    by (simp add: pos_next_chunk_def Let_def)
qed

lemma pos_blank_line:
  assumes "buf = pre @ crlf @ rest"
  shows "pos_next_chunk S (length pre) \<lparr>m_get_line_buf = buf, m_chunked_remain = v, m_cursor = length pre, m_finish = False\<rparr> st =
    (True, \<lparr>m_get_line_buf = buf, m_chunked_remain = 0, m_cursor = length pre + 2, m_finish = False\<rparr>, st)"
proof -
  have "hex_to_uint64 [] = 0" by (simp add: hex_to_uint64_def hex_to_uint64_check_def)
  then show ?thesis using assms by (simp add: pos_next_chunk_def Let_def)
qed

lemma pos_last_line:
  assumes "buf = pre @ chunk_bytes []"
  shows "pos_next_chunk S (length pre) \<lparr>m_get_line_buf = buf, m_chunked_remain = v, m_cursor = length pre, m_finish = b\<rparr> st =
    (True, \<lparr>m_get_line_buf = buf, m_chunked_remain = 0, m_cursor = length pre, m_finish = True\<rparr>, st)"
proof -
  have "hex_to_uint64 [48] = 0" by code_simp
  then show ?thesis using assms chunk_end by (simp add: pos_next_chunk_def Let_def)
qed

text \<open>The loop over a buffer that holds whole chunks and the end of the body.\<close>

lemma read_whole_chunks:
  assumes "\<forall>c \<in> set cs. 0 < length c \<and> length c < 2 ^ 28" "0 < count" "length (concat cs) \<le> count"
    and "buf = pre @ concat (map chunk_bytes cs) @ chunk_bytes []"
  shows "read_from_line_buf S count out \<lparr>m_get_line_buf = buf, m_chunked_remain = 0, m_cursor = length pre, m_finish = False\<rparr> st =
    Some (out @ concat cs, count - length (concat cs),
      \<lparr>m_get_line_buf = buf, m_chunked_remain = 0, m_cursor = length buf - 5, m_finish = (length (concat cs) < count)\<rparr>, st)"
  using assms
proof (induction cs arbitrary: pre count out)
  case Nil
  then have "length buf = length pre + 5" by (simp add: chunk_end)
  then show ?case using Nil.prems pos_last_line [of buf pre S 0 False st]
    by (subst read_from_line_buf.simps) (simp, subst read_from_line_buf.simps, simp)
next
  case (Cons c cs)
  let ?h = "pre @ hex_str (length c) @ crlf" and ?rest = "concat (map chunk_bytes cs) @ chunk_bytes []"
  have c: "0 < length c" "length c < 2 ^ 28" using Cons.prems(1) by simp_all
  have form: "chunk_bytes c = hex_str (length c) @ crlf @ c @ crlf" using chunk_bytes_form [OF c(2)] .
  have buf: "buf = pre @ hex_str (length c) @ crlf @ c @ crlf @ ?rest" using Cons.prems(4) form by simp
  have n: "unat (of_nat (length c) :: u64) = length c" using c(2) by (simp add: unat_of_nat_u64)
  have 1: "read_from_line_buf S count out \<lparr>m_get_line_buf = buf, m_chunked_remain = 0, m_cursor = length pre, m_finish = False\<rparr> st =
    read_from_line_buf S count out \<lparr>m_get_line_buf = buf, m_chunked_remain = of_nat (length c), m_cursor = length ?h, m_finish = False\<rparr> st"
    using Cons.prems(2) pos_size_line [OF buf c, of S 0 st] buf c(1) by (subst read_from_line_buf.simps) simp
  have 2: "read_from_line_buf S count out \<lparr>m_get_line_buf = buf, m_chunked_remain = of_nat (length c), m_cursor = length ?h, m_finish = False\<rparr> st =
    read_from_line_buf S (count - length c) (out @ c)
      \<lparr>m_get_line_buf = buf, m_chunked_remain = 0, m_cursor = length (pre @ chunk_bytes c), m_finish = False\<rparr> st"
  proof -
    have b2: "buf = (?h @ c) @ crlf @ ?rest" using buf by simp
    have m: "min count (min (unat (of_nat (length c) :: u64)) (length buf - length ?h)) = length c"
      using Cons.prems(3) n buf by simp
    have d: "take (length c) (drop (length ?h) buf) = c" using buf by simp
    have l: "length (?h @ c) + 2 = length (pre @ chunk_bytes c)" "length ?h + length c = length (?h @ c)"
      "length (pre @ chunk_bytes c) \<noteq> length buf" "length ?h < length buf"
      using buf form chunk_end by simp_all
    show ?thesis
      using pos_blank_line [OF b2, of S 0 st] Cons.prems(2) m d l
      by (subst read_from_line_buf.simps) (simp del: length_append)
  qed
  show ?case
  proof (cases "count = length c")
    case True
    then have "cs = []" using Cons.prems(1,3) by (cases cs) auto
    then show ?thesis unfolding 1 2 using True buf form chunk_end
      by (subst read_from_line_buf.simps) simp
  next
    case False
    then show ?thesis unfolding 1 2 using Cons.IH [of "count - length c" "pre @ chunk_bytes c" "out @ c"] Cons.prems c by auto
  qed
qed

subsection \<open>Properties\<close>

text \<open>A socket that collects what is written and hands out what it holds.\<close>

definition memory_socket :: "byte list socket_stream" where
  "memory_socket =
     \<lparr>st_read = (\<lambda>st n. (Some (take n st), drop n st)), st_recv = (\<lambda>st n. (Some (take n st), drop n st)),
      st_write = (\<lambda>st bs. (Some (length bs), st @ bs)), st_close = (\<lambda>st. st)\<rparr>"

definition send_chunks :: "byte list list \<Rightarrow> byte list" where
  "send_chunks cs =
     (case chunked_close memory_socket (False, foldl (\<lambda>st c. snd (chunked_write memory_socket c st)) [] cs) of
        (_, _, st) \<Rightarrow> st)"

lemma send_chunks_bytes: "send_chunks cs = concat (map chunk_bytes cs) @ chunk_bytes []"
proof -
  have "foldl (\<lambda>st c. snd (chunked_write memory_socket c st)) st cs = st @ concat (map chunk_bytes cs)" for st
    by (induction cs arbitrary: st) (auto simp: chunked_write_def memory_socket_def)
  then show ?thesis by (simp add: send_chunks_def chunked_close_def chunked_write_def memory_socket_def)
qed



text \<open>
  When the buffer ends within the last line end, \<open>read\<close> calls \<open>get_new_chunk\<close> after the end of the body was found, and
  the missing bytes are read twice: the second time they belong to the next message.
\<close>

lemma last_line_end_read_twice:
  "\<exists>r. chunked_read memory_socket 100 [] (new_chunk_reader [48, 13, 10, 13]) [10, 72, 84, 84, 80] = Some (Some [], r, [84, 84, 80])"
proof -
  let ?r = "\<lambda>b. \<lparr>m_get_line_buf = [48, 13, 10, 13], m_chunked_remain = 0, m_cursor = 0, m_finish = b\<rparr>"
  have "hex_to_uint64 [48] = 0" by code_simp
  then have pos: "pos_next_chunk memory_socket 0 (?r b) st = (True, ?r True, drop 1 st)" if "st \<noteq> []" for b st
    using that by (cases st) (simp_all add: pos_next_chunk_def Let_def memory_socket_def)
  have "read_from_line_buf memory_socket 100 [] (?r False) [10, 72, 84, 84, 80] = Some ([], 100, ?r True, [72, 84, 84, 80])"
    by (subst read_from_line_buf.simps) (simp add: pos, subst read_from_line_buf.simps, simp)
  moreover have "get_new_chunk memory_socket (?r True) [72, 84, 84, 80] = Some (True, ?r True, [84, 84, 80])"
    by (simp add: get_new_chunk_def pos)
  ultimately have "chunked_read memory_socket 100 [] (?r False) [10, 72, 84, 84, 80] = chunked_read memory_socket 100 [] (?r True) [84, 84, 80]"
    by (subst chunked_read.simps) simp
  also have "\<dots> = Some (Some [], ?r True, [84, 84, 80])" by (subst chunked_read.simps) simp
  finally show ?thesis unfolding new_chunk_reader_def by auto
qed

end
