(* ===== verification/Spec2Isabelle.thy ===== *)
theory Spec2Isabelle
  imports Prelude Utility Range_Split Intrusive_List Sleep_Queue Timeout Thread_State Sync IO_Vector_Class Range_Lock LRU Queue_Spinlock Ring_Buffer Base64 Url_Parse Path_Tree Aligned_File Http_Body
begin

text \<open>
  A verification of the core of PhotonLibOS, a C++ library of stackful user-space threads with
  an I/O stack on top of them.  This theory imports the whole development.  File names are relative
  to src/.

  \<^bold>\<open>The program.\<close>  thread/ holds the scheduler: every OS thread that uses the library is a vCPU with a
  ring of runnable threads, a heap of sleepers and a stand-by queue into which other vCPUs put
  threads they wake.  The blocking primitives (mutex, semaphore, condition variable, reader-writer
  lock) are wait queues on top of it, the spin locks protect it.  common/ holds the data structures:
  intrusive lists, I/O vectors, ring buffers, range locks, timeouts, strings.  fs/, net/, rpc/, io/
  and ecosystem/ use both.

  \<^bold>\<open>Conventions.\<close>  Unsigned integers of the code are words of the same width, so they wrap around as
  in the code; lengths and addresses are natural numbers only in the I/O vectors, whose header says why.
  A failed assertion, an access outside an array and any other undefined behaviour is the value
  \<open>None\<close> (\<open>Wild\<close> in the directory tree), so that a theorem that a result is \<open>Some\<close> says that no assertion fails.  The
  clock is an argument of every operation that reads it.  Definitions have the names of the code.

  \<^bold>\<open>Shared theories.\<close>  Prelude has the word types, the rule collections, generic list and word facts
  and the locale \<open>data_refinement\<close>: when every single operation of a concrete data type simulates the
  abstract one, every sequence of operations does.  It is interpreted for intrusive lists, I/O
  vectors, the LRU container and the ring queue.  Utility and Log2 are the integer helpers of
  common/utility.h; Log2 shows where \<open>round_up_to_exp2\<close> is exact and where its 32-bit intermediate is not.

  \<^bold>\<open>Scheduler (thread/thread.cpp, thread.h).\<close>
  \<^item> Sleep_Queue: class \<open>SleepQueue\<close>, the binary heap that stores in each thread its position.  It keeps
    heap order and positions, and is an instance of the locale \<open>timer_queue\<close>, which promises that
    emptying it yields the threads by deadline.
  \<^item> Timeout (common/timeout.h): saturating deadlines.
  \<^item> Thread_State: the fields of \<open>struct thread\<close> and \<open>struct vcpu_t\<close> as one record \<open>sched\<close>, and the operations of
    \<open>RunQ\<close> and \<open>AtomicRunQ\<close>.
  \<^item> Scheduler: create, yield, yield to, usleep, interrupt, shutdown, join, die, resume, migrate, work
    stealing.  A function that switches contexts is two definitions: up to the switch, and, with the
    suffix \<open>_resumed\<close>, from the return of the switch to the result.
  \<^item> Scheduler_Inv, Scheduler_Moves, Scheduler_Ops, Scheduler_Resume: the invariant that ties the
    state of a thread to the queues it is on; the elementary moves between queues keep it, and so
    every operation does.
  \<^item> Scheduler_Props: the step relation of the whole scheduler, with any number of vCPUs.  In every
    reachable state the invariant holds and no assertion fails; sleepers wake up when and only when
    they are due; an interrupt reaches a sleeper.
  \<^item> Sync: wait queues, mutex, recursive mutex, condition variable, semaphore, reader-writer lock.
    A mutex is handed over to the first waiter, readers and writers exclude each other, signalling
    wakes the longest prefix that the count satisfies, \<open>resume_all\<close> ends.

  \<^bold>\<open>Spin locks (thread/thread.cpp).\<close>  Spin_Locks and Queue_Spinlock let any number of CPUs interleave, one
  atomic access per step.  The locale \<open>step_invariant\<close> carries invariants along such runs and is
  interpreted for the test-and-set, ticket, asymmetric and queue lock.  All are exclusive when
  accesses are sequentially consistent; the asymmetric lock is not with a store buffer.

  \<^bold>\<open>Data structures.\<close>
  \<^item> Intrusive_List (common/intrusive_list.h): the rings as an explicit pointer store; every sequence of
    operations behaves as on lists.
  \<^item> Range_Split (fs/range-split.h, range-split-vi.h): the locale \<open>block_splitter\<close> has the laws of \<open>divide\<close>,
    \<open>multiply\<close> and \<open>get_length\<close> and is interpreted for fixed and variable intervals; the visited parts
    tile the range, and the power-of-two variant equals the fixed one.
  \<^item> IO_Vector and IO_Vector_Class (common/iovector.h, iovector.cpp): views over a byte memory, the copy
    and extraction loops, and the class with its bounded array of buffers.
  \<^item> Range_Lock (common/range-lock.h): held ranges stay disjoint.
  \<^item> LRU (fs/cache/policy/lru.h): the container behaves as the list of keys by recency.
  \<^item> Aligned_File (fs/aligned-file.cpp): reads and writes of any range by aligned requests, on any
    underlying file that honours those; the contents change as by direct writes.
  \<^item> Ring_Buffer (common/ring.h, ring.cpp): the ring behaves as a bounded first-in first-out list.

  \<^bold>\<open>Strings and paths.\<close>
  \<^item> Base64 (net/utils.cpp): decoding inverts encoding.
  \<^item> Case_Fold (common/estring.h, estring.cpp): case conversion eight characters at a time against
    the conversion of single characters.
  \<^item> Url and Url_Parse (common/estring.cpp, net/http/url.h, url.cpp): numbers in strings, percent escapes, the URL parser.
  \<^item> Path and Path_Tree (fs/path.h, path.cpp): components, names, level check, and the in-memory
    directory tree \<open>Tree::Node\<close>.
  \<^item> Http_Body (net/http/body.cpp): bodies of HTTP messages; what the chunked writer sends the
    chunked reader gives back.

  \<^bold>\<open>Loops.\<close>  Loops that end are functions with a termination proof.  Loops whose end depends on an
  invariant are partial functions into \<open>option\<close>, and their theorems show that they return: iteration
  over a ring, clearing and transferring of the ring queue, the chunked reader on a complete body,
  \<open>resume_all\<close>, the loops of the semaphore and of the reader-writer lock.  The search for work to steal is one, too, and is shown not to return when it
  meets a vCPU that does not allow stealing.  \<open>thread_yield_to\<close> waits for a stand-by thread with one clock
  reading per round; a single reading is enough by the theorem on its assertions.

  \<^bold>\<open>Not modelled.\<close>
  \<^item> The machine: context switch in assembly, stacks, thread-local storage, memory orders other than
    the store buffer of the asymmetric lock.  The spin locks inside the scheduler are held for a whole
    step, so the scheduler is verified as a sequence of atomic operations of its vCPUs.
  \<^item> The idle loop, the time stamp updater and the event engines (io/), which wait for the kernel.
  \<^item> net/ beyond Base64, URLs and bodies, rpc/, ecosystem/ and the file systems and caches of fs/: they
    are calls into sockets, files, OpenSSL, curl, FUSE, ext2fs and other libraries whose code is not
    in the repository.
  \<^item> Logging, formatting, delegates, spans and other templates of common/: they fix types, not behaviour.
  \<^item> Checksums: generated tables and vector instructions.
  \<^item> Thread pools, executors, futures, object and identity pools, throttles, the lock-free queues:
    clients of the scheduler whose state is protected by what is verified here or that rely on
    fine-grained memory orders.
\<close>

end
